(* ===== verification/Prelude.thy ===== *)
theory Prelude
  imports Main "HOL-Library.Word" "HOL-Library.Monad_Syntax"
begin

text \<open>
  Shared vocabulary of the development: machine integers at their C widths, byte
  buffers with bounds-checked access, C strings, and the byte-order functions of the
  C library for the little-endian host the Makefile builds for.

  A C computation that may read or write outside its buffer, dereference a null
  pointer or fail an \<^verbatim>\<open>assert\<close> has an \<open>option\<close> type: \<open>None\<close> stands for that
  fault, \<open>Some\<close> for a run that gets past it.
\<close>

unbundle bit_operations_syntax

type_synonym u8 = "8 word"
type_synonym u16 = "16 word"
type_synonym u32 = "32 word"
type_synonym time = int
type_synonym cstring = string

named_theorems mem \<open>evaluation of bounds-checked buffer accesses\<close>
named_theorems wire \<open>encoding and decoding of the packed structures\<close>
named_theorems frame \<open>components of the state an operation leaves alone\<close>

section \<open>Options\<close>

text \<open>An option that has a value exactly where another has one that satisfies \<open>P\<close>.\<close>

lemma option_restrict:
  assumes "\<And>f. x = Some f \<longleftrightarrow> y = Some f \<and> P f"
  shows "x = (case y of None \<Rightarrow> None | Some f \<Rightarrow> if P f then Some f else None)"
proof (cases x)
  case None
  then have "\<not> P f" if "y = Some f" for f using that assms [of f] by simp
  with None show ?thesis by (simp split: option.split)
next
  case (Some f)
  then show ?thesis using assms [of f] by simp
qed

section \<open>Byte buffers\<close>

text \<open>
  \<open>load buf off n\<close> reads \<open>n\<close> bytes at offset \<open>off\<close>; \<open>store buf off bs\<close> overwrites the
  bytes from \<open>off\<close> on with \<open>bs\<close>. Both fail when the access leaves the buffer.
\<close>

definition load :: "u8 list \<Rightarrow> nat \<Rightarrow> nat \<Rightarrow> u8 list option" where
  "load buf off n = (if off + n \<le> length buf then Some (take n (drop off buf)) else None)"

definition overwrite :: "u8 list \<Rightarrow> nat \<Rightarrow> u8 list \<Rightarrow> u8 list" where
  "overwrite buf off bs = take off buf @ bs @ drop (off + length bs) buf"

definition store :: "u8 list \<Rightarrow> nat \<Rightarrow> u8 list \<Rightarrow> u8 list option" where
  "store buf off bs =
     (if off + length bs \<le> length buf then Some (overwrite buf off bs) else None)"

lemma load_in_bounds [mem]:
  "off + n \<le> length buf \<Longrightarrow> load buf off n = Some (take n (drop off buf))"
  by (simp add: load_def)

lemma store_in_bounds [mem]:
  "off + length bs \<le> length buf \<Longrightarrow> store buf off bs = Some (overwrite buf off bs)"
  by (simp add: store_def)

lemma load_eq_Some_iff:
  "load buf off n = Some bs \<longleftrightarrow> off + n \<le> length buf \<and> bs = take n (drop off buf)"
  by (auto simp: load_def)

lemma length_overwrite [simp]:
  "off + length bs \<le> length buf \<Longrightarrow> length (overwrite buf off bs) = length buf"
  by (simp add: overwrite_def)

lemma take_overwrite_before [mem]:
  "n \<le> off \<Longrightarrow> off + length bs \<le> length buf \<Longrightarrow> take n (overwrite buf off bs) = take n buf"
  by (simp add: overwrite_def min_def)

lemma drop_overwrite_after [mem]:
  "off + length bs \<le> n \<Longrightarrow> off + length bs \<le> length buf \<Longrightarrow>
   drop n (overwrite buf off bs) = drop n buf"
  by (simp add: overwrite_def)

lemma slice_overwrite_same [mem]:
  "off + length bs \<le> length buf \<Longrightarrow> length bs = n \<Longrightarrow>
   take n (drop off (overwrite buf off bs)) = bs"
  by (auto simp: overwrite_def)

lemma slice_overwrite_before [mem]:
  assumes "k + n \<le> off" and "off + length bs \<le> length buf"
  shows "take n (drop k (overwrite buf off bs)) = take n (drop k buf)"
proof -
  have "take n (drop k (overwrite buf off bs)) = drop k (take (k + n) (overwrite buf off bs))"
    by (simp add: take_drop add.commute)
  also have "\<dots> = drop k (take (k + n) buf)"
    using assms by (simp add: take_overwrite_before)
  finally show ?thesis by (simp add: take_drop add.commute)
qed

lemma slice_overwrite_after [mem]:
  "off + length bs \<le> k \<Longrightarrow> off + length bs \<le> length buf \<Longrightarrow>
   take n (drop k (overwrite buf off bs)) = take n (drop k buf)"
  by (simp add: drop_overwrite_after)

lemma overwrite_slice_id [mem]:
  "off + n \<le> length buf \<Longrightarrow> overwrite buf off (take n (drop off buf)) = buf"
  by (simp add: overwrite_def) (metis append_take_drop_id drop_drop add.commute)

lemma overwrite_overwrite_same [mem]:
  "off + length bs \<le> length buf \<Longrightarrow> length cs = length bs \<Longrightarrow>
   overwrite (overwrite buf off bs) off cs = overwrite buf off cs"
  by (simp add: overwrite_def)

lemma nth_overwrite_outside:
  assumes "off + length bs \<le> length buf" and "i < off \<or> off + length bs \<le> i"
  shows "overwrite buf off bs ! i = buf ! i"
  using assms by (auto simp: overwrite_def nth_append)

section \<open>Byte order\<close>

text \<open>
  A 16- or 32-bit field of a packed structure read on a little-endian host, and the bytes
  such a field occupies. Fields hold the raw value, in network byte order seen through a
  little-endian load, exactly as the C structures do.
\<close>

definition le16 :: "u8 \<Rightarrow> u8 \<Rightarrow> u16" where
  "le16 a b = ucast a OR push_bit 8 (ucast b)"

definition le32 :: "u8 \<Rightarrow> u8 \<Rightarrow> u8 \<Rightarrow> u8 \<Rightarrow> u32" where
  "le32 a b c d =
     ucast a OR push_bit 8 (ucast b) OR push_bit 16 (ucast c) OR push_bit 24 (ucast d)"

definition bytes16 :: "u16 \<Rightarrow> u8 list" where
  "bytes16 x = [ucast x, ucast (drop_bit 8 x)]"

definition bytes32 :: "u32 \<Rightarrow> u8 list" where
  "bytes32 x = [ucast x, ucast (drop_bit 8 x), ucast (drop_bit 16 x), ucast (drop_bit 24 x)]"

definition htons :: "u16 \<Rightarrow> u16" where
  "htons x = le16 (ucast (drop_bit 8 x)) (ucast x)"

definition htonl :: "u32 \<Rightarrow> u32" where
  "htonl x = le32 (ucast (drop_bit 24 x)) (ucast (drop_bit 16 x)) (ucast (drop_bit 8 x)) (ucast x)"

abbreviation ntohs :: "u16 \<Rightarrow> u16" where "ntohs \<equiv> htons"
abbreviation ntohl :: "u32 \<Rightarrow> u32" where "ntohl \<equiv> htonl"

lemma length_bytes [simp]: "length (bytes16 x) = 2" "length (bytes32 y) = 4"
  by (simp_all add: bytes16_def bytes32_def)

lemma le16_bytes [wire]: "le16 (ucast x) (ucast (drop_bit 8 x)) = x"
  by (rule bit_word_eqI) (auto simp: le16_def bit_simps)

lemma le16_low [wire]: "ucast (le16 a b) = a"
  by (rule bit_word_eqI) (auto simp: le16_def bit_simps)

lemma le16_high [wire]: "ucast (drop_bit 8 (le16 a b)) = b"
  by (rule bit_word_eqI) (auto simp: le16_def bit_simps dest: bit_imp_le_length)

lemma le32_bytes [wire]:
  "le32 (ucast x) (ucast (drop_bit 8 x)) (ucast (drop_bit 16 x)) (ucast (drop_bit 24 x)) = x"
proof (rule bit_word_eqI)
  fix n assume "n < LENGTH(32)"
  then have n: "n < 32" by simp
  consider "n < 8" | "8 \<le> n" "n < 16" | "16 \<le> n" "n < 24" | "24 \<le> n" by linarith
  then show "bit (le32 (ucast x) (ucast (drop_bit 8 x)) (ucast (drop_bit 16 x))
       (ucast (drop_bit 24 x))) n = bit x n"
    using n by cases (auto simp: le32_def bit_simps)
qed

lemma le32_byte0 [wire]: "ucast (le32 a b c d) = a"
  by (rule bit_word_eqI) (auto simp: le32_def bit_simps)

lemma le32_byte1 [wire]: "ucast (drop_bit 8 (le32 a b c d)) = b"
  by (rule bit_word_eqI) (auto simp: le32_def bit_simps dest: bit_imp_le_length)

lemma le32_byte2 [wire]: "ucast (drop_bit 16 (le32 a b c d)) = c"
  by (rule bit_word_eqI) (auto simp: le32_def bit_simps dest: bit_imp_le_length)

lemma le32_byte3 [wire]: "ucast (drop_bit 24 (le32 a b c d)) = d"
  by (rule bit_word_eqI) (auto simp: le32_def bit_simps dest: bit_imp_le_length)

text \<open>The contract of a byte-order function: it is its own inverse.\<close>

locale byte_order =
  fixes swap :: "'a::len word \<Rightarrow> 'a word"
  assumes swap_swap: "swap (swap x) = x"
begin

lemma swap_inj: "swap x = swap y \<longleftrightarrow> x = y"
  by (metis swap_swap)

lemma swap_eq_iff: "swap x = y \<longleftrightarrow> x = swap y"
  by (metis swap_swap)

end

interpretation order16: byte_order htons
  by unfold_locales (simp add: htons_def wire)

interpretation order32: byte_order htonl
  by unfold_locales (simp add: htonl_def wire)

declare order16.swap_swap [simp] order32.swap_swap [simp]

lemma htons_eq_0_iff [simp]: "htons x = 0 \<longleftrightarrow> x = 0"
  using order16.swap_inj [of x 0] by (simp add: htons_def le16_def)

lemma unat_le16: "unat (le16 a b) = unat a + 256 * unat b"
proof -
  have "le16 a b = ucast a + push_bit 8 (ucast b)"
    unfolding le16_def
    by (rule disjunctive_add_eq_or [symmetric], rule bit_word_eqI)
      (auto simp: bit_simps dest: bit_imp_le_length)
  moreover have "unat (ucast a + push_bit 8 (ucast b :: u16)) = unat a + 256 * unat b"
    using unsigned_less [of a, where ?'a = nat] unsigned_less [of b, where ?'a = nat]
    by (simp add: push_bit_eq_mult unat_word_ariths unsigned_ucast_eq take_bit_eq_mod)
  ultimately show ?thesis by simp
qed

lemma unat_htons_le16: "unat (htons (le16 a b)) = 256 * unat a + unat b"
  by (simp add: htons_def wire unat_le16)

section \<open>C strings\<close>

text \<open>
  A \<^verbatim>\<open>char\<close> array or pointer is represented by its characters before the first NUL; a
  \<^verbatim>\<open>char[n]\<close> filled by \<^verbatim>\<open>strncpy\<close> without room for the NUL is its \<open>n\<close> characters.
\<close>

definition strncpy :: "nat \<Rightarrow> cstring \<Rightarrow> cstring" where
  "strncpy n s = take n s"

fun strncmp :: "cstring \<Rightarrow> cstring \<Rightarrow> nat \<Rightarrow> int" where
  "strncmp _ _ 0 = 0"
| "strncmp [] [] (Suc n) = 0"
| "strncmp [] (y # ys) (Suc n) = - int (of_char y)"
| "strncmp (x # xs) [] (Suc n) = int (of_char x)"
| "strncmp (x # xs) (y # ys) (Suc n) =
     (if x = y then strncmp xs ys n else int (of_char x) - int (of_char y))"

definition c_str :: "cstring \<Rightarrow> bool" where
  "c_str s \<longleftrightarrow> CHR 0x00 \<notin> set s"

lemma of_char_nat_eq_0: "(of_char c :: nat) = 0 \<longleftrightarrow> c = CHR 0x00"
  using of_char_eq_iff [of c "CHR 0x00", where ?'a = nat] by (simp del: of_char_eq_iff)

lemma strncmp_0_iff: "c_str s \<Longrightarrow> c_str t \<Longrightarrow> strncmp s t n = 0 \<longleftrightarrow> take n s = take n t"
proof (induction s t n rule: strncmp.induct)
  case (5 x xs y ys n)
  have "int (of_char x) - int (of_char y) \<noteq> 0" if "x \<noteq> y"
    using that by simp
  with 5 show ?case by (simp add: c_str_def)
qed (auto simp: c_str_def of_char_nat_eq_0)

lemma strncmp_refl [simp]: "strncmp s s n = 0"
  by (induction s arbitrary: n) (case_tac n, simp_all)+

lemma strncmp_sym_0: "strncmp s t n = 0 \<longleftrightarrow> strncmp t s n = 0"
  by (induction s t n rule: strncmp.induct) auto

end
