(* ===== verification/Protocol.thy ===== *)
theory Protocol
  imports Prelude
begin

text \<open>
  The packed structures and constants of \<^verbatim>\<open>src/sr_protocol.h\<close>: Ethernet, IPv4, ARP and
  ICMP headers as records, each with its byte layout. The locale \<open>wire_struct\<close> is the
  contract of a packed structure; every structure interprets it, which gives reading and
  writing it through a pointer into a buffer.
\<close>

section \<open>Constants\<close>

definition ip_protocol_icmp :: u8 where "ip_protocol_icmp = 0x01"
definition ip_protocol_tcp :: u8 where "ip_protocol_tcp = 0x06"
definition ip_protocol_udp :: u8 where "ip_protocol_udp = 0x11"
definition ethertype_arp :: u16 where "ethertype_arp = 0x0806"
definition ethertype_ip :: u16 where "ethertype_ip = 0x0800"
definition arp_op_request :: u16 where "arp_op_request = 0x0001"
definition arp_op_reply :: u16 where "arp_op_reply = 0x0002"
definition arp_hrd_ethernet :: u16 where "arp_hrd_ethernet = 0x0001"
definition ICMP_DATA_SIZE :: nat where "ICMP_DATA_SIZE = 28"
definition sr_IFACE_NAMELEN :: nat where "sr_IFACE_NAMELEN = 32"
definition ETHER_ADDR_LEN :: nat where "ETHER_ADDR_LEN = 6"

lemmas protocol_consts =
  ip_protocol_icmp_def ip_protocol_tcp_def ip_protocol_udp_def ethertype_arp_def
  ethertype_ip_def arp_op_request_def arp_op_reply_def arp_hrd_ethernet_def
  ICMP_DATA_SIZE_def sr_IFACE_NAMELEN_def ETHER_ADDR_LEN_def

section \<open>Packed structures in a buffer\<close>

text \<open>
  \<open>ld dec n buf off\<close> reads the structure of \<open>n\<close> bytes a pointer \<open>buf + off\<close> points to,
  \<open>st enc buf off h\<close> writes one there.
\<close>

definition ld :: "(u8 list \<Rightarrow> 'a) \<Rightarrow> nat \<Rightarrow> u8 list \<Rightarrow> nat \<Rightarrow> 'a option" where
  "ld dec n buf off = map_option dec (load buf off n)"

definition st :: "('a \<Rightarrow> u8 list) \<Rightarrow> u8 list \<Rightarrow> nat \<Rightarrow> 'a \<Rightarrow> u8 list option" where
  "st enc buf off h = store buf off (enc h)"

locale wire_struct =
  fixes enc :: "'a \<Rightarrow> u8 list" and dec :: "u8 list \<Rightarrow> 'a" and sz :: nat
  assumes length_enc: "length (enc h) = sz"
    and dec_enc: "dec (enc h) = h"
    and enc_dec: "length bs = sz \<Longrightarrow> enc (dec bs) = bs"
begin

lemma ld_in_bounds: "off + sz \<le> length buf \<Longrightarrow> ld dec sz buf off = Some (dec (take sz (drop off buf)))"
  by (simp add: ld_def load_in_bounds)

lemma ld_None_iff: "ld dec sz buf off = None \<longleftrightarrow> length buf < off + sz"
  by (simp add: ld_def load_def not_le)

lemma st_in_bounds: "off + sz \<le> length buf \<Longrightarrow> st enc buf off h = Some (overwrite buf off (enc h))"
  by (simp add: st_def store_in_bounds length_enc)

lemma st_None_iff: "st enc buf off h = None \<longleftrightarrow> length buf < off + sz"
  by (simp add: st_def store_def length_enc not_le)

lemma length_st: "st enc buf off h = Some buf' \<Longrightarrow> length buf' = length buf"
  by (auto simp: st_def store_def length_enc split: if_splits)

lemma length_over: "off + sz \<le> length buf \<Longrightarrow> length (overwrite buf off (enc h)) = length buf"
  by (simp add: length_enc)

lemma ld_over_same:
  "off + sz \<le> length buf \<Longrightarrow> ld dec sz (overwrite buf off (enc h)) off = Some h"
  by (simp add: ld_in_bounds length_enc slice_overwrite_same dec_enc)

lemma slice_over_same:
  "off + sz \<le> length buf \<Longrightarrow> take sz (drop off (overwrite buf off (enc h))) = enc h"
  by (simp add: length_enc slice_overwrite_same)

lemma over_over: "off + sz \<le> length buf \<Longrightarrow>
  overwrite (overwrite buf off (enc h)) off (enc h') = overwrite buf off (enc h')"
  by (simp add: overwrite_overwrite_same length_enc)

lemma over_ld_id:
  "ld dec sz buf off = Some h \<Longrightarrow> overwrite buf off (enc h) = buf"
  by (auto simp: ld_def load_def enc_dec overwrite_slice_id split: if_splits)

lemma enc_eq_slice:
  "ld dec sz buf off = Some h \<Longrightarrow> enc h = take sz (drop off buf)"
  by (auto simp: ld_def load_def enc_dec split: if_splits)

lemma take_over_before:
  "n \<le> off \<Longrightarrow> off + sz \<le> length buf \<Longrightarrow> take n (overwrite buf off (enc h)) = take n buf"
  by (simp add: take_overwrite_before length_enc)

lemma drop_over_after:
  "off + sz \<le> n \<Longrightarrow> off + sz \<le> length buf \<Longrightarrow> drop n (overwrite buf off (enc h)) = drop n buf"
  by (simp add: drop_overwrite_after length_enc)

lemma ld_over_before:
  "k + n \<le> off \<Longrightarrow> off + sz \<le> length buf \<Longrightarrow>
   ld dec' n (overwrite buf off (enc h)) k = ld dec' n buf k"
  by (simp add: ld_def load_def length_enc slice_overwrite_before)

lemma ld_over_after:
  "off + sz \<le> k \<Longrightarrow> off + sz \<le> length buf \<Longrightarrow>
   ld dec' n (overwrite buf off (enc h)) k = ld dec' n buf k"
  by (simp add: ld_def load_def length_enc slice_overwrite_after)

lemmas struct_mem = ld_in_bounds st_in_bounds length_over ld_over_same slice_over_same over_over
  take_over_before drop_over_after ld_over_before ld_over_after

end

section \<open>MAC addresses and the Ethernet header\<close>

text \<open>A \<^verbatim>\<open>uint8_t[ETHER_ADDR_LEN]\<close> array, by its six bytes.\<close>

datatype mac = MAC u8 u8 u8 u8 u8 u8

fun mac_bytes :: "mac \<Rightarrow> u8 list" where
  "mac_bytes (MAC a b c d e f) = [a, b, c, d, e, f]"

definition bytes_mac :: "u8 list \<Rightarrow> mac" where
  "bytes_mac bs = MAC (bs ! 0) (bs ! 1) (bs ! 2) (bs ! 3) (bs ! 4) (bs ! 5)"

definition broadcast :: mac where
  "broadcast = MAC 0xff 0xff 0xff 0xff 0xff 0xff"

lemma length_mac_bytes [simp]: "length (mac_bytes m) = 6"
  by (cases m) simp

lemma bytes_mac_bytes [wire]: "bytes_mac (mac_bytes m) = m"
  by (cases m) (simp add: bytes_mac_def)

lemma mac_bytes_inj: "mac_bytes m = mac_bytes m' \<longleftrightarrow> m = m'"
  by (metis bytes_mac_bytes)

record sr_ethernet_hdr =
  ether_dhost :: mac
  ether_shost :: mac
  ether_type :: u16

definition enc_eth :: "sr_ethernet_hdr \<Rightarrow> u8 list" where
  "enc_eth h = mac_bytes (ether_dhost h) @ mac_bytes (ether_shost h) @ bytes16 (ether_type h)"

definition dec_eth :: "u8 list \<Rightarrow> sr_ethernet_hdr" where
  "dec_eth bs =
     \<lparr>ether_dhost = MAC (bs ! 0) (bs ! 1) (bs ! 2) (bs ! 3) (bs ! 4) (bs ! 5),
      ether_shost = MAC (bs ! 6) (bs ! 7) (bs ! 8) (bs ! 9) (bs ! 10) (bs ! 11),
      ether_type = le16 (bs ! 12) (bs ! 13)\<rparr>"

section \<open>The IPv4 header\<close>

text \<open>On the little-endian host the bit field \<^verbatim>\<open>ip_hl\<close> is the low nibble of byte 0.\<close>

record sr_ip_hdr =
  ip_hl :: "4 word"
  ip_v :: "4 word"
  ip_tos :: u8
  ip_len :: u16
  ip_id :: u16
  ip_off :: u16
  ip_ttl :: u8
  ip_p :: u8
  ip_sum :: u16
  ip_src :: u32
  ip_dst :: u32

definition enc_ip :: "sr_ip_hdr \<Rightarrow> u8 list" where
  "enc_ip h =
     [ucast (ip_hl h) OR push_bit 4 (ucast (ip_v h)), ip_tos h] @ bytes16 (ip_len h) @
     bytes16 (ip_id h) @ bytes16 (ip_off h) @ [ip_ttl h, ip_p h] @ bytes16 (ip_sum h) @
     bytes32 (ip_src h) @ bytes32 (ip_dst h)"

definition dec_ip :: "u8 list \<Rightarrow> sr_ip_hdr" where
  "dec_ip bs =
     \<lparr>ip_hl = ucast (bs ! 0), ip_v = ucast (drop_bit 4 (bs ! 0)), ip_tos = bs ! 1,
      ip_len = le16 (bs ! 2) (bs ! 3), ip_id = le16 (bs ! 4) (bs ! 5),
      ip_off = le16 (bs ! 6) (bs ! 7), ip_ttl = bs ! 8, ip_p = bs ! 9,
      ip_sum = le16 (bs ! 10) (bs ! 11),
      ip_src = le32 (bs ! 12) (bs ! 13) (bs ! 14) (bs ! 15),
      ip_dst = le32 (bs ! 16) (bs ! 17) (bs ! 18) (bs ! 19)\<rparr>"

section \<open>The ARP header\<close>

record sr_arp_hdr =
  ar_hrd :: u16
  ar_pro :: u16
  ar_hln :: u8
  ar_pln :: u8
  ar_op :: u16
  ar_sha :: mac
  ar_sip :: u32
  ar_tha :: mac
  ar_tip :: u32

definition enc_arp :: "sr_arp_hdr \<Rightarrow> u8 list" where
  "enc_arp h =
     bytes16 (ar_hrd h) @ bytes16 (ar_pro h) @ [ar_hln h, ar_pln h] @ bytes16 (ar_op h) @
     mac_bytes (ar_sha h) @ bytes32 (ar_sip h) @ mac_bytes (ar_tha h) @ bytes32 (ar_tip h)"

definition dec_arp :: "u8 list \<Rightarrow> sr_arp_hdr" where
  "dec_arp bs =
     \<lparr>ar_hrd = le16 (bs ! 0) (bs ! 1), ar_pro = le16 (bs ! 2) (bs ! 3),
      ar_hln = bs ! 4, ar_pln = bs ! 5, ar_op = le16 (bs ! 6) (bs ! 7),
      ar_sha = MAC (bs ! 8) (bs ! 9) (bs ! 10) (bs ! 11) (bs ! 12) (bs ! 13),
      ar_sip = le32 (bs ! 14) (bs ! 15) (bs ! 16) (bs ! 17),
      ar_tha = MAC (bs ! 18) (bs ! 19) (bs ! 20) (bs ! 21) (bs ! 22) (bs ! 23),
      ar_tip = le32 (bs ! 24) (bs ! 25) (bs ! 26) (bs ! 27)\<rparr>"

section \<open>The ICMP headers\<close>

text \<open>
  The echo header, and the header of an error message with the first bytes of the packet
  it is about: \<open>icmp_data\<close> is the array \<^verbatim>\<open>uint8_t data[ICMP_DATA_SIZE]\<close>.
\<close>

record sr_icmp_t08_hdr =
  icmp08_type :: u8
  icmp08_code :: u8
  icmp08_sum :: u16
  icmp08_id :: u16
  icmp08_seq :: u16

definition enc_icmp08 :: "sr_icmp_t08_hdr \<Rightarrow> u8 list" where
  "enc_icmp08 h =
     [icmp08_type h, icmp08_code h] @ bytes16 (icmp08_sum h) @ bytes16 (icmp08_id h) @
     bytes16 (icmp08_seq h)"

definition dec_icmp08 :: "u8 list \<Rightarrow> sr_icmp_t08_hdr" where
  "dec_icmp08 bs =
     \<lparr>icmp08_type = bs ! 0, icmp08_code = bs ! 1, icmp08_sum = le16 (bs ! 2) (bs ! 3),
      icmp08_id = le16 (bs ! 4) (bs ! 5), icmp08_seq = le16 (bs ! 6) (bs ! 7)\<rparr>"

text \<open>The fixed part of \<^verbatim>\<open>sr_icmp_t11_hdr\<close>; \<open>icmp_data\<close> follows it at offset 8.\<close>

record sr_icmp_t11_hdr =
  icmp_type :: u8
  icmp_code :: u8
  icmp_sum :: u16
  icmp_unused :: u32

definition enc_icmp11 :: "sr_icmp_t11_hdr \<Rightarrow> u8 list" where
  "enc_icmp11 h = [icmp_type h, icmp_code h] @ bytes16 (icmp_sum h) @ bytes32 (icmp_unused h)"

definition dec_icmp11 :: "u8 list \<Rightarrow> sr_icmp_t11_hdr" where
  "dec_icmp11 bs =
     \<lparr>icmp_type = bs ! 0, icmp_code = bs ! 1, icmp_sum = le16 (bs ! 2) (bs ! 3),
      icmp_unused = le32 (bs ! 4) (bs ! 5) (bs ! 6) (bs ! 7)\<rparr>"

section \<open>The structures meet the contract\<close>

lemma nibble_low [wire]: "ucast (ucast (a :: 4 word) OR push_bit 4 (ucast (b :: 4 word)) :: u8) = a"
  by (rule bit_word_eqI) (auto simp: bit_simps)

lemma nibble_high [wire]:
  "ucast (drop_bit 4 (ucast (a :: 4 word) :: u8) OR drop_bit 4 (push_bit 4 (ucast (b :: 4 word)))) = b"
  by (rule bit_word_eqI) (auto simp: bit_simps dest: bit_imp_le_length)

lemma nibble_bytes [wire]:
  "ucast (ucast x :: 4 word) OR push_bit 4 (ucast (ucast (drop_bit 4 x) :: 4 word)) = (x :: u8)"
  by (rule bit_word_eqI) (auto simp: bit_simps)

text \<open>A list of known length, element by element.\<close>

lemma list_by_nthI:
  assumes "length bs = n" and "2 \<le> n" and "xs = bs ! 0 # bs ! 1 # map ((!) bs) [2..<n]"
  shows "xs = bs"
proof -
  have "[0..<n] = 0 # 1 # [2..<n]"
    using assms(2) by (simp add: upt_conv_Cons numeral_2_eq_2)
  with assms(3) have "xs = map ((!) bs) [0..<n]" by simp
  with assms(1) show ?thesis using map_nth [of bs] by simp
qed

interpretation eth: wire_struct enc_eth dec_eth 14
proof unfold_locales
  fix h :: sr_ethernet_hdr
  obtain a b c d e f where "ether_dhost h = MAC a b c d e f" by (cases "ether_dhost h") auto
  moreover obtain a b c d e f where "ether_shost h = MAC a b c d e f"
    by (cases "ether_shost h") auto
  ultimately show "dec_eth (enc_eth h) = h"
    by (simp add: enc_eth_def dec_eth_def bytes16_def wire)
next
  fix bs :: "u8 list" assume "length bs = 14"
  then show "enc_eth (dec_eth bs) = bs"
    by (rule list_by_nthI) (simp_all add: enc_eth_def dec_eth_def bytes16_def wire)
qed (simp add: enc_eth_def)

interpretation iph: wire_struct enc_ip dec_ip 20
proof unfold_locales
  fix h :: sr_ip_hdr
  show "dec_ip (enc_ip h) = h"
    by (simp add: enc_ip_def dec_ip_def bytes16_def bytes32_def wire)
next
  fix bs :: "u8 list" assume "length bs = 20"
  then show "enc_ip (dec_ip bs) = bs"
    by (rule list_by_nthI) (simp_all add: enc_ip_def dec_ip_def bytes16_def bytes32_def wire)
qed (simp add: enc_ip_def)

interpretation arp: wire_struct enc_arp dec_arp 28
proof unfold_locales
  fix h :: sr_arp_hdr
  obtain a b c d e f where "ar_sha h = MAC a b c d e f" by (cases "ar_sha h") auto
  moreover obtain a b c d e f where "ar_tha h = MAC a b c d e f" by (cases "ar_tha h") auto
  ultimately show "dec_arp (enc_arp h) = h"
    by (simp add: enc_arp_def dec_arp_def bytes16_def bytes32_def wire)
next
  fix bs :: "u8 list" assume "length bs = 28"
  then show "enc_arp (dec_arp bs) = bs"
    by (rule list_by_nthI) (simp_all add: enc_arp_def dec_arp_def bytes16_def bytes32_def wire)
qed (simp add: enc_arp_def)

interpretation icmp08: wire_struct enc_icmp08 dec_icmp08 8
proof unfold_locales
  fix h :: sr_icmp_t08_hdr
  show "dec_icmp08 (enc_icmp08 h) = h"
    by (simp add: enc_icmp08_def dec_icmp08_def bytes16_def wire)
next
  fix bs :: "u8 list" assume "length bs = 8"
  then show "enc_icmp08 (dec_icmp08 bs) = bs"
    by (rule list_by_nthI) (simp_all add: enc_icmp08_def dec_icmp08_def bytes16_def wire)
qed (simp add: enc_icmp08_def)

interpretation icmp11: wire_struct enc_icmp11 dec_icmp11 8
proof unfold_locales
  fix h :: sr_icmp_t11_hdr
  show "dec_icmp11 (enc_icmp11 h) = h"
    by (simp add: enc_icmp11_def dec_icmp11_def bytes16_def bytes32_def wire)
next
  fix bs :: "u8 list" assume "length bs = 8"
  then show "enc_icmp11 (dec_icmp11 bs) = bs"
    by (rule list_by_nthI) (simp_all add: enc_icmp11_def dec_icmp11_def bytes16_def bytes32_def wire)
qed (simp add: enc_icmp11_def)

lemmas structs_mem = eth.struct_mem iph.struct_mem arp.struct_mem icmp08.struct_mem
  icmp11.struct_mem

abbreviation ld_eth :: "u8 list \<Rightarrow> nat \<Rightarrow> sr_ethernet_hdr option" where
  "ld_eth \<equiv> ld dec_eth 14"
abbreviation st_eth :: "u8 list \<Rightarrow> nat \<Rightarrow> sr_ethernet_hdr \<Rightarrow> u8 list option" where
  "st_eth \<equiv> st enc_eth"
abbreviation ld_ip :: "u8 list \<Rightarrow> nat \<Rightarrow> sr_ip_hdr option" where
  "ld_ip \<equiv> ld dec_ip 20"
abbreviation st_ip :: "u8 list \<Rightarrow> nat \<Rightarrow> sr_ip_hdr \<Rightarrow> u8 list option" where
  "st_ip \<equiv> st enc_ip"
abbreviation ld_arp :: "u8 list \<Rightarrow> nat \<Rightarrow> sr_arp_hdr option" where
  "ld_arp \<equiv> ld dec_arp 28"
abbreviation st_arp :: "u8 list \<Rightarrow> nat \<Rightarrow> sr_arp_hdr \<Rightarrow> u8 list option" where
  "st_arp \<equiv> st enc_arp"
abbreviation ld_icmp08 :: "u8 list \<Rightarrow> nat \<Rightarrow> sr_icmp_t08_hdr option" where
  "ld_icmp08 \<equiv> ld dec_icmp08 8"
abbreviation st_icmp08 :: "u8 list \<Rightarrow> nat \<Rightarrow> sr_icmp_t08_hdr \<Rightarrow> u8 list option" where
  "st_icmp08 \<equiv> st enc_icmp08"

end
