(* ===== verification/Utils.thy ===== *)
theory Utils
  imports Protocol
begin

text \<open>
  The checksum and header accessors of \<^verbatim>\<open>src/sr_utils.c\<close>, and the arithmetic meaning of
  the checksum: the Internet checksum of RFC 1071, as a congruence modulo \<open>2^16 - 1\<close>.
\<close>

section \<open>cksum\<close>

text \<open>The summing loop over big-endian 16-bit words, an odd last byte counted as a high byte.\<close>

fun cksum_loop :: "u8 list \<Rightarrow> u32 \<Rightarrow> u32" where
  "cksum_loop (a # b # data) acc = cksum_loop data (acc + (push_bit 8 (ucast a) OR ucast b))"
| "cksum_loop [a] acc = acc + push_bit 8 (ucast a)"
| "cksum_loop [] acc = acc"

lemma unat_cksum_step:
  "unat (drop_bit 16 (s :: u32) + (s AND 0xffff)) = unat s div 65536 + unat s mod 65536"
proof -
  have m: "(s AND 0xffff) = take_bit 16 s"
    by (simp add: take_bit_eq_mask mask_eq_exp_minus_1)
  have "unat (drop_bit 16 s) = unat s div 65536"
    using unat_drop_bit_eq [of 16 s] by (simp only: drop_bit_eq_div) simp
  moreover have "unat (s AND 0xffff) = unat s mod 65536"
    unfolding m using unsigned_take_bit_eq [of 16 s, where ?'a = nat]
    by (simp only: take_bit_eq_mod) simp
  moreover have "unat s div 65536 + unat s mod 65536 < 2 ^ 32"
    using unsigned_less [of s, where ?'a = nat] by simp
  ultimately show ?thesis by (simp add: unat_word_ariths)
qed

lemma cksum_step_decreases:
  assumes "0xffff < (s :: u32)"
  shows "unat (drop_bit 16 s + (s AND 0xffff)) < unat s"
proof -
  have "65535 < unat s" using assms by (simp add: word_less_nat_alt)
  moreover have "unat s = 65536 * (unat s div 65536) + unat s mod 65536" by simp
  ultimately show ?thesis unfolding unat_cksum_step by linarith
qed

text \<open>The folding loop \<^verbatim>\<open>while (sum > 0xffff)\<close>; every round makes the sum smaller.\<close>

function cksum_fold :: "u32 \<Rightarrow> u32" where
  "cksum_fold acc =
     (if acc > 0xffff then cksum_fold (drop_bit 16 acc + (acc AND 0xffff)) else acc)"
  by pat_completeness auto
termination
  by (relation "measure unat") (simp_all add: cksum_step_decreases)

declare cksum_fold.simps [simp del]

definition cksum :: "u8 list \<Rightarrow> u16" where
  "cksum data =
     (let acc = htons (ucast (NOT (cksum_fold (cksum_loop data 0))))
      in if acc \<noteq> 0 then acc else 0xffff)"

text \<open>\<^verbatim>\<open>cksum(p, len)\<close> on a pointer into a buffer.\<close>

definition cksum_at :: "u8 list \<Rightarrow> nat \<Rightarrow> nat \<Rightarrow> u16 option" where
  "cksum_at buf off len = map_option cksum (load buf off len)"

lemma cksum_at_in_bounds [mem]:
  "off + len \<le> length buf \<Longrightarrow> cksum_at buf off len = Some (cksum (take len (drop off buf)))"
  by (simp add: cksum_at_def load_in_bounds)

section \<open>Header accessors\<close>

definition ethertype :: "u8 list \<Rightarrow> u16 option" where
  "ethertype buf = map_option (\<lambda>ehdr. ntohs (ether_type ehdr)) (ld_eth buf 0)"

definition ip_protocol :: "u8 list \<Rightarrow> u8 option" where
  "ip_protocol buf = map_option ip_p (ld_ip buf 0)"

section \<open>What the checksum computes\<close>

text \<open>The sum of the data as big-endian 16-bit words, without bound.\<close>

fun word_sum :: "u8 list \<Rightarrow> nat" where
  "word_sum (a # b # data) = 256 * unat a + unat b + word_sum data"
| "word_sum [a] = 256 * unat a"
| "word_sum [] = 0"

lemma unat_be16: "unat (push_bit 8 (ucast (a :: u8)) OR ucast (b :: u8) :: u32) = 256 * unat a + unat b"
proof -
  have "(push_bit 8 (ucast a) OR ucast b :: u32) = push_bit 8 (ucast a) + ucast b"
    by (rule disjunctive_add_eq_or [symmetric], rule bit_word_eqI)
      (auto simp: bit_simps dest: bit_imp_le_length)
  then show ?thesis
    using unsigned_less [of a, where ?'a = nat] unsigned_less [of b, where ?'a = nat]
    by (simp add: push_bit_eq_mult unat_word_ariths unsigned_ucast_eq take_bit_eq_mod)
qed

lemma unat_hi8: "unat (push_bit 8 (ucast (a :: u8)) :: u32) = 256 * unat a"
  using unat_be16 [of a 0] by simp

lemma cksum_loop_unat:
  "unat (cksum_loop data s) = (unat s + word_sum data) mod 2 ^ 32"
proof (induction data s rule: cksum_loop.induct)
  case (1 a b data s)
  then show ?case by (simp add: unat_word_ariths unat_be16 mod_add_left_eq add.assoc)
next
  case (2 a s)
  then show ?case by (simp add: unat_word_ariths unat_hi8)
next
  case (3 s)
  then show ?case using unsigned_less [of s, where ?'a = nat] by simp
qed

lemma word_sum_bound: "word_sum data \<le> 65535 * ((length data + 1) div 2)"
proof (induction data rule: word_sum.induct)
  case (1 a b data)
  then show ?case
    using unsigned_less [of a, where ?'a = nat] unsigned_less [of b, where ?'a = nat] by simp
next
  case (2 a)
  then show ?case using unsigned_less [of a, where ?'a = nat] by simp
qed simp

lemma cksum_loop_exact:
  assumes "length data \<le> 131072"
  shows "unat (cksum_loop data 0) = word_sum data"
proof -
  have "(length data + 1) div 2 \<le> 65536" using assms by linarith
  then have "65535 * ((length data + 1) div 2) \<le> 65535 * 65536" by linarith
  with word_sum_bound [of data] have "word_sum data < 2 ^ 32" by simp
  then show ?thesis by (simp add: cksum_loop_unat)
qed

lemma cksum_fold_small: "s \<le> 0xffff \<Longrightarrow> cksum_fold s = s"
  by (subst cksum_fold.simps) (simp only: if_not_P not_less)

lemma cksum_fold_big:
  "0xffff < s \<Longrightarrow> cksum_fold s = cksum_fold (drop_bit 16 s + (s AND 0xffff))"
  by (subst cksum_fold.simps) (simp only: if_P)

lemma cksum_fold_le: "unat (cksum_fold s) \<le> 65535"
proof (induction s rule: cksum_fold.induct)
  case (1 s)
  show ?case
  proof (cases "0xffff < s")
    case True
    with 1 show ?thesis by (simp only: cksum_fold_big)
  next
    case False
    then show ?thesis by (simp add: cksum_fold_small not_less word_le_nat_alt)
  qed
qed

lemma fold_mod: "(n div 65536 + n mod 65536) mod 65535 = (n :: nat) mod 65535"
proof -
  have "n = (n div 65536 + n mod 65536) + 65535 * (n div 65536)" by simp
  then show ?thesis by (metis mod_mult_self2)
qed

lemma cksum_fold_mod: "unat (cksum_fold s) mod 65535 = unat s mod 65535"
proof (induction s rule: cksum_fold.induct)
  case (1 s)
  show ?case
  proof (cases "0xffff < s")
    case True
    with 1 show ?thesis by (simp only: cksum_fold_big unat_cksum_step fold_mod)
  next
    case False
    then show ?thesis by (simp only: cksum_fold_small not_less)
  qed
qed

lemma cksum_fold_0_iff: "cksum_fold s = 0 \<longleftrightarrow> s = 0"
proof (induction s rule: cksum_fold.induct)
  case (1 s)
  show ?case
  proof (cases "0xffff < s")
    case True
    then have "65535 < unat s" by (simp add: word_less_nat_alt)
    moreover have "unat s = 65536 * (unat s div 65536) + unat s mod 65536" by simp
    ultimately have "unat s div 65536 + unat s mod 65536 \<noteq> 0" by linarith
    then have "drop_bit 16 s + (s AND 0xffff) \<noteq> 0" by (metis unat_0 unat_cksum_step)
    moreover have "s \<noteq> 0" using True by auto
    ultimately show ?thesis using 1 True by (simp only: cksum_fold_big)
  next
    case False
    then show ?thesis by (simp only: cksum_fold_small not_less)
  qed
qed

text \<open>The ones' complement sum of RFC 1071, in closed form.\<close>

lemma residue_1_to_m:
  fixes m n r :: nat
  assumes "0 < r" and "r \<le> m" and "r mod m = n mod m" and "0 < n"
  shows "r = (n - 1) mod m + 1"
proof -
  have "(n - 1) mod m = (r - 1) mod m"
    using assms by (metis Suc_pred mod_Suc diff_Suc_1 nat.inject Zero_not_Suc)
  with assms show ?thesis by simp
qed

lemma cksum_fold_closed:
  "unat (cksum_fold s) = (if s = 0 then 0 else (unat s - 1) mod 65535 + 1)"
proof (cases "s = 0")
  case True
  then show ?thesis using cksum_fold_0_iff [of s] by simp
next
  case False
  then have "0 < unat s" and "0 < unat (cksum_fold s)"
    by (simp_all add: unat_gt_0 cksum_fold_0_iff)
  with False residue_1_to_m [OF _ cksum_fold_le cksum_fold_mod] show ?thesis by simp
qed

lemma unat_not16: "unat (ucast (NOT s) :: u16) = 65535 - unat (ucast (s :: u32) :: u16)"
proof -
  have "ucast (NOT s) = NOT (ucast s :: u16)"
    by (rule bit_word_eqI) (simp add: bit_simps)
  also have "\<dots> = - 1 - ucast s" by (simp add: not_eq_complement)
  finally have "ucast (NOT s) = - 1 - (ucast s :: u16)" .
  moreover have "unat (- 1 :: u16) = 65535" by (simp add: unsigned_minus_1_eq_mask mask_eq_exp_minus_1)
  moreover have "unat (ucast s :: u16) \<le> 65535"
    using unsigned_less [of "ucast s :: u16", where ?'a = nat] by simp
  ultimately show ?thesis by (simp add: unat_sub_if_size)
qed

lemma cksum_nonzero: "cksum data \<noteq> 0"
  by (simp add: cksum_def Let_def)

text \<open>
  The checksum value read in network byte order: the ones' complement of the folded sum,
  except that 0 is sent as \<open>0xffff\<close>.
\<close>

lemma ntohs_cksum:
  "unat (ntohs (cksum data)) =
     (let f = unat (cksum_fold (cksum_loop data 0)) in if f = 65535 then 65535 else 65535 - f)"
proof -
  let ?f = "cksum_fold (cksum_loop data 0)"
  have f: "unat ?f \<le> 65535" by (rule cksum_fold_le)
  have u: "unat (ucast ?f :: u16) = unat ?f"
    using f by (simp add: unsigned_ucast_eq take_bit_eq_mod)
  have z: "(ucast (NOT ?f) :: u16) = 0 \<longleftrightarrow> unat ?f = 65535"
    using f by (simp add: unat_eq_0 [symmetric] unat_not16 u)
  have "htons (0xffff :: u16) = 0xffff" by (simp add: htons_def le16_def)
  then show ?thesis
    by (auto simp: cksum_def Let_def z unat_not16 u)
qed

text \<open>Adding the checksum to the data it was computed over gives 0 modulo \<open>2^16 - 1\<close>.\<close>

lemma cksum_complements:
  assumes "length data \<le> 131072"
  shows "(word_sum data + unat (ntohs (cksum data))) mod 65535 = 0"
proof -
  let ?f = "unat (cksum_fold (cksum_loop data 0))"
  have "?f mod 65535 = word_sum data mod 65535"
    by (simp add: cksum_fold_mod cksum_loop_exact [OF assms])
  then have "(word_sum data + unat (ntohs (cksum data))) mod 65535 =
      (?f + unat (ntohs (cksum data))) mod 65535"
    by (metis mod_add_left_eq)
  also have "\<dots> = 0"
    using cksum_fold_le [of "cksum_loop data 0"] by (auto simp: ntohs_cksum Let_def)
  finally show ?thesis .
qed

text \<open>Conversely, no other non-zero value does: the checksum is determined by that equation.\<close>

lemma cksum_eq_iff:
  assumes "length data \<le> 131072"
  shows "x = cksum data \<longleftrightarrow> x \<noteq> 0 \<and> (word_sum data + unat (ntohs x)) mod 65535 = 0"
proof
  show "x \<noteq> 0 \<and> (word_sum data + unat (ntohs x)) mod 65535 = 0" if "x = cksum data"
    using that cksum_nonzero cksum_complements [OF assms] by simp
next
  assume x: "x \<noteq> 0 \<and> (word_sum data + unat (ntohs x)) mod 65535 = 0"
  let ?a = "unat (ntohs x)" and ?c = "unat (ntohs (cksum data))"
  have pos: "0 < ?a" "0 < ?c" using x cksum_nonzero by (simp_all add: unat_gt_0)
  have le: "?a \<le> 65535" "?c \<le> 65535"
    using unsigned_less [of "ntohs x", where ?'a = nat]
      unsigned_less [of "ntohs (cksum data)", where ?'a = nat] by simp_all
  have "65535 dvd word_sum data + ?a" "65535 dvd word_sum data + ?c"
    using x cksum_complements [OF assms] by (simp_all add: mod_eq_0_iff_dvd)
  then have "65535 dvd int ?a - int ?c"
    by (metis (no_types, opaque_lifting) add_diff_cancel_left dvd_diff int_dvd_int_iff of_nat_add
        of_nat_numeral)
  moreover have "\<bar>int ?a - int ?c\<bar> < 65535" using pos le by linarith
  ultimately have "int ?a - int ?c = 0"
    using dvd_imp_le_int [of "int ?a - int ?c" 65535] by linarith
  then have "?a = ?c" by linarith
  then show "x = cksum data" by (metis order16.swap_inj unsigned_word_eqI)
qed

section \<open>Filling in a checksum field\<close>

lemma word_sum_append:
  "even (length xs) \<Longrightarrow> word_sum (xs @ ys) = word_sum xs + word_sum ys"
  by (induction xs rule: word_sum.induct) auto

lemma word_sum_field: "word_sum (bytes16 x) = unat (ntohs x)"
  by (simp add: bytes16_def htons_def unat_le16)

lemma word_sum_overwrite16:
  assumes "even off" and "off + 2 \<le> length buf"
  shows "word_sum (overwrite buf off (bytes16 x)) + unat (ntohs y) =
         word_sum (overwrite buf off (bytes16 y)) + unat (ntohs x)"
  using assms by (simp add: overwrite_def word_sum_append word_sum_field)

end
