(* ===== verification/State.thy ===== *)
theory State
  imports Utils
begin

text \<open>
  The data of one router: the structures of \<^verbatim>\<open>src/sr_if.h\<close>, \<^verbatim>\<open>src/sr_rt.h\<close>,
  \<^verbatim>\<open>src/sr_arpcache.h\<close> and \<^verbatim>\<open>struct sr_instance\<close> of \<^verbatim>\<open>src/sr_router.h\<close>. A list linked
  by \<open>next\<close> pointers is the list of its nodes in link order. An ARP request is named by
  other code through its address, so it carries one (\<open>req_self\<close>); the cache hands out
  fresh addresses from \<open>next_addr\<close>. An address is never handed out again: a pointer to a request that
  has been destroyed stays invalid, as in the C standard, whatever \<^verbatim>\<open>calloc\<close> does with the memory.
\<close>

record sr_if =
  if_name :: cstring
  if_addr :: mac
  if_ip :: u32
  if_speed :: u32

record sr_rt =
  rt_dest :: u32
  rt_gw :: u32
  rt_mask :: u32
  rt_interface :: cstring

record sr_packet =
  pkt_buf :: "u8 list"
  pkt_len :: nat
  pkt_iface :: cstring

record sr_arpentry =
  ent_mac :: mac
  ent_ip :: u32
  ent_added :: time
  ent_valid :: bool

record sr_arpreq =
  req_self :: nat
  req_ip :: u32
  req_sent :: time
  req_times_sent :: u32
  req_packets :: "sr_packet list"

record sr_arpcache =
  entries :: "sr_arpentry list"
  requests :: "sr_arpreq list"
  next_addr :: nat

text \<open>
  \<open>logfile\<close> is what has been written to the dump file, \<open>None\<close> when none is open;
  \<open>sock_out\<close> is the sequence of buffers handed to the server socket.
\<close>

record sr_instance =
  sockfd :: int
  user :: cstring
  host :: cstring
  template :: cstring
  topo_id :: u16
  if_list :: "sr_if list"
  routing_table :: "sr_rt list"
  cache :: sr_arpcache
  logfile :: "u8 list option"
  sock_out :: "u8 list list"

text \<open>
  What the operating system answers while one packet is handled or one timer tick runs:
  the clock (\<^verbatim>\<open>time\<close> and \<^verbatim>\<open>gettimeofday\<close>), whether \<^verbatim>\<open>malloc\<close> of a given size succeeds,
  and what \<^verbatim>\<open>write\<close> of a given number of bytes returns.
\<close>

record env =
  now :: time
  tod :: "int \<times> int"
  malloc_ok :: "nat \<Rightarrow> bool"
  write_ret :: "nat \<Rightarrow> int"

text \<open>An environment in which no allocation and no write fails.\<close>

definition env_ok :: "env \<Rightarrow> bool" where
  "env_ok e \<longleftrightarrow> malloc_ok e = (\<lambda>_. True) \<and> write_ret e = int"

lemma env_okD [simp]:
  "env_ok e \<Longrightarrow> malloc_ok e n" "env_ok e \<Longrightarrow> write_ret e n = int n"
  by (simp_all add: env_ok_def)

definition SR_ARPCACHE_SZ :: nat where "SR_ARPCACHE_SZ = 100"
definition SR_ARPCACHE_TO :: time where "SR_ARPCACHE_TO = 15"
definition INIT_TTL :: u8 where "INIT_TTL = 255"
definition PACKET_DUMP_SIZE :: nat where "PACKET_DUMP_SIZE = 1024"

end
