(* ===== verification/Interfaces.thy ===== *)
theory Interfaces
  imports State
begin

text \<open>
  The interface list of \<^verbatim>\<open>src/sr_if.c\<close> and the walks over it in \<^verbatim>\<open>src/sr_router.c\<close>. An
  \<^verbatim>\<open>assert\<close> that fails is \<open>None\<close>. \<open>junk\<close> is what \<^verbatim>\<open>malloc\<close> left in the new node: the code
  sets only its name.
\<close>

section \<open>Operations\<close>

fun get_interface_walk :: "sr_if list \<Rightarrow> cstring \<Rightarrow> sr_if option" where
  "get_interface_walk [] name = None"
| "get_interface_walk (i # rest) name =
     (if strncmp (if_name i) name sr_IFACE_NAMELEN = 0 then Some i
      else get_interface_walk rest name)"

definition sr_get_interface :: "sr_instance \<Rightarrow> cstring \<Rightarrow> sr_if option" where
  "sr_get_interface sr name = get_interface_walk (if_list sr) name"

text \<open>Appending at the end of the list, and changing its last node, as the walkers do.\<close>

fun append_node :: "'a list \<Rightarrow> 'a \<Rightarrow> 'a list" where
  "append_node [] x = [x]"
| "append_node (y # ys) x = y # append_node ys x"

fun update_last :: "('a \<Rightarrow> 'a) \<Rightarrow> 'a list \<Rightarrow> 'a list option" where
  "update_last f [] = None"
| "update_last f [x] = Some [f x]"
| "update_last f (x # y # ys) = map_option ((#) x) (update_last f (y # ys))"

definition sizeof_sr_if :: nat where "sizeof_sr_if = 56"

definition sr_add_interface ::
  "env \<Rightarrow> sr_if \<Rightarrow> sr_instance \<Rightarrow> cstring \<Rightarrow> sr_instance option" where
  "sr_add_interface e junk sr name =
     (if \<not> malloc_ok e sizeof_sr_if then None
      else Some (sr\<lparr>if_list :=
             append_node (if_list sr) (junk\<lparr>if_name := strncpy sr_IFACE_NAMELEN name\<rparr>)\<rparr>))"

definition sr_set_ether_addr :: "sr_instance \<Rightarrow> mac \<Rightarrow> sr_instance option" where
  "sr_set_ether_addr sr addr =
     map_option (\<lambda>l. sr\<lparr>if_list := l\<rparr>) (update_last (\<lambda>i. i\<lparr>if_addr := addr\<rparr>) (if_list sr))"

definition sr_set_ether_ip :: "sr_instance \<Rightarrow> u32 \<Rightarrow> sr_instance option" where
  "sr_set_ether_ip sr ip_nbo =
     map_option (\<lambda>l. sr\<lparr>if_list := l\<rparr>) (update_last (\<lambda>i. i\<lparr>if_ip := ip_nbo\<rparr>) (if_list sr))"

fun router_ip_walk :: "sr_if list \<Rightarrow> u32 \<Rightarrow> bool" where
  "router_ip_walk [] ip = False"
| "router_ip_walk (i # rest) ip = (if if_ip i = ip then True else router_ip_walk rest ip)"

definition sr_is_router_ip :: "sr_instance \<Rightarrow> u32 \<Rightarrow> bool" where
  "sr_is_router_ip sr ip = router_ip_walk (if_list sr) ip"

fun iface_by_mac_walk :: "sr_if list \<Rightarrow> mac \<Rightarrow> sr_if option" where
  "iface_by_mac_walk [] m = None"
| "iface_by_mac_walk (i # rest) m = (if if_addr i = m then Some i else iface_by_mac_walk rest m)"

definition sr_find_iface_by_mac :: "sr_instance \<Rightarrow> mac \<Rightarrow> sr_if option" where
  "sr_find_iface_by_mac sr m = iface_by_mac_walk (if_list sr) m"

section \<open>The walks as searches\<close>

lemma get_interface_walk_find:
  "get_interface_walk l name = find (\<lambda>i. strncmp (if_name i) name sr_IFACE_NAMELEN = 0) l"
  by (induction l) auto

lemma iface_by_mac_walk_find: "iface_by_mac_walk l m = find (\<lambda>i. if_addr i = m) l"
  by (induction l) auto

lemma sr_is_router_ip_iff: "sr_is_router_ip sr ip \<longleftrightarrow> (\<exists>i \<in> set (if_list sr). if_ip i = ip)"
proof -
  have "router_ip_walk l ip \<longleftrightarrow> (\<exists>i \<in> set l. if_ip i = ip)" for l
    by (induction l) auto
  then show ?thesis by (simp add: sr_is_router_ip_def)
qed

lemma sr_get_interface_Some:
  assumes "sr_get_interface sr name = Some i"
  shows "i \<in> set (if_list sr)" and "strncmp (if_name i) name sr_IFACE_NAMELEN = 0"
  using assms by (auto simp: sr_get_interface_def get_interface_walk_find find_Some_iff)

lemma sr_find_iface_by_mac_Some:
  "sr_find_iface_by_mac sr m = Some i \<Longrightarrow> i \<in> set (if_list sr) \<and> if_addr i = m"
  by (auto simp: sr_find_iface_by_mac_def iface_by_mac_walk_find find_Some_iff)

lemma append_node_eq [simp]: "append_node l x = l @ [x]"
  by (induction l) auto

lemma update_last_eq: "update_last f l = (if l = [] then None else Some (butlast l @ [f (last l)]))"
  by (induction f l rule: update_last.induct) auto

text \<open>Nothing outside the interface list matters to the lookups.\<close>

lemma sr_get_interface_cong:
  "if_list sr = if_list sr' \<Longrightarrow> sr_get_interface sr name = sr_get_interface sr' name"
  by (simp add: sr_get_interface_def)

lemma lookups_update [simp]:
  "sr_get_interface (sr\<lparr>cache := c\<rparr>) name = sr_get_interface sr name"
  "sr_get_interface (sr\<lparr>sock_out := out\<rparr>) name = sr_get_interface sr name"
  "sr_get_interface (sr\<lparr>logfile := lf\<rparr>) name = sr_get_interface sr name"
  "sr_is_router_ip (sr\<lparr>cache := c\<rparr>) ip = sr_is_router_ip sr ip"
  "sr_is_router_ip (sr\<lparr>sock_out := out\<rparr>) ip = sr_is_router_ip sr ip"
  "sr_is_router_ip (sr\<lparr>logfile := lf\<rparr>) ip = sr_is_router_ip sr ip"
  "sr_find_iface_by_mac (sr\<lparr>cache := c\<rparr>) m = sr_find_iface_by_mac sr m"
  "sr_find_iface_by_mac (sr\<lparr>sock_out := out\<rparr>) m = sr_find_iface_by_mac sr m"
  "sr_find_iface_by_mac (sr\<lparr>logfile := lf\<rparr>) m = sr_find_iface_by_mac sr m"
  by (simp_all add: sr_get_interface_def sr_is_router_ip_def sr_find_iface_by_mac_def)

section \<open>Building the list\<close>

text \<open>
  The server announces an interface by its name, then its addresses; the three operations
  in that order append exactly the announced interface.
\<close>

definition announce ::
  "env \<Rightarrow> sr_if \<Rightarrow> sr_instance \<Rightarrow> cstring \<Rightarrow> mac \<Rightarrow> u32 \<Rightarrow> sr_instance option" where
  "announce e junk sr name m ip =
     do { sr1 \<leftarrow> sr_add_interface e junk sr name;
          sr2 \<leftarrow> sr_set_ether_addr sr1 m;
          sr_set_ether_ip sr2 ip }"

lemma announce_eq:
  assumes "malloc_ok e sizeof_sr_if"
  shows "announce e junk sr name m ip =
    Some (sr\<lparr>if_list := if_list sr @
      [junk\<lparr>if_name := strncpy sr_IFACE_NAMELEN name, if_addr := m, if_ip := ip\<rparr>]\<rparr>)"
  using assms
  by (simp add: announce_def sr_add_interface_def sr_set_ether_addr_def sr_set_ether_ip_def
      update_last_eq)

lemma strncmp_strncpy: "c_str s \<Longrightarrow> strncmp (strncpy n s) s n = 0"
  by (subst strncmp_0_iff) (auto simp: c_str_def strncpy_def dest: in_set_takeD)

lemma find_append_None: "find P xs = None \<Longrightarrow> find P (xs @ ys) = find P ys"
  by (induction xs) (auto split: if_splits)

lemma announce_lookup:
  assumes "malloc_ok e sizeof_sr_if" and "c_str name" and "sr_get_interface sr name = None"
  shows "\<exists>sr'. announce e junk sr name m ip = Some sr' \<and>
    sr_get_interface sr' name = Some (junk\<lparr>if_name := take 32 name, if_addr := m, if_ip := ip\<rparr>) \<and>
    butlast (if_list sr') = if_list sr"
proof -
  have "strncmp (take 32 name) name 32 = 0"
    using strncmp_strncpy [OF assms(2), of 32] by (simp add: strncpy_def)
  then show ?thesis
    using assms(1,3)
    by (simp add: announce_eq sr_get_interface_def get_interface_walk_find find_append_None strncpy_def
        sr_IFACE_NAMELEN_def)
qed

end
