(* ===== verification/Routing.thy ===== *)
theory Routing
  imports Interfaces
begin

text \<open>
  The routing table: \<^verbatim>\<open>sr_add_rt_entry\<close> of \<^verbatim>\<open>src/sr_rt.c\<close>, the longest-prefix match of
  \<^verbatim>\<open>src/sr_router.c\<close> and \<^verbatim>\<open>sr_verify_routing_table\<close> of \<^verbatim>\<open>src/sr_main.c\<close>. Addresses and
  masks are in network byte order, as \<^verbatim>\<open>struct in_addr\<close> holds them.
\<close>

section \<open>Operations\<close>

definition sizeof_sr_rt :: nat where "sizeof_sr_rt = 56"

definition sr_add_rt_entry ::
  "env \<Rightarrow> sr_instance \<Rightarrow> u32 \<Rightarrow> u32 \<Rightarrow> u32 \<Rightarrow> cstring \<Rightarrow> sr_instance option" where
  "sr_add_rt_entry e sr dest gw msk ifn =
     (if \<not> malloc_ok e sizeof_sr_rt then None
      else Some (sr\<lparr>routing_table := append_node (routing_table sr)
             \<lparr>rt_dest = dest, rt_gw = gw, rt_mask = msk,
              rt_interface = strncpy sr_IFACE_NAMELEN ifn\<rparr>\<rparr>))"

fun lpm_loop :: "u32 \<Rightarrow> sr_rt list \<Rightarrow> sr_rt option \<Rightarrow> u32 \<Rightarrow> sr_rt option" where
  "lpm_loop ip [] best best_mask = best"
| "lpm_loop ip (rt # rest) best best_mask =
     (let m = ntohl (rt_mask rt) in
      if (ip AND rt_mask rt) = (rt_dest rt AND rt_mask rt) \<and> (best = None \<or> m > best_mask)
      then lpm_loop ip rest (Some rt) m
      else lpm_loop ip rest best best_mask)"

definition sr_find_lpm_route :: "sr_instance \<Rightarrow> u32 \<Rightarrow> sr_rt option" where
  "sr_find_lpm_route sr ip = lpm_loop ip (routing_table sr) None 0"

text \<open>\<^verbatim>\<open>sr_verify_routing_table\<close>: the number of routes whose interface does not exist.\<close>

fun verify_walk :: "sr_if list \<Rightarrow> sr_rt list \<Rightarrow> int \<Rightarrow> int" where
  "verify_walk ifs [] ret = ret"
| "verify_walk ifs (rt # rest) ret =
     verify_walk ifs rest
       (if get_interface_walk ifs (rt_interface rt) = None then ret + 1 else ret)"

definition sr_verify_routing_table :: "sr_instance \<Rightarrow> int" where
  "sr_verify_routing_table sr =
     (if if_list sr = [] \<or> routing_table sr = [] then 999
      else verify_walk (if_list sr) (routing_table sr) 0)"

section \<open>Longest-prefix match\<close>

definition rt_matches :: "sr_rt \<Rightarrow> u32 \<Rightarrow> bool" where
  "rt_matches rt ip \<longleftrightarrow> (ip AND rt_mask rt) = (rt_dest rt AND rt_mask rt)"

text \<open>
  The specification: among the matching routes, one whose mask, as a number, is largest,
  and the first of those in the table.
\<close>

definition best_route :: "sr_rt list \<Rightarrow> u32 \<Rightarrow> nat \<Rightarrow> bool" where
  "best_route rts ip i \<longleftrightarrow>
     i < length rts \<and> rt_matches (rts ! i) ip \<and>
     (\<forall>j < length rts. rt_matches (rts ! j) ip \<longrightarrow>
        (if j < i then ntohl (rt_mask (rts ! j)) < ntohl (rt_mask (rts ! i))
         else ntohl (rt_mask (rts ! j)) \<le> ntohl (rt_mask (rts ! i))))"

lemma best_routeD:
  assumes "best_route rts ip i" and "j < length rts" and "rt_matches (rts ! j) ip"
  shows "ntohl (rt_mask (rts ! j)) \<le> ntohl (rt_mask (rts ! i))"
    and "j < i \<Longrightarrow> ntohl (rt_mask (rts ! j)) < ntohl (rt_mask (rts ! i))"
  using assms unfolding best_route_def by (meson order.strict_implies_order)+

lemma best_route_matches: "best_route rts ip i \<Longrightarrow> rts ! i \<in> set rts \<and> rt_matches (rts ! i) ip"
  by (simp add: best_route_def)

lemma best_route_unique:
  assumes "best_route rts ip i" and "best_route rts ip j"
  shows "i = j"
proof (rule ccontr)
  assume "i \<noteq> j"
  moreover have "i < length rts" "rt_matches (rts ! i) ip" "j < length rts" "rt_matches (rts ! j) ip"
    using assms by (simp_all add: best_route_def)
  ultimately show False
    using best_routeD [OF assms(1), of j] best_routeD [OF assms(2), of i]
    by (cases i j rule: linorder_cases) auto
qed

lemma best_route_snoc_new:
  assumes "rt_matches rt ip"
    and "\<And>r. r \<in> set rts \<Longrightarrow> rt_matches r ip \<Longrightarrow> ntohl (rt_mask r) < ntohl (rt_mask rt)"
  shows "best_route (rts @ [rt]) ip (length rts)"
  using assms by (auto simp: best_route_def nth_append)

lemma best_route_snoc_old:
  assumes "best_route rts ip i" and "rt_matches rt ip \<Longrightarrow> ntohl (rt_mask rt) \<le> ntohl (rt_mask (rts ! i))"
  shows "best_route (rts @ [rt]) ip i"
proof -
  have i: "i < length rts" "rt_matches (rts ! i) ip" using assms(1) by (simp_all add: best_route_def)
  show ?thesis
    unfolding best_route_def
  proof (intro conjI allI impI)
    fix j assume "j < length (rts @ [rt])" and m: "rt_matches ((rts @ [rt]) ! j) ip"
    then consider "j < length rts" | "j = length rts" by fastforce
    then show "if j < i then ntohl (rt_mask ((rts @ [rt]) ! j)) < ntohl (rt_mask ((rts @ [rt]) ! i))
      else ntohl (rt_mask ((rts @ [rt]) ! j)) \<le> ntohl (rt_mask ((rts @ [rt]) ! i))"
      using i m assms(2) best_routeD [OF assms(1), of j] by cases (simp_all add: nth_append)
  qed (use i in \<open>simp_all add: nth_append\<close>)
qed

text \<open>The loop invariant: \<open>best\<close> is the best route of the part already walked.\<close>

definition lpm_inv :: "sr_rt list \<Rightarrow> u32 \<Rightarrow> sr_rt option \<Rightarrow> u32 \<Rightarrow> bool" where
  "lpm_inv seen ip best best_mask \<longleftrightarrow>
     (case best of
        None \<Rightarrow> (\<forall>rt \<in> set seen. \<not> rt_matches rt ip)
      | Some r \<Rightarrow> best_mask = ntohl (rt_mask r) \<and> (\<exists>i. best_route seen ip i \<and> seen ! i = r))"

lemma best_route_max:
  "best_route rts ip i \<Longrightarrow> r \<in> set rts \<Longrightarrow> rt_matches r ip \<Longrightarrow>
   ntohl (rt_mask r) \<le> ntohl (rt_mask (rts ! i))"
  by (auto simp: in_set_conv_nth dest: best_routeD)

lemma lpm_inv_step:
  assumes inv: "lpm_inv seen ip best best_mask"
  shows "if rt_matches rt ip \<and> (best = None \<or> ntohl (rt_mask rt) > best_mask)
         then lpm_inv (seen @ [rt]) ip (Some rt) (ntohl (rt_mask rt))
         else lpm_inv (seen @ [rt]) ip best best_mask"
proof (cases best)
  case None
  with inv have "best_route (seen @ [rt]) ip (length seen)" if "rt_matches rt ip"
    using that by (auto simp: lpm_inv_def intro: best_route_snoc_new)
  with None inv show ?thesis by (auto simp: lpm_inv_def intro!: exI [of _ "length seen"])
next
  case (Some r)
  with inv obtain i where i: "best_route seen ip i" "seen ! i = r"
    and m: "best_mask = ntohl (rt_mask r)"
    by (auto simp: lpm_inv_def)
  have lt: "i < length seen" using i(1) by (simp add: best_route_def)
  show ?thesis
  proof (cases "rt_matches rt ip \<and> ntohl (rt_mask rt) > best_mask")
    case True
    have "best_route (seen @ [rt]) ip (length seen)"
      using True m i best_route_max [OF i(1)] by (intro best_route_snoc_new) (auto intro: le_less_trans)
    with True Some show ?thesis by (auto simp: lpm_inv_def intro!: exI [of _ "length seen"])
  next
    case False
    then have "best_route (seen @ [rt]) ip i"
      using i m by (intro best_route_snoc_old) auto
    with False Some i m lt show ?thesis
      by (auto simp: lpm_inv_def nth_append intro!: exI [of _ i])
  qed
qed

lemma lpm_loop_inv:
  "lpm_inv seen ip best best_mask \<Longrightarrow>
   \<exists>m. lpm_inv (seen @ rts) ip (lpm_loop ip rts best best_mask) m"
proof (induction rts arbitrary: seen best best_mask)
  case Nil
  then show ?case by auto
next
  case (Cons rt rts)
  note step = lpm_inv_step [OF Cons.prems, of rt]
  show ?case
  proof (cases "rt_matches rt ip \<and> (best = None \<or> ntohl (rt_mask rt) > best_mask)")
    case True
    with step Cons.IH [of "seen @ [rt]" "Some rt" "ntohl (rt_mask rt)"] show ?thesis
      by (simp add: Let_def rt_matches_def)
  next
    case False
    with step have "lpm_inv (seen @ [rt]) ip best best_mask" by argo
    from Cons.IH [OF this] False show ?thesis by (auto simp: Let_def rt_matches_def)
  qed
qed

lemma lpm_None_iff:
  "sr_find_lpm_route sr ip = None \<longleftrightarrow> (\<forall>rt \<in> set (routing_table sr). \<not> rt_matches rt ip)"
proof -
  obtain m where m: "lpm_inv (routing_table sr) ip (sr_find_lpm_route sr ip) m"
    using lpm_loop_inv [of "[]" ip None 0 "routing_table sr"]
    by (auto simp: lpm_inv_def sr_find_lpm_route_def)
  then show ?thesis
    by (cases "sr_find_lpm_route sr ip") (auto simp: lpm_inv_def best_route_def)
qed

lemma lpm_Some_iff:
  "sr_find_lpm_route sr ip = Some r \<longleftrightarrow>
     (\<exists>i. best_route (routing_table sr) ip i \<and> routing_table sr ! i = r)"
proof -
  obtain m where m: "lpm_inv (routing_table sr) ip (sr_find_lpm_route sr ip) m"
    using lpm_loop_inv [of "[]" ip None 0 "routing_table sr"]
    by (auto simp: lpm_inv_def sr_find_lpm_route_def)
  then show ?thesis
    by (cases "sr_find_lpm_route sr ip")
      (auto simp: lpm_inv_def dest: best_route_unique best_route_matches)
qed

lemma lpm_update [simp]:
  "sr_find_lpm_route (sr\<lparr>cache := c\<rparr>) ip = sr_find_lpm_route sr ip"
  "sr_find_lpm_route (sr\<lparr>sock_out := out\<rparr>) ip = sr_find_lpm_route sr ip"
  "sr_find_lpm_route (sr\<lparr>logfile := lf\<rparr>) ip = sr_find_lpm_route sr ip"
  by (simp_all add: sr_find_lpm_route_def)

section \<open>Prefixes\<close>

text \<open>The mask of a prefix of \<open>n\<close> bits, in host byte order: numerically larger is longer.\<close>

definition prefix_mask :: "nat \<Rightarrow> u32" where
  "prefix_mask n = of_nat (2 ^ 32 - 2 ^ (32 - n))"

lemma unat_prefix_mask: "unat (prefix_mask n) = 2 ^ 32 - 2 ^ (32 - n)"
proof -
  have "2 ^ 32 - 2 ^ (32 - n) < (2 ^ 32 :: nat)" by simp
  then show ?thesis by (simp only: prefix_mask_def unat_of_nat take_bit_nat_eq_self) simp
qed

lemma prefix_mask_le_iff:
  assumes "m \<le> 32" and "n \<le> 32"
  shows "prefix_mask m \<le> prefix_mask n \<longleftrightarrow> m \<le> n"
proof -
  have "(2::nat) ^ (32 - m) \<le> 2 ^ 32" "(2::nat) ^ (32 - n) \<le> 2 ^ 32"
    by (simp_all only: power_increasing_iff)
  then have "prefix_mask m \<le> prefix_mask n \<longleftrightarrow> (2::nat) ^ (32 - n) \<le> 2 ^ (32 - m)"
    unfolding word_le_nat_alt unat_prefix_mask by linarith
  with assms show ?thesis by (simp add: power_increasing_iff) linarith
qed

lemma lpm_is_longest:
  assumes r: "sr_find_lpm_route sr ip = Some r"
    and m: "\<And>rt. rt \<in> set (routing_table sr) \<Longrightarrow> plen rt \<le> 32 \<and> ntohl (rt_mask rt) = prefix_mask (plen rt)"
  shows "r \<in> set (routing_table sr) \<and> rt_matches r ip \<and>
    (\<forall>rt \<in> set (routing_table sr). rt_matches rt ip \<longrightarrow> plen rt \<le> plen r)"
proof -
  obtain i where i: "best_route (routing_table sr) ip i" "routing_table sr ! i = r"
    using r by (auto simp: lpm_Some_iff)
  have r: "r \<in> set (routing_table sr)" "rt_matches r ip" using best_route_matches [OF i(1)] i(2) by auto
  have "plen rt \<le> plen r" if "rt \<in> set (routing_table sr)" "rt_matches rt ip" for rt
    using best_route_max [OF i(1) that] m [OF that(1)] m [OF r(1)] unfolding i(2)
    by (metis prefix_mask_le_iff)
  with r show ?thesis by blast
qed

section \<open>Verification of the table\<close>

lemma verify_walk_count:
  "verify_walk ifs rts n =
     n + int (length (filter (\<lambda>rt. get_interface_walk ifs (rt_interface rt) = None) rts))"
  by (induction rts arbitrary: n) auto

lemma verify_0_iff:
  "sr_verify_routing_table sr = 0 \<longleftrightarrow>
     if_list sr \<noteq> [] \<and> routing_table sr \<noteq> [] \<and>
     (\<forall>rt \<in> set (routing_table sr). sr_get_interface sr (rt_interface rt) \<noteq> None)"
  by (simp add: sr_verify_routing_table_def verify_walk_count sr_get_interface_def filter_empty_conv)

end
