(* ===== verification/Arpcache.thy ===== *)
theory Arpcache
  imports State
begin

text \<open>
  The ARP cache of \<^verbatim>\<open>src/sr_arpcache.c\<close>: the table of learned addresses and the queue of
  outstanding requests with the packets waiting on them. Each operation here is one
  critical section of the cache's lock. The locales \<open>arp_table\<close> and \<open>request_queue\<close> are
  what the router relies on; both are interpreted on the operations below.
\<close>

section \<open>Operations\<close>

definition sizeof_sr_arpentry :: nat where "sizeof_sr_arpentry = 32"
definition sizeof_sr_arpreq :: nat where "sizeof_sr_arpreq = 40"
definition sizeof_sr_packet :: nat where "sizeof_sr_packet = 32"

definition zero_entry :: sr_arpentry where
  "zero_entry = \<lparr>ent_mac = MAC 0 0 0 0 0 0, ent_ip = 0, ent_added = 0, ent_valid = False\<rparr>"

definition sr_arpcache_init :: sr_arpcache where
  "sr_arpcache_init =
     \<lparr>entries = replicate SR_ARPCACHE_SZ zero_entry, requests = [], next_addr = 1\<rparr>"

text \<open>The lookup loop runs to the end of the array: a later match replaces an earlier one.\<close>

fun lookup_loop :: "sr_arpentry list \<Rightarrow> u32 \<Rightarrow> sr_arpentry option \<Rightarrow> sr_arpentry option" where
  "lookup_loop [] ip entry = entry"
| "lookup_loop (en # rest) ip entry =
     lookup_loop rest ip (if ent_valid en \<and> ent_ip en = ip then Some en else entry)"

definition sr_arpcache_lookup ::
  "env \<Rightarrow> sr_arpcache \<Rightarrow> u32 \<Rightarrow> sr_arpentry option option" where
  "sr_arpcache_lookup e c ip =
     (case lookup_loop (entries c) ip None of
        None \<Rightarrow> Some None
      | Some en \<Rightarrow> if malloc_ok e sizeof_sr_arpentry then Some (Some en) else None)"

fun find_req :: "sr_arpreq list \<Rightarrow> u32 \<Rightarrow> sr_arpreq option" where
  "find_req [] ip = None"
| "find_req (r # rest) ip = (if req_ip r = ip then Some r else find_req rest ip)"

text \<open>Following a request pointer: reading and updating the request at an address.\<close>

definition deref_req :: "sr_arpcache \<Rightarrow> nat \<Rightarrow> sr_arpreq option" where
  "deref_req c a = find (\<lambda>r. req_self r = a) (requests c)"

definition update_req :: "nat \<Rightarrow> (sr_arpreq \<Rightarrow> sr_arpreq) \<Rightarrow> sr_arpcache \<Rightarrow> sr_arpcache" where
  "update_req a f c = c\<lparr>requests := map (\<lambda>r. if req_self r = a then f r else r) (requests c)\<rparr>"

definition sr_arpcache_queuereq ::
  "env \<Rightarrow> sr_arpcache \<Rightarrow> u32 \<Rightarrow> u8 list \<Rightarrow> nat \<Rightarrow> cstring \<Rightarrow> (nat \<times> sr_arpcache) option" where
  "sr_arpcache_queuereq e c ip packet packet_len iface =
     do { (req, c) \<leftarrow>
            (case find_req (requests c) ip of
               Some r \<Rightarrow> Some (req_self r, c)
             | None \<Rightarrow>
                 if malloc_ok e sizeof_sr_arpreq then
                   Some (next_addr c,
                     c\<lparr>requests :=
                         \<lparr>req_self = next_addr c, req_ip = ip, req_sent = 0, req_times_sent = 0,
                          req_packets = []\<rparr> # requests c,
                       next_addr := Suc (next_addr c)\<rparr>)
                 else None);
          if packet_len \<noteq> 0 then
            if malloc_ok e sizeof_sr_packet \<and> malloc_ok e packet_len \<and> malloc_ok e sr_IFACE_NAMELEN
            then do { buf \<leftarrow> load packet 0 packet_len;
                      let new_pkt = \<lparr>pkt_buf = buf, pkt_len = packet_len,
                                     pkt_iface = strncpy sr_IFACE_NAMELEN iface\<rparr>;
                      Some (req, update_req req
                        (\<lambda>r. r\<lparr>req_packets := new_pkt # req_packets r\<rparr>) c) }
            else None
          else Some (req, c) }"

text \<open>Unlinking the first request for an address, and the slot an insertion uses.\<close>

fun unlink_ip :: "sr_arpreq list \<Rightarrow> u32 \<Rightarrow> sr_arpreq option \<times> sr_arpreq list" where
  "unlink_ip [] ip = (None, [])"
| "unlink_ip (r # rest) ip =
     (if req_ip r = ip then (Some r, rest)
      else let (req, rest') = unlink_ip rest ip in (req, r # rest'))"

fun slot_loop :: "nat \<Rightarrow> sr_arpentry list \<Rightarrow> u32 \<Rightarrow> nat option \<Rightarrow> nat option" where
  "slot_loop i [] ip slot = slot"
| "slot_loop i (en # rest) ip slot =
     (if ent_valid en \<and> ent_ip en = ip then Some i
      else slot_loop (Suc i) rest ip
             (if slot = None \<and> \<not> ent_valid en then Some i else slot))"

definition sr_arpcache_insert ::
  "env \<Rightarrow> sr_arpcache \<Rightarrow> mac \<Rightarrow> u32 \<Rightarrow> sr_arpreq option \<times> sr_arpcache" where
  "sr_arpcache_insert e c m ip =
     (let (req, reqs) = unlink_ip (requests c) ip;
          ents = (case slot_loop 0 (entries c) ip None of
                    None \<Rightarrow> entries c
                  | Some slot \<Rightarrow> (entries c)[slot :=
                      \<lparr>ent_mac = m, ent_ip = ip, ent_added = now e, ent_valid = True\<rparr>])
      in (req, c\<lparr>entries := ents, requests := reqs\<rparr>))"

text \<open>Unlinking and freeing the request at an address; nothing if it is not in the queue.\<close>

fun unlink_addr :: "sr_arpreq list \<Rightarrow> nat \<Rightarrow> sr_arpreq list" where
  "unlink_addr [] a = []"
| "unlink_addr (r # rest) a = (if req_self r = a then rest else r # unlink_addr rest a)"

definition sr_arpreq_destroy :: "sr_arpcache \<Rightarrow> nat \<Rightarrow> sr_arpcache" where
  "sr_arpreq_destroy c a = c\<lparr>requests := unlink_addr (requests c) a\<rparr>"

text \<open>The expiry loop of the timeout thread.\<close>

definition expire_entries :: "time \<Rightarrow> sr_arpcache \<Rightarrow> sr_arpcache" where
  "expire_entries curtime c =
     c\<lparr>entries := map (\<lambda>en. if ent_valid en \<and> curtime - ent_added en > SR_ARPCACHE_TO
                            then en\<lparr>ent_valid := False\<rparr> else en) (entries c)\<rparr>"

section \<open>The invariant\<close>

text \<open>
  The array has its size and holds at most one valid entry per IP address; the queue holds
  at most one request per IP address, at distinct addresses that were handed out before.
\<close>

definition one_per_ip :: "sr_arpentry list \<Rightarrow> bool" where
  "one_per_ip es \<longleftrightarrow>
     (\<forall>i < length es. \<forall>j < length es.
        ent_valid (es ! i) \<and> ent_valid (es ! j) \<and> ent_ip (es ! i) = ent_ip (es ! j) \<longrightarrow> i = j)"

definition table_inv :: "sr_arpcache \<Rightarrow> bool" where
  "table_inv c \<longleftrightarrow>
     length (entries c) = SR_ARPCACHE_SZ \<and> one_per_ip (entries c)"

definition queue_inv :: "sr_arpcache \<Rightarrow> bool" where
  "queue_inv c \<longleftrightarrow>
     distinct (map req_self (requests c)) \<and> distinct (map req_ip (requests c)) \<and>
     (\<forall>r \<in> set (requests c). req_self r < next_addr c)"

definition cache_inv :: "sr_arpcache \<Rightarrow> bool" where
  "cache_inv c \<longleftrightarrow> table_inv c \<and> queue_inv c"

lemma table_inv_update [simp]:
  "table_inv (c\<lparr>requests := rs\<rparr>) = table_inv c" "table_inv (c\<lparr>next_addr := n\<rparr>) = table_inv c"
  "table_inv (update_req a f c) = table_inv c" "table_inv (sr_arpreq_destroy c a) = table_inv c"
  by (simp_all add: table_inv_def update_req_def sr_arpreq_destroy_def)

lemma queue_inv_update [simp]: "queue_inv (c\<lparr>entries := es\<rparr>) = queue_inv c"
  by (simp add: queue_inv_def)

lemma init_inv: "cache_inv sr_arpcache_init"
  by (simp add: cache_inv_def table_inv_def queue_inv_def sr_arpcache_init_def one_per_ip_def
      zero_entry_def)

section \<open>The table\<close>

lemma lookup_loop_filter:
  "lookup_loop es ip x =
     (let l = filter (\<lambda>en. ent_valid en \<and> ent_ip en = ip) es in if l = [] then x else Some (last l))"
  by (induction es arbitrary: x) (auto simp: Let_def)

lemma lookup_loop_Some:
  "lookup_loop es ip None = Some en \<Longrightarrow> en \<in> set es \<and> ent_valid en \<and> ent_ip en = ip"
  using last_in_set [of "filter (\<lambda>en. ent_valid en \<and> ent_ip en = ip) es"]
  by (auto simp: lookup_loop_filter Let_def split: if_splits)

lemma lookup_loop_None_iff:
  "lookup_loop es ip None = None \<longleftrightarrow> (\<forall>en \<in> set es. \<not> (ent_valid en \<and> ent_ip en = ip))"
  by (auto simp: lookup_loop_filter Let_def filter_empty_conv)

lemma lookup_loop_unique:
  assumes "one_per_ip es" and "i < length es" and "ent_valid (es ! i)"
  shows "lookup_loop es (ent_ip (es ! i)) None = Some (es ! i)"
proof -
  obtain f where f: "lookup_loop es (ent_ip (es ! i)) None = Some f"
    using assms by (meson lookup_loop_None_iff not_None_eq nth_mem)
  then have "f \<in> set es" and v: "ent_valid f" "ent_ip f = ent_ip (es ! i)"
    by (auto dest: lookup_loop_Some)
  then obtain j where "j < length es" "es ! j = f" by (auto simp: in_set_conv_nth)
  with v assms have "j = i" by (auto simp: one_per_ip_def)
  with f \<open>es ! j = f\<close> show ?thesis by simp
qed

lemma lookup_loop_list_update:
  assumes "s < length es" and "\<not> (ent_valid n \<and> ent_ip n = ip)"
    and "\<not> (ent_valid (es ! s) \<and> ent_ip (es ! s) = ip)"
  shows "lookup_loop (es[s := n]) ip x = lookup_loop es ip x"
proof -
  let ?P = "\<lambda>en. ent_valid en \<and> ent_ip en = ip"
  have "filter ?P (es[s := n]) = filter ?P (take s es) @ filter ?P (drop (Suc s) es)"
    using assms(1,2) by (simp add: upd_conv_take_nth_drop)
  also have "\<dots> = filter ?P (take s es @ es ! s # drop (Suc s) es)"
    using assms(3) by simp
  also have "\<dots> = filter ?P es"
    using assms(1) by (simp only: id_take_nth_drop [symmetric])
  finally show ?thesis by (simp add: lookup_loop_filter)
qed

text \<open>The slot an insertion picks: the entry for the address, else the first free one.\<close>

lemma slot_loop_Some:
  "slot_loop i es ip slot = Some s \<Longrightarrow>
     (\<exists>k < length es. s = i + k \<and> ent_valid (es ! k) \<and> ent_ip (es ! k) = ip) \<or>
     (\<forall>en \<in> set es. \<not> (ent_valid en \<and> ent_ip en = ip)) \<and>
     (slot = Some s \<or> (\<exists>k < length es. s = i + k \<and> \<not> ent_valid (es ! k)))"
proof (induction i es ip slot rule: slot_loop.induct)
  case (2 i en rest ip slot)
  show ?case
  proof (cases "ent_valid en \<and> ent_ip en = ip")
    case True
    with 2 show ?thesis by force
  next
    case False
    with 2 have "(\<exists>k < length rest. s = Suc i + k \<and> ent_valid (rest ! k) \<and> ent_ip (rest ! k) = ip) \<or>
      (\<forall>en \<in> set rest. \<not> (ent_valid en \<and> ent_ip en = ip)) \<and>
      ((if slot = None \<and> \<not> ent_valid en then Some i else slot) = Some s \<or>
       (\<exists>k < length rest. s = Suc i + k \<and> \<not> ent_valid (rest ! k)))"
      by simp
    with False show ?thesis by (fastforce split: if_splits)
  qed
qed auto

lemma slot_loop_None_iff:
  "slot_loop i es ip slot = None \<longleftrightarrow>
     slot = None \<and> (\<forall>en \<in> set es. ent_valid en \<and> ent_ip en \<noteq> ip)"
  by (induction i es ip slot rule: slot_loop.induct) auto

text \<open>The address the table has for an IP address.\<close>

definition arp_mac :: "sr_arpcache \<Rightarrow> u32 \<Rightarrow> mac option" where
  "arp_mac c ip = map_option ent_mac (lookup_loop (entries c) ip None)"

text \<open>No slot: the IP address is unknown and every entry of the array is in use.\<close>

definition table_full :: "sr_arpcache \<Rightarrow> u32 \<Rightarrow> bool" where
  "table_full c ip \<longleftrightarrow> (\<forall>en \<in> set (entries c). ent_valid en \<and> ent_ip en \<noteq> ip)"

lemma insert_slot_cases:
  assumes "slot_loop 0 es ip None = Some s"
  shows "s < length es"
    and "ent_valid (es ! s) \<and> ent_ip (es ! s) = ip \<or>
         \<not> ent_valid (es ! s) \<and> (\<forall>en \<in> set es. \<not> (ent_valid en \<and> ent_ip en = ip))"
  using slot_loop_Some [OF assms] by auto

lemma insert_entries:
  "entries (snd (sr_arpcache_insert e c m ip)) =
     (case slot_loop 0 (entries c) ip None of
        None \<Rightarrow> entries c
      | Some s \<Rightarrow> (entries c)[s :=
          \<lparr>ent_mac = m, ent_ip = ip, ent_added = now e, ent_valid = True\<rparr>])"
  by (simp add: sr_arpcache_insert_def Let_def split: prod.splits option.splits)

lemma one_per_ip_insert:
  assumes "one_per_ip es" and "slot_loop 0 es ip None = Some s" and "ent_ip n = ip"
  shows "one_per_ip (es[s := n])"
  unfolding one_per_ip_def
proof (intro allI impI)
  fix i j assume ij: "i < length (es[s := n])" "j < length (es[s := n])"
    and v: "ent_valid (es[s := n] ! i) \<and> ent_valid (es[s := n] ! j) \<and>
            ent_ip (es[s := n] ! i) = ent_ip (es[s := n] ! j)"
  have uniq: "\<And>k l. k < length es \<Longrightarrow> l < length es \<Longrightarrow> ent_valid (es ! k) \<Longrightarrow>
      ent_valid (es ! l) \<Longrightarrow> ent_ip (es ! k) = ent_ip (es ! l) \<Longrightarrow> k = l"
    using assms(1) unfolding one_per_ip_def by blast
  note slot = insert_slot_cases [OF assms(2)]
  have other: "k = s" if "k < length es" "ent_valid (es ! k)" "ent_ip (es ! k) = ip" for k
    using slot that uniq [of k s] nth_mem [of k es] by metis
  have new: "es[s := n] ! s = n" and old: "\<And>k. k \<noteq> s \<Longrightarrow> es[s := n] ! k = es ! k"
    using slot(1) by simp_all
  consider "i = s" "j = s" | "i = s" "j \<noteq> s" | "i \<noteq> s" "j = s" | "i \<noteq> s" "j \<noteq> s" by blast
  then show "i = j"
  proof cases
    case 2
    with ij v new old [of j] assms(3) other [of j] show ?thesis by simp
  next
    case 3
    with ij v new old [of i] assms(3) other [of i] show ?thesis by simp
  next
    case 4
    with ij v old [of i] old [of j] uniq [of i j] show ?thesis by simp
  qed simp
qed

lemma insert_table_inv: "table_inv c \<Longrightarrow> table_inv (snd (sr_arpcache_insert e c m ip))"
  by (auto simp: table_inv_def insert_entries intro: one_per_ip_insert split: option.splits)

lemma arp_mac_insert_same:
  assumes "table_inv c" and "\<not> table_full c ip"
  shows "arp_mac (snd (sr_arpcache_insert e c m ip)) ip = Some m"
proof -
  let ?n = "\<lparr>ent_mac = m, ent_ip = ip, ent_added = now e, ent_valid = True\<rparr>"
  obtain s where s: "slot_loop 0 (entries c) ip None = Some s"
    using assms(2) slot_loop_None_iff [of 0 "entries c" ip None]
    by (cases "slot_loop 0 (entries c) ip None") (auto simp: table_full_def)
  then have "one_per_ip ((entries c)[s := ?n])"
    using assms(1) by (auto simp: table_inv_def intro: one_per_ip_insert)
  from lookup_loop_unique [OF this, of s] s insert_slot_cases [OF s] show ?thesis
    by (simp add: arp_mac_def insert_entries)
qed

lemma arp_mac_insert_other:
  assumes "ip' \<noteq> ip"
  shows "arp_mac (snd (sr_arpcache_insert e c m ip)) ip' = arp_mac c ip'"
proof (cases "slot_loop 0 (entries c) ip None")
  case (Some s)
  have "lookup_loop ((entries c)[s := \<lparr>ent_mac = m, ent_ip = ip, ent_added = now e, ent_valid = True\<rparr>])
      ip' None = lookup_loop (entries c) ip' None"
    using insert_slot_cases [OF Some] assms by (intro lookup_loop_list_update) auto
  with Some show ?thesis by (simp add: arp_mac_def insert_entries)
qed (simp add: arp_mac_def insert_entries)

lemma insert_full:
  "table_full c ip \<Longrightarrow> entries (snd (sr_arpcache_insert e c m ip)) = entries c"
  using slot_loop_None_iff [of 0 "entries c" ip None]
  by (simp add: insert_entries table_full_def)

lemma full_unknown: "table_full c ip \<Longrightarrow> arp_mac c ip = None"
  by (auto simp: table_full_def arp_mac_def lookup_loop_None_iff)

lemma arp_mac_cong: "entries c = entries c' \<Longrightarrow> arp_mac c ip = arp_mac c' ip"
  by (simp add: arp_mac_def)

text \<open>Expiry removes exactly the entries older than the timeout.\<close>

definition fresh :: "time \<Rightarrow> sr_arpentry \<Rightarrow> bool" where
  "fresh t en \<longleftrightarrow> t - ent_added en \<le> SR_ARPCACHE_TO"

lemma expire_filter:
  "filter (\<lambda>en. ent_valid en \<and> ent_ip en = ip) (entries (expire_entries t c)) =
   filter (\<lambda>en. ent_valid en \<and> ent_ip en = ip \<and> fresh t en) (entries c)"
proof -
  have "filter (\<lambda>en. ent_valid en \<and> ent_ip en = ip)
      (map (\<lambda>en. if ent_valid en \<and> t - ent_added en > SR_ARPCACHE_TO
                 then en\<lparr>ent_valid := False\<rparr> else en) es) =
    filter (\<lambda>en. ent_valid en \<and> ent_ip en = ip \<and> fresh t en) es" for es
    by (induction es) (auto simp: fresh_def)
  then show ?thesis by (simp add: expire_entries_def)
qed

lemma expire_table_inv: "table_inv c \<Longrightarrow> table_inv (expire_entries t c)"
  unfolding table_inv_def one_per_ip_def expire_entries_def by simp

lemma expire_lookup:
  assumes "table_inv c"
  shows "lookup_loop (entries (expire_entries t c)) ip None =
    (case lookup_loop (entries c) ip None of
       None \<Rightarrow> None | Some en \<Rightarrow> if fresh t en then Some en else None)"
proof -
  have uniq: "one_per_ip (entries c)" using assms by (simp add: table_inv_def)
  have found: "lookup_loop (entries c) ip None = Some f"
    if "f \<in> set (entries c)" "ent_valid f" "ent_ip f = ip" for f
    using that lookup_loop_unique [OF uniq] by (auto simp: in_set_conv_nth)
  have "lookup_loop (entries (expire_entries t c)) ip None = Some f \<longleftrightarrow>
      lookup_loop (entries c) ip None = Some f \<and> fresh t f" for f
  proof
    assume "lookup_loop (entries (expire_entries t c)) ip None = Some f"
    then have "f \<in> set (filter (\<lambda>en. ent_valid en \<and> ent_ip en = ip) (entries (expire_entries t c)))"
      using lookup_loop_Some by auto
    then have "f \<in> set (filter (\<lambda>en. ent_valid en \<and> ent_ip en = ip \<and> fresh t en) (entries c))"
      by (simp only: expire_filter)
    then show "lookup_loop (entries c) ip None = Some f \<and> fresh t f" using found by auto
  next
    assume f: "lookup_loop (entries c) ip None = Some f \<and> fresh t f"
    then obtain i where i: "i < length (entries c)" "entries c ! i = f" "ent_valid f" "ent_ip f = ip"
      by (metis in_set_conv_nth lookup_loop_Some)
    then have "entries (expire_entries t c) ! i = f" and "i < length (entries (expire_entries t c))"
      using f by (simp_all add: expire_entries_def fresh_def)
    with i lookup_loop_unique expire_table_inv [OF assms]
    show "lookup_loop (entries (expire_entries t c)) ip None = Some f"
      by (metis table_inv_def)
  qed
  then show ?thesis by (rule option_restrict)
qed

section \<open>The request queue\<close>

lemma find_req_find: "find_req rs ip = find (\<lambda>r. req_ip r = ip) rs"
  by (induction rs) auto

lemma find_req_Some: "find_req rs ip = Some r \<Longrightarrow> r \<in> set rs \<and> req_ip r = ip"
  by (auto simp: find_req_find find_Some_iff)

lemma find_req_None_iff: "find_req rs ip = None \<longleftrightarrow> ip \<notin> req_ip ` set rs"
  by (auto simp: find_req_find find_None_iff)

lemma find_req_unique:
  "distinct (map req_ip rs) \<Longrightarrow> r \<in> set rs \<Longrightarrow> find_req rs (req_ip r) = Some r"
  by (induction rs) (auto simp: rev_image_eqI)

lemma fst_unlink_ip: "fst (unlink_ip rs ip) = find_req rs ip"
  by (induction rs) (auto simp: Let_def split: prod.splits)

lemma snd_unlink_ip:
  "distinct (map req_ip rs) \<Longrightarrow> snd (unlink_ip rs ip) = filter (\<lambda>r. req_ip r \<noteq> ip) rs"
proof (induction rs)
  case (Cons r rs)
  have "filter (\<lambda>r. req_ip r \<noteq> ip) rs = rs" if "req_ip r = ip"
    using that Cons.prems by (auto simp: filter_id_conv image_iff)
  with Cons show ?case by (auto simp: Let_def split: prod.splits)
qed simp

lemma unlink_addr_filter:
  "distinct (map req_self rs) \<Longrightarrow> unlink_addr rs a = filter (\<lambda>r. req_self r \<noteq> a) rs"
proof (induction rs)
  case (Cons r rs)
  have "filter (\<lambda>r. req_self r \<noteq> a) rs = rs" if "req_self r = a"
    using that Cons.prems by (auto simp: filter_id_conv image_iff)
  with Cons show ?case by auto
qed simp

lemma unlink_addr_absent: "a \<notin> req_self ` set rs \<Longrightarrow> unlink_addr rs a = rs"
  by (induction rs) auto

lemma insert_requests:
  "fst (sr_arpcache_insert e c m ip) = find_req (requests c) ip"
  "requests (snd (sr_arpcache_insert e c m ip)) = snd (unlink_ip (requests c) ip)"
  "next_addr (snd (sr_arpcache_insert e c m ip)) = next_addr c"
  by (simp_all add: sr_arpcache_insert_def fst_unlink_ip [symmetric] split: prod.splits)

lemma insert_queue_inv: "queue_inv c \<Longrightarrow> queue_inv (snd (sr_arpcache_insert e c m ip))"
  by (simp add: queue_inv_def insert_requests snd_unlink_ip distinct_map_filter)

lemma destroy_queue_inv: "queue_inv c \<Longrightarrow> queue_inv (sr_arpreq_destroy c a)"
  by (simp add: queue_inv_def sr_arpreq_destroy_def unlink_addr_filter distinct_map_filter)

lemma destroy_entries [simp]: "entries (sr_arpreq_destroy c a) = entries c"
  by (simp add: sr_arpreq_destroy_def)

lemma destroy_next_addr [simp]: "next_addr (sr_arpreq_destroy c a) = next_addr c"
  by (simp add: sr_arpreq_destroy_def)

lemma update_req_entries [simp]:
  "entries (update_req a f c) = entries c" "next_addr (update_req a f c) = next_addr c"
  by (simp_all add: update_req_def)

text \<open>An update of a request that keeps its address and its IP address.\<close>

definition keeps_id :: "(sr_arpreq \<Rightarrow> sr_arpreq) \<Rightarrow> bool" where
  "keeps_id f \<longleftrightarrow> (\<forall>r. req_self (f r) = req_self r \<and> req_ip (f r) = req_ip r)"

lemma keeps_idI [intro]:
  "(\<And>r. req_self (f r) = req_self r) \<Longrightarrow> (\<And>r. req_ip (f r) = req_ip r) \<Longrightarrow> keeps_id f"
  by (simp add: keeps_id_def)

lemma map_update_req:
  assumes "keeps_id f"
  shows "map req_self (requests (update_req a f c)) = map req_self (requests c)"
    and "map req_ip (requests (update_req a f c)) = map req_ip (requests c)"
  using assms by (auto simp: update_req_def keeps_id_def)

lemma update_req_queue_inv: "keeps_id f \<Longrightarrow> queue_inv c \<Longrightarrow> queue_inv (update_req a f c)"
proof -
  assume f: "keeps_id f" and c: "queue_inv c"
  have "\<forall>r \<in> set (requests (update_req a f c)). req_self r < next_addr c"
    using f c by (auto simp: update_req_def keeps_id_def queue_inv_def)
  with f c show ?thesis by (simp add: queue_inv_def map_update_req)
qed

lemma find_req_update:
  assumes "keeps_id f"
  shows "find_req (requests (update_req a f c)) ip =
    map_option (\<lambda>r. if req_self r = a then f r else r) (find_req (requests c) ip)"
proof -
  have "find_req (map (\<lambda>r. if req_self r = a then f r else r) rs) ip =
      map_option (\<lambda>r. if req_self r = a then f r else r) (find_req rs ip)" for rs
    using assms by (induction rs) (auto simp: keeps_id_def)
  then show ?thesis by (simp add: update_req_def)
qed

lemma deref_req_update:
  assumes "keeps_id f"
  shows "deref_req (update_req a f c) b =
    map_option (\<lambda>r. if b = a then f r else r) (deref_req c b)"
proof -
  have "find (\<lambda>r. req_self r = b) (map (\<lambda>r. if req_self r = a then f r else r) rs) =
      map_option (\<lambda>r. if b = a then f r else r) (find (\<lambda>r. req_self r = b) rs)" for rs
    using assms by (induction rs) (auto simp: keeps_id_def)
  then show ?thesis by (simp add: update_req_def deref_req_def)
qed

lemma deref_req_Some: "deref_req c a = Some r \<Longrightarrow> r \<in> set (requests c) \<and> req_self r = a"
  by (auto simp: deref_req_def find_Some_iff)

lemma deref_req_None_iff: "deref_req c a = None \<longleftrightarrow> a \<notin> req_self ` set (requests c)"
  by (auto simp: deref_req_def find_None_iff)

lemma deref_req_unique:
  assumes "queue_inv c" and "r \<in> set (requests c)"
  shows "deref_req c (req_self r) = Some r"
proof -
  have "find (\<lambda>r'. req_self r' = req_self r) rs = Some r"
    if "distinct (map req_self rs)" "r \<in> set rs" for rs
    using that by (induction rs) (auto simp: rev_image_eqI)
  with assms show ?thesis by (simp add: queue_inv_def deref_req_def)
qed

lemma find_req_absent: "ip \<notin> req_ip ` set rs \<Longrightarrow> find_req rs ip = None"
  by (simp add: find_req_None_iff)

text \<open>The packets waiting for an address, newest first.\<close>

definition pending :: "sr_arpcache \<Rightarrow> u32 \<Rightarrow> sr_packet list option" where
  "pending c ip = map_option req_packets (find_req (requests c) ip)"

text \<open>A packet as the queue stores it.\<close>

definition queued_packet :: "u8 list \<Rightarrow> cstring \<Rightarrow> sr_packet" where
  "queued_packet buf iface =
     \<lparr>pkt_buf = buf, pkt_len = length buf, pkt_iface = strncpy sr_IFACE_NAMELEN iface\<rparr>"

text \<open>
  What \<^verbatim>\<open>sr_arpcache_queuereq\<close> does with a non-empty packet: the request it returns is the
  one for the address, new or old, with the packet added in front.
\<close>

definition queue_ok :: "env \<Rightarrow> nat \<Rightarrow> bool" where
  "queue_ok e n \<longleftrightarrow>
     malloc_ok e sizeof_sr_arpreq \<and> malloc_ok e sizeof_sr_packet \<and> malloc_ok e n \<and>
     malloc_ok e sr_IFACE_NAMELEN"

lemma env_ok_queue_ok [simp]: "env_ok e \<Longrightarrow> queue_ok e n"
  by (simp add: queue_ok_def)

definition add_packet :: "sr_packet \<Rightarrow> sr_arpreq \<Rightarrow> sr_arpreq" where
  "add_packet p r = r\<lparr>req_packets := p # req_packets r\<rparr>"

lemma keeps_id_add_packet [simp]: "keeps_id (add_packet p)"
  by (auto simp: add_packet_def)

definition new_request :: "sr_arpcache \<Rightarrow> u32 \<Rightarrow> sr_arpcache" where
  "new_request c ip =
     c\<lparr>requests := \<lparr>req_self = next_addr c, req_ip = ip, req_sent = 0, req_times_sent = 0,
                     req_packets = []\<rparr> # requests c,
       next_addr := Suc (next_addr c)\<rparr>"

lemma queuereq_eq:
  assumes "queue_ok e (length buf)" and "buf \<noteq> []"
  shows "sr_arpcache_queuereq e c ip buf (length buf) iface =
    Some (case find_req (requests c) ip of
            Some r \<Rightarrow> (req_self r, update_req (req_self r) (add_packet (queued_packet buf iface)) c)
          | None \<Rightarrow> (next_addr c, update_req (next_addr c) (add_packet (queued_packet buf iface))
                        (new_request c ip)))"
  using assms
  by (simp add: sr_arpcache_queuereq_def queue_ok_def load_in_bounds queued_packet_def
      add_packet_def [abs_def] new_request_def split: option.split)

lemma new_request_queue_inv:
  "queue_inv c \<Longrightarrow> find_req (requests c) ip = None \<Longrightarrow> queue_inv (new_request c ip)"
  by (auto simp: queue_inv_def new_request_def find_req_None_iff dest: less_SucI)

lemma new_request_table_inv [simp]: "table_inv (new_request c ip) = table_inv c"
  by (simp add: new_request_def table_inv_def)

lemma new_request_entries [simp]: "entries (new_request c ip) = entries c"
  by (simp add: new_request_def)

lemma queuereq_queue_inv:
  assumes "queue_inv c" and "sr_arpcache_queuereq e c ip buf n iface = Some (a, c')"
  shows "queue_inv c'"
proof -
  have kid: "keeps_id (\<lambda>r. r\<lparr>req_packets := p # req_packets r\<rparr>)" for p by auto
  obtain a1 c1 where one: "(case find_req (requests c) ip of
               Some r \<Rightarrow> Some (req_self r, c)
             | None \<Rightarrow> if malloc_ok e sizeof_sr_arpreq then Some (next_addr c, new_request c ip)
                       else None) = Some (a1, c1)"
    and two: "c' = c1 \<or> (\<exists>p. c' = update_req a1 (\<lambda>r. r\<lparr>req_packets := p # req_packets r\<rparr>) c1)"
    using assms(2)
    by (auto simp: sr_arpcache_queuereq_def new_request_def Let_def bind_eq_Some_conv
        split: if_splits option.splits)
  have "queue_inv c1"
    using one assms(1) new_request_queue_inv [of c ip] by (auto split: option.splits if_splits)
  with two update_req_queue_inv [OF kid] show ?thesis by auto
qed

lemma queuereq_entries:
  "sr_arpcache_queuereq e c ip buf n iface = Some (a, c') \<Longrightarrow> entries c' = entries c"
  by (auto simp: sr_arpcache_queuereq_def Let_def bind_eq_Some_conv
      split: if_splits option.splits)

lemma queuereq_inv:
  "cache_inv c \<Longrightarrow> sr_arpcache_queuereq e c ip buf n iface = Some (a, c') \<Longrightarrow> cache_inv c'"
  using queuereq_queue_inv [of c e ip buf n iface a c'] queuereq_entries [of e c ip buf n iface a c']
  by (simp add: cache_inv_def table_inv_def)

lemma queuereq_find:
  assumes inv: "queue_inv c" and ok: "queue_ok e (length buf)" "buf \<noteq> []"
  obtains a c' r where
    "sr_arpcache_queuereq e c ip buf (length buf) iface = Some (a, c')"
    "find_req (requests c') ip = Some r" "req_self r = a"
    "req_packets r = queued_packet buf iface #
       (case find_req (requests c) ip of None \<Rightarrow> [] | Some r0 \<Rightarrow> req_packets r0)"
    "req_times_sent r = (case find_req (requests c) ip of None \<Rightarrow> 0 | Some r0 \<Rightarrow> req_times_sent r0)"
    "req_sent r = (case find_req (requests c) ip of None \<Rightarrow> 0 | Some r0 \<Rightarrow> req_sent r0)"
    "\<And>ip'. ip' \<noteq> ip \<Longrightarrow> find_req (requests c') ip' = find_req (requests c) ip'"
proof (cases "find_req (requests c) ip")
  case (Some r0)
  have "req_self r \<noteq> req_self r0" if "find_req (requests c) ip' = Some r" "ip' \<noteq> ip" for ip' r
    using that Some inv by (auto simp: queue_inv_def distinct_map inj_on_def dest!: find_req_Some)
  then have "find_req (requests (update_req (req_self r0) (add_packet p) c)) ip' =
      find_req (requests c) ip'" if "ip' \<noteq> ip" for ip' p
    using that by (cases "find_req (requests c) ip'") (auto simp: find_req_update)
  with Some show thesis
    by (intro that [of "req_self r0" "update_req (req_self r0) (add_packet (queued_packet buf iface)) c"
          "add_packet (queued_packet buf iface) r0"])
      (auto simp: queuereq_eq [OF ok] find_req_update add_packet_def)
next
  case None
  have "req_self r \<noteq> next_addr c" if "find_req (requests c) ip' = Some r" for ip' r
    using that inv by (auto simp: queue_inv_def dest!: find_req_Some)
  then have "find_req (requests (update_req (next_addr c) (add_packet p) (new_request c ip))) ip' =
      find_req (requests c) ip'" if "ip' \<noteq> ip" for ip' p
    using that by (cases "find_req (requests c) ip'") (auto simp: find_req_update new_request_def)
  with None show thesis
    by (intro that [of "next_addr c" "update_req (next_addr c)
          (add_packet (queued_packet buf iface)) (new_request c ip)"
          "add_packet (queued_packet buf iface) \<lparr>req_self = next_addr c, req_ip = ip, req_sent = 0,
             req_times_sent = 0, req_packets = []\<rparr>"])
      (auto simp: queuereq_eq [OF ok] find_req_update new_request_def add_packet_def)
qed

lemma pending_queuereq:
  assumes "queue_inv c" and "queue_ok e (length buf)" "buf \<noteq> []"
    and "sr_arpcache_queuereq e c ip buf (length buf) iface = Some (a, c')"
  shows "pending c' = (pending c)(ip \<mapsto> queued_packet buf iface #
    (case pending c ip of None \<Rightarrow> [] | Some ps \<Rightarrow> ps))"
proof -
  obtain r where "find_req (requests c') ip = Some r"
    "req_packets r = queued_packet buf iface #
       (case find_req (requests c) ip of None \<Rightarrow> [] | Some r0 \<Rightarrow> req_packets r0)"
    "\<And>ip'. ip' \<noteq> ip \<Longrightarrow> find_req (requests c') ip' = find_req (requests c) ip'"
    using queuereq_find [OF assms(1-3), of ip iface] assms(4) by (metis option.inject prod.inject)
  then show ?thesis by (auto simp: pending_def fun_eq_iff split: option.splits)
qed

lemma find_req_filter_other:
  "ip' \<noteq> ip \<Longrightarrow> find_req (filter (\<lambda>r. req_ip r \<noteq> ip) rs) ip' = find_req rs ip'"
  by (induction rs) auto

lemma pending_insert:
  assumes "queue_inv c"
  shows "pending (snd (sr_arpcache_insert e c m ip)) = (pending c)(ip := None)"
proof
  fix ip'
  have reqs: "requests (snd (sr_arpcache_insert e c m ip)) = filter (\<lambda>r. req_ip r \<noteq> ip) (requests c)"
    using assms by (simp add: insert_requests snd_unlink_ip queue_inv_def)
  show "pending (snd (sr_arpcache_insert e c m ip)) ip' = ((pending c)(ip := None)) ip'"
    by (cases "ip' = ip") (auto simp: pending_def reqs find_req_filter_other find_req_None_iff)
qed

section \<open>The contracts\<close>

text \<open>
  What a client may rely on of the table of learned addresses: an insertion is seen by
  later lookups unless no slot was free, and it disturbs no other address.
\<close>

locale arp_table =
  fixes lookup :: "'c \<Rightarrow> u32 \<Rightarrow> mac option"
    and insert_mac :: "'c \<Rightarrow> mac \<Rightarrow> u32 \<Rightarrow> 'c"
    and full :: "'c \<Rightarrow> u32 \<Rightarrow> bool"
    and inv :: "'c \<Rightarrow> bool"
  assumes inv_insert: "inv c \<Longrightarrow> inv (insert_mac c m ip)"
    and lookup_same: "inv c \<Longrightarrow> \<not> full c ip \<Longrightarrow> lookup (insert_mac c m ip) ip = Some m"
    and lookup_other: "inv c \<Longrightarrow> ip' \<noteq> ip \<Longrightarrow> lookup (insert_mac c m ip) ip' = lookup c ip'"
    and lookup_full: "inv c \<Longrightarrow> full c ip \<Longrightarrow> lookup (insert_mac c m ip) ip = None"
    and full_None: "inv c \<Longrightarrow> full c ip \<Longrightarrow> lookup c ip = None"
begin

text \<open>The table as a map: an insertion is a map update, or nothing when the table is full.\<close>

lemma insert_refines_map:
  "inv c \<Longrightarrow>
   lookup (insert_mac c m ip) = (if full c ip then lookup c else (lookup c)(ip \<mapsto> m))"
proof
  fix ip' assume "inv c"
  then show "lookup (insert_mac c m ip) ip' =
      (if full c ip then lookup c else (lookup c)(ip \<mapsto> m)) ip'"
    by (cases "ip' = ip") (simp_all add: lookup_same lookup_other lookup_full full_None)
qed

lemma refresh: "inv c \<Longrightarrow> lookup c ip = Some m \<Longrightarrow> lookup (insert_mac c m' ip) = (lookup c)(ip \<mapsto> m')"
  using full_None [of c ip] by (simp add: insert_refines_map) (metis option.distinct(1))

lemma last_insert_wins:
  "inv c \<Longrightarrow> \<not> full c ip \<Longrightarrow> lookup (insert_mac (insert_mac c m ip) m' ip) ip = Some m'"
  by (simp add: refresh inv_insert lookup_same)

lemma nothing_forgotten: "inv c \<Longrightarrow> dom (lookup c) \<subseteq> dom (lookup (insert_mac c m ip))"
  by (auto simp: insert_refines_map)

end

text \<open>
  What a client may rely on of the queue: packets are kept under their address until
  they are taken out, all at once, by the answer for that address.
\<close>

locale request_queue =
  fixes waiting :: "'c \<Rightarrow> u32 \<Rightarrow> sr_packet list option"
    and enqueue :: "'c \<Rightarrow> u32 \<Rightarrow> u8 list \<Rightarrow> cstring \<Rightarrow> 'c"
    and release :: "'c \<Rightarrow> u32 \<Rightarrow> 'c"
    and inv :: "'c \<Rightarrow> bool"
  assumes inv_enqueue: "inv c \<Longrightarrow> buf \<noteq> [] \<Longrightarrow> inv (enqueue c ip buf iface)"
    and inv_release: "inv c \<Longrightarrow> inv (release c ip)"
    and waiting_enqueue: "inv c \<Longrightarrow> buf \<noteq> [] \<Longrightarrow> waiting (enqueue c ip buf iface) =
      (waiting c)(ip \<mapsto> queued_packet buf iface # (case waiting c ip of None \<Rightarrow> [] | Some ps \<Rightarrow> ps))"
    and waiting_release: "inv c \<Longrightarrow> waiting (release c ip) = (waiting c)(ip := None)"
begin

fun enqueue_all :: "'c \<Rightarrow> u32 \<Rightarrow> (u8 list \<times> cstring) list \<Rightarrow> 'c" where
  "enqueue_all c ip [] = c"
| "enqueue_all c ip ((buf, iface) # ps) = enqueue_all (enqueue c ip buf iface) ip ps"

lemma inv_enqueue_all: "inv c \<Longrightarrow> \<forall>(buf, iface) \<in> set ps. buf \<noteq> [] \<Longrightarrow> inv (enqueue_all c ip ps)"
  by (induction c ip ps rule: enqueue_all.induct) (auto simp: inv_enqueue)

text \<open>No packet is lost or duplicated, and the last one queued is the first in the list.\<close>

lemma waiting_enqueue_all:
  "inv c \<Longrightarrow> \<forall>(buf, iface) \<in> set ps. buf \<noteq> [] \<Longrightarrow> ps \<noteq> [] \<Longrightarrow>
   waiting (enqueue_all c ip ps) ip =
     Some (rev (map (\<lambda>(buf, iface). queued_packet buf iface) ps) @
           (case waiting c ip of None \<Rightarrow> [] | Some qs \<Rightarrow> qs))"
proof (induction c ip ps rule: enqueue_all.induct)
  case (2 c ip buf iface ps)
  then show ?case
    by (cases "ps = []") (auto simp: inv_enqueue waiting_enqueue split: option.split)
qed simp

lemma released_once: "inv c \<Longrightarrow> waiting (release c ip) ip = None"
  by (simp add: waiting_release)

lemma waiting_others:
  "inv c \<Longrightarrow> \<forall>(buf, iface) \<in> set ps. buf \<noteq> [] \<Longrightarrow> ip' \<noteq> ip \<Longrightarrow>
   waiting (enqueue_all c ip ps) ip' = waiting c ip'"
  by (induction c ip ps rule: enqueue_all.induct) (auto simp: inv_enqueue waiting_enqueue)

end

text \<open>The cache meets both contracts, whatever the clock says.\<close>

definition cache_learn :: "env \<Rightarrow> sr_arpcache \<Rightarrow> mac \<Rightarrow> u32 \<Rightarrow> sr_arpcache" where
  "cache_learn e c m ip = snd (sr_arpcache_insert e c m ip)"

interpretation tbl: arp_table arp_mac "cache_learn e" table_full table_inv for e
proof unfold_locales
  fix c m ip assume "table_inv c" "table_full c ip"
  then show "arp_mac (cache_learn e c m ip) ip = None"
    by (metis arp_mac_cong cache_learn_def full_unknown insert_full)
qed (simp_all add: cache_learn_def insert_table_inv arp_mac_insert_same arp_mac_insert_other full_unknown)

definition ideal_env :: env where
  "ideal_env = \<lparr>now = 0, tod = (0, 0), malloc_ok = (\<lambda>_. True), write_ret = int\<rparr>"

lemma ideal_env_ok [simp]: "env_ok ideal_env"
  by (simp add: env_ok_def ideal_env_def)

definition cache_queue :: "sr_arpcache \<Rightarrow> u32 \<Rightarrow> u8 list \<Rightarrow> cstring \<Rightarrow> sr_arpcache" where
  "cache_queue c ip buf iface =
     (case sr_arpcache_queuereq ideal_env c ip buf (length buf) iface of
        Some (a, c') \<Rightarrow> c' | None \<Rightarrow> c)"

definition cache_release :: "sr_arpcache \<Rightarrow> u32 \<Rightarrow> sr_arpcache" where
  "cache_release c ip = snd (sr_arpcache_insert ideal_env c (MAC 0 0 0 0 0 0) ip)"

interpretation rq: request_queue pending cache_queue cache_release cache_inv
proof unfold_locales
  fix c :: sr_arpcache and ip iface and buf :: "u8 list"
  assume inv: "cache_inv c"
  show "cache_inv (cache_release c ip)"
    using inv by (simp add: cache_inv_def cache_release_def insert_table_inv insert_queue_inv)
  show "pending (cache_release c ip) = (pending c)(ip := None)"
    using inv by (simp add: cache_inv_def cache_release_def pending_insert)
  assume buf: "buf \<noteq> []"
  have q: "queue_inv c" using inv by (simp add: cache_inv_def)
  obtain a c' where r: "sr_arpcache_queuereq ideal_env c ip buf (length buf) iface = Some (a, c')"
    using queuereq_eq [of ideal_env buf c ip iface] buf by fastforce
  show "cache_inv (cache_queue c ip buf iface)"
    and "pending (cache_queue c ip buf iface) = (pending c)(ip \<mapsto> queued_packet buf iface #
      (case pending c ip of None \<Rightarrow> [] | Some ps \<Rightarrow> ps))"
    using r queuereq_inv [OF inv r] pending_queuereq [OF q _ buf r] by (simp_all add: cache_queue_def)
qed

end
