(* ===== verification/Dumper.thy ===== *)
theory Dumper
  imports State
begin

text \<open>
  The packet dump of \<^verbatim>\<open>src/sr_dumper.c\<close> in tcpdump format. A file is the bytes written to it
  so far; the structures of \<^verbatim>\<open>src/sr_dumper.h\<close> are written in host (little-endian) order.
\<close>

section \<open>Structures and operations\<close>

definition TCPDUMP_MAGIC :: u32 where "TCPDUMP_MAGIC = 0xa1b2c3d4"
definition PCAP_VERSION_MAJOR :: u16 where "PCAP_VERSION_MAJOR = 2"
definition PCAP_VERSION_MINOR :: u16 where "PCAP_VERSION_MINOR = 4"
definition LINKTYPE_ETHERNET :: u32 where "LINKTYPE_ETHERNET = 1"

record pcap_file_header =
  magic :: u32
  version_major :: u16
  version_minor :: u16
  thiszone :: u32
  sigfigs :: u32
  snaplen :: u32
  linktype :: u32

definition enc_file_header :: "pcap_file_header \<Rightarrow> u8 list" where
  "enc_file_header h =
     bytes32 (magic h) @ bytes16 (version_major h) @ bytes16 (version_minor h) @
     bytes32 (thiszone h) @ bytes32 (sigfigs h) @ bytes32 (snaplen h) @ bytes32 (linktype h)"

definition dec_file_header :: "u8 list \<Rightarrow> pcap_file_header" where
  "dec_file_header bs =
     \<lparr>magic = le32 (bs ! 0) (bs ! 1) (bs ! 2) (bs ! 3),
      version_major = le16 (bs ! 4) (bs ! 5), version_minor = le16 (bs ! 6) (bs ! 7),
      thiszone = le32 (bs ! 8) (bs ! 9) (bs ! 10) (bs ! 11),
      sigfigs = le32 (bs ! 12) (bs ! 13) (bs ! 14) (bs ! 15),
      snaplen = le32 (bs ! 16) (bs ! 17) (bs ! 18) (bs ! 19),
      linktype = le32 (bs ! 20) (bs ! 21) (bs ! 22) (bs ! 23)\<rparr>"

text \<open>\<^verbatim>\<open>struct pcap_pkthdr\<close> holds the time as two longs, the stored header as two ints.\<close>

record pcap_pkthdr =
  ts :: "int \<times> int"
  caplen :: u32
  pcap_len :: u32

record pcap_sf_pkthdr =
  sf_tv_sec :: u32
  sf_tv_usec :: u32
  sf_caplen :: u32
  sf_len :: u32

definition enc_sf_pkthdr :: "pcap_sf_pkthdr \<Rightarrow> u8 list" where
  "enc_sf_pkthdr h =
     bytes32 (sf_tv_sec h) @ bytes32 (sf_tv_usec h) @ bytes32 (sf_caplen h) @ bytes32 (sf_len h)"

definition dec_sf_pkthdr :: "u8 list \<Rightarrow> pcap_sf_pkthdr" where
  "dec_sf_pkthdr bs =
     \<lparr>sf_tv_sec = le32 (bs ! 0) (bs ! 1) (bs ! 2) (bs ! 3),
      sf_tv_usec = le32 (bs ! 4) (bs ! 5) (bs ! 6) (bs ! 7),
      sf_caplen = le32 (bs ! 8) (bs ! 9) (bs ! 10) (bs ! 11),
      sf_len = le32 (bs ! 12) (bs ! 13) (bs ! 14) (bs ! 15)\<rparr>"

definition sf_write_header :: "u8 list \<Rightarrow> u32 \<Rightarrow> int \<Rightarrow> int \<Rightarrow> u8 list" where
  "sf_write_header fp ltype zone snap =
     fp @ enc_file_header
       \<lparr>magic = TCPDUMP_MAGIC, version_major = PCAP_VERSION_MAJOR,
        version_minor = PCAP_VERSION_MINOR, thiszone = word_of_int zone, sigfigs = 0,
        snaplen = word_of_int snap, linktype = ltype\<rparr>"

text \<open>\<open>fopen_ok\<close>: whether the file could be opened; the name \<^verbatim>\<open>-\<close> is standard output.\<close>

definition sr_dump_open :: "bool \<Rightarrow> cstring \<Rightarrow> int \<Rightarrow> int \<Rightarrow> u8 list option" where
  "sr_dump_open fopen_ok fname zone snap =
     (if fname = ''-'' \<or> fopen_ok then Some (sf_write_header [] LINKTYPE_ETHERNET zone snap)
      else None)"

definition sr_dump :: "u8 list \<Rightarrow> pcap_pkthdr \<Rightarrow> u8 list \<Rightarrow> u8 list option" where
  "sr_dump fp h sp =
     (let sf_hdr = \<lparr>sf_tv_sec = word_of_int (fst (ts h)), sf_tv_usec = word_of_int (snd (ts h)),
                    sf_caplen = caplen h, sf_len = pcap_len h\<rparr>
      in map_option (\<lambda>data. fp @ enc_sf_pkthdr sf_hdr @ data) (load sp 0 (unat (caplen h))))"

section \<open>Reading a dump back\<close>

interpretation pfh: wire_struct enc_file_header dec_file_header 24
proof unfold_locales
  fix h :: pcap_file_header
  show "dec_file_header (enc_file_header h) = h"
    by (simp add: enc_file_header_def dec_file_header_def bytes16_def bytes32_def wire)
next
  fix bs :: "u8 list" assume "length bs = 24"
  then show "enc_file_header (dec_file_header bs) = bs"
    by (rule list_by_nthI)
      (simp_all add: enc_file_header_def dec_file_header_def bytes16_def bytes32_def wire)
qed (simp add: enc_file_header_def)

interpretation sfh: wire_struct enc_sf_pkthdr dec_sf_pkthdr 16
proof unfold_locales
  fix h :: pcap_sf_pkthdr
  show "dec_sf_pkthdr (enc_sf_pkthdr h) = h"
    by (simp add: enc_sf_pkthdr_def dec_sf_pkthdr_def bytes32_def wire)
next
  fix bs :: "u8 list" assume "length bs = 16"
  then show "enc_sf_pkthdr (dec_sf_pkthdr bs) = bs"
    by (rule list_by_nthI) (simp_all add: enc_sf_pkthdr_def dec_sf_pkthdr_def bytes32_def wire)
qed (simp add: enc_sf_pkthdr_def)

text \<open>A reader of the format: the records that follow the file header.\<close>

fun read_records :: "nat \<Rightarrow> u8 list \<Rightarrow> (pcap_sf_pkthdr \<times> u8 list) list option" where
  "read_records 0 bs = None"
| "read_records (Suc fuel) bs =
     (if bs = [] then Some []
      else do { h \<leftarrow> ld dec_sf_pkthdr 16 bs 0;
                data \<leftarrow> load bs 16 (unat (sf_caplen h));
                rest \<leftarrow> read_records fuel (drop (16 + unat (sf_caplen h)) bs);
                Some ((h, data) # rest) })"

definition read_dump :: "u8 list \<Rightarrow> (pcap_file_header \<times> (pcap_sf_pkthdr \<times> u8 list) list) option" where
  "read_dump bs =
     do { h \<leftarrow> ld dec_file_header 24 bs 0;
          recs \<leftarrow> read_records (Suc (length bs)) (drop 24 bs);
          Some (h, recs) }"

lemma ld_append: "length (enc h) = n \<Longrightarrow> dec (enc h) = h \<Longrightarrow> ld dec n (enc h @ rest) 0 = Some h"
  by (simp add: ld_def load_def)

text \<open>Records in the file, as bytes.\<close>

definition rec_bytes :: "pcap_sf_pkthdr \<times> u8 list \<Rightarrow> u8 list" where
  "rec_bytes r = enc_sf_pkthdr (fst r) @ snd r"

definition rec_ok :: "pcap_sf_pkthdr \<times> u8 list \<Rightarrow> bool" where
  "rec_ok r \<longleftrightarrow> unat (sf_caplen (fst r)) = length (snd r)"

lemma read_records_bytes:
  "\<forall>r \<in> set rs. rec_ok r \<Longrightarrow> length rs < fuel \<Longrightarrow>
   read_records fuel (concat (map rec_bytes rs)) = Some rs"
proof (induction rs arbitrary: fuel)
  case Nil
  then show ?case by (cases fuel) simp_all
next
  case (Cons r rs)
  obtain f where f: "fuel = Suc f" using Cons.prems(2) by (cases fuel) auto
  obtain h data where r: "r = (h, data)" by (cases r)
  have n: "unat (sf_caplen h) = length data" using Cons.prems(1) r by (simp add: rec_ok_def)
  have "read_records f (concat (map rec_bytes rs)) = Some rs" using Cons f by simp
  moreover have "ld dec_sf_pkthdr 16 (enc_sf_pkthdr h @ data @ concat (map rec_bytes rs)) 0 = Some h"
    by (simp add: ld_append sfh.length_enc sfh.dec_enc)
  moreover have "enc_sf_pkthdr h \<noteq> []" using sfh.length_enc [of h] by auto
  moreover have "rec_bytes r = enc_sf_pkthdr h @ data" by (simp add: r rec_bytes_def)
  ultimately show ?case
    using r by (simp add: f n load_def sfh.length_enc)
qed

lemma length_rec_bytes: "length rs \<le> length (concat (map rec_bytes rs))"
  by (induction rs) (auto simp: rec_bytes_def sfh.length_enc)

lemma read_dump_bytes:
  assumes "\<forall>r \<in> set rs. rec_ok r"
  shows "read_dump (enc_file_header h @ concat (map rec_bytes rs)) = Some (h, rs)"
proof -
  have "length rs < Suc (length (enc_file_header h @ concat (map rec_bytes rs)))"
    using length_rec_bytes [of rs] by simp
  from read_records_bytes [OF assms this] show ?thesis
    by (simp add: read_dump_def ld_append pfh.length_enc pfh.dec_enc)
qed

end
