(* ===== verification/Vns_Send.thy ===== *)
theory Vns_Send
  imports Interfaces Dumper
begin

text \<open>
  The sending half of \<^verbatim>\<open>src/sr_vns_comm.c\<close>: wrapping a frame into a \<^verbatim>\<open>VNSPACKET\<close> message,
  logging it, checking its source address against the interface and writing it to the
  server socket. \<^verbatim>\<open>sr_send_packet\<close> is the only way the router puts a frame on a wire.
\<close>

section \<open>Operations\<close>

definition VNSPACKET :: u32 where "VNSPACKET = 4"

definition char_byte :: "char \<Rightarrow> u8" where
  "char_byte c = of_nat (of_char c)"

text \<open>\<^verbatim>\<open>strncpy\<close> into a \<^verbatim>\<open>char[n]\<close> field of a message: padded with NULs up to \<open>n\<close>.\<close>

definition strncpy_field :: "nat \<Rightarrow> cstring \<Rightarrow> u8 list" where
  "strncpy_field n s = map char_byte (take n s) @ replicate (n - length s) 0"

lemma length_strncpy_field [simp]: "length (strncpy_field n s) = n"
  by (simp add: strncpy_field_def)

definition sizeof_c_packet_header :: nat where "sizeof_c_packet_header = 24"

text \<open>The length is a C \<^verbatim>\<open>int\<close> here.\<close>

definition sr_log_packet :: "env \<Rightarrow> sr_instance \<Rightarrow> u8 list \<Rightarrow> int \<Rightarrow> sr_instance option" where
  "sr_log_packet e sr buf len =
     (case logfile sr of
        None \<Rightarrow> Some sr
      | Some fp \<Rightarrow>
          let size = min (int PACKET_DUMP_SIZE) len;
              h = \<lparr>ts = tod e, caplen = word_of_int size,
                   pcap_len = word_of_int (if size < int PACKET_DUMP_SIZE then size
                     else int PACKET_DUMP_SIZE)\<rparr>
          in do { fp' \<leftarrow> sr_dump fp h buf; Some (sr\<lparr>logfile := Some fp'\<rparr>) })"

definition sr_ether_addrs_match_interface ::
  "sr_instance \<Rightarrow> u8 list \<Rightarrow> cstring \<Rightarrow> bool option" where
  "sr_ether_addrs_match_interface sr buf name =
     (case sr_get_interface sr name of
        None \<Rightarrow> Some False
      | Some iface \<Rightarrow>
          do { ether_hdr \<leftarrow> ld_eth buf 0;
               if ether_shost ether_hdr \<noteq> if_addr iface then Some False else Some True })"

text \<open>The message: \<^verbatim>\<open>c_packet_header\<close>, then the frame.\<close>

definition vns_packet :: "cstring \<Rightarrow> u8 list \<Rightarrow> u8 list" where
  "vns_packet iface fr =
     bytes32 (htonl (of_nat (length fr + sizeof_c_packet_header))) @ bytes32 (htonl VNSPACKET) @
     strncpy_field 16 iface @ fr"

definition sr_send_packet ::
  "env \<Rightarrow> sr_instance \<Rightarrow> u8 list \<Rightarrow> nat \<Rightarrow> cstring \<Rightarrow> (int \<times> sr_instance) option" where
  "sr_send_packet e sr buf len iface =
     (let total_len = unat (of_nat (len + sizeof_c_packet_header) :: u32) in
      if len < 14 then Some (- 1, sr)
      else if \<not> malloc_ok e (len + sizeof_c_packet_header) then None
      else do {
        fr \<leftarrow> load buf 0 len;
        let sr_pkt = vns_packet iface fr;
        sr \<leftarrow> sr_log_packet e sr buf (sint (of_nat len :: u32));
        match \<leftarrow> sr_ether_addrs_match_interface sr buf iface;
        if \<not> match then Some (- 1, sr)
        else
          let n = write_ret e total_len;
              sr = sr\<lparr>sock_out := sock_out sr @ [take (nat n) (take total_len sr_pkt)]\<rparr>
          in if n < int total_len then Some (- 1, sr) else Some (0, sr) })"

section \<open>What sending changes\<close>

text \<open>Only the log and the socket.\<close>

definition same_config :: "sr_instance \<Rightarrow> sr_instance \<Rightarrow> bool" where
  "same_config sr sr' \<longleftrightarrow>
     if_list sr' = if_list sr \<and> routing_table sr' = routing_table sr \<and> sockfd sr' = sockfd sr \<and>
     user sr' = user sr \<and> host sr' = host sr \<and> template sr' = template sr \<and>
     topo_id sr' = topo_id sr"

lemma same_config_refl [simp]: "same_config sr sr"
  by (simp add: same_config_def)

lemma same_config_trans: "same_config a b \<Longrightarrow> same_config b c \<Longrightarrow> same_config a c"
  by (simp add: same_config_def)

lemma same_config_update [simp]:
  "same_config sr (sr'\<lparr>cache := c\<rparr>) = same_config sr sr'"
  "same_config sr (sr'\<lparr>sock_out := out\<rparr>) = same_config sr sr'"
  "same_config sr (sr'\<lparr>logfile := lf\<rparr>) = same_config sr sr'"
  by (simp_all add: same_config_def)

lemma same_config_lookups:
  assumes "same_config sr sr'"
  shows "sr_get_interface sr' name = sr_get_interface sr name"
    and "sr_is_router_ip sr' ip = sr_is_router_ip sr ip"
    and "sr_find_iface_by_mac sr' m = sr_find_iface_by_mac sr m"
  using assms
  by (simp_all add: same_config_def sr_get_interface_def sr_is_router_ip_def
      sr_find_iface_by_mac_def)

lemma sr_log_packet_frame:
  "sr_log_packet e sr buf len = Some sr' \<Longrightarrow>
   same_config sr sr' \<and> cache sr' = cache sr \<and> sock_out sr' = sock_out sr"
  by (auto simp: sr_log_packet_def Let_def bind_eq_Some_conv split: option.splits)

lemma sr_send_packet_frame:
  "sr_send_packet e sr buf len iface = Some (r, sr') \<Longrightarrow>
   same_config sr sr' \<and> cache sr' = cache sr"
  by (auto simp: sr_send_packet_def Let_def bind_eq_Some_conv split: if_splits
      dest: sr_log_packet_frame)

text \<open>The record a frame leaves in the log.\<close>

definition log_record :: "env \<Rightarrow> u8 list \<Rightarrow> pcap_sf_pkthdr \<times> u8 list" where
  "log_record e fr =
     (let n = min PACKET_DUMP_SIZE (length fr) in
      (\<lparr>sf_tv_sec = word_of_int (fst (tod e)), sf_tv_usec = word_of_int (snd (tod e)),
        sf_caplen = of_nat n, sf_len = of_nat n\<rparr>, take n fr))"

definition log_frame :: "env \<Rightarrow> u8 list \<Rightarrow> u8 list option \<Rightarrow> u8 list option" where
  "log_frame e fr lf = map_option (\<lambda>fp. fp @ rec_bytes (log_record e fr)) lf"

lemma unat_of_nat_dump: "unat (of_nat (min PACKET_DUMP_SIZE n) :: u32) = min PACKET_DUMP_SIZE n"
  by (simp add: unat_of_nat PACKET_DUMP_SIZE_def)

lemma rec_ok_log_record: "rec_ok (log_record e fr)"
  by (simp add: rec_ok_def log_record_def Let_def unat_of_nat_dump)

lemma sint_of_nat_len: "n < 2 ^ 31 \<Longrightarrow> sint (of_nat n :: u32) = int n"
  by (simp add: signed_of_nat signed_take_bit_int_eq_self)

lemma sr_log_packet_eq:
  "sr_log_packet e sr buf (int (length buf)) = Some (sr\<lparr>logfile := log_frame e buf (logfile sr)\<rparr>)"
proof (cases "logfile sr")
  case None
  then show ?thesis by (simp add: sr_log_packet_def log_frame_def)
next
  case (Some fp)
  let ?n = "min PACKET_DUMP_SIZE (length buf)"
  have n: "min (int PACKET_DUMP_SIZE) (int (length buf)) = int ?n" by simp
  have m: "(if int ?n < int PACKET_DUMP_SIZE then int ?n else int PACKET_DUMP_SIZE) = int ?n" by simp
  show ?thesis
    unfolding sr_log_packet_def n m Let_def Some
    by (simp add: sr_dump_def Let_def unat_of_nat_dump load_in_bounds log_frame_def rec_bytes_def
        log_record_def del: of_nat_min min_less_iff_conj)
qed

text \<open>The state after a frame was logged and written in full.\<close>

definition emit :: "env \<Rightarrow> cstring \<Rightarrow> u8 list \<Rightarrow> sr_instance \<Rightarrow> sr_instance" where
  "emit e iface fr sr =
     sr\<lparr>logfile := log_frame e fr (logfile sr), sock_out := sock_out sr @ [vns_packet iface fr]\<rparr>"

lemma emit_simps [simp]:
  "if_list (emit e iface fr sr) = if_list sr"
  "routing_table (emit e iface fr sr) = routing_table sr"
  "cache (emit e iface fr sr) = cache sr"
  "sock_out (emit e iface fr sr) = sock_out sr @ [vns_packet iface fr]"
  "same_config sr' (emit e iface fr sr) = same_config sr' sr"
  by (simp_all add: emit_def)

lemma length_vns_packet [simp]: "length (vns_packet iface fr) = length fr + sizeof_c_packet_header"
  by (simp add: vns_packet_def sizeof_c_packet_header_def)

lemma sr_send_packet_ok:
  assumes "env_ok e" and "14 \<le> length fr" and "length fr < 2 ^ 31"
    and "sr_get_interface sr iface = Some i"
    and "ld_eth fr 0 = Some h" and "ether_shost h = if_addr i"
  shows "sr_send_packet e sr fr (length fr) iface = Some (0, emit e iface fr sr)"
proof -
  have "unat (of_nat (length fr + sizeof_c_packet_header) :: u32) = length fr + sizeof_c_packet_header"
    using assms(3) by (simp add: unat_of_nat sizeof_c_packet_header_def del: of_nat_add)
  with assms show ?thesis
    by (simp add: sr_send_packet_def load_in_bounds sint_of_nat_len sr_log_packet_eq
        sr_ether_addrs_match_interface_def emit_def del: of_nat_add)
qed

text \<open>Logging a sequence of frames.\<close>

fun log_frames :: "sr_instance \<Rightarrow> (env \<times> u8 list) list \<Rightarrow> sr_instance option" where
  "log_frames sr [] = Some sr"
| "log_frames sr ((e, fr) # rest) =
     do { sr \<leftarrow> sr_log_packet e sr fr (int (length fr)); log_frames sr rest }"

lemma log_frames_eq:
  "logfile sr = Some fp \<Longrightarrow>
   log_frames sr efs = Some (sr\<lparr>logfile :=
     Some (fp @ concat (map rec_bytes (map (\<lambda>(e, fr). log_record e fr) efs)))\<rparr>)"
proof (induction efs arbitrary: sr fp)
  case (Cons ef efs)
  obtain e fr where ef: "ef = (e, fr)" by (cases ef)
  have "sr_log_packet e sr fr (int (length fr)) = Some (sr\<lparr>logfile := Some (fp @ rec_bytes (log_record e fr))\<rparr>)"
    using Cons.prems by (simp add: sr_log_packet_eq log_frame_def)
  with Cons.IH [of "sr\<lparr>logfile := Some (fp @ rec_bytes (log_record e fr))\<rparr>"] ef show ?case by simp
qed simp

text \<open>What can reach the socket.\<close>

lemma sr_send_packet_writes:
  assumes "sr_send_packet e sr buf (length buf) iface = Some (r, sr')" and "sock_out sr' \<noteq> sock_out sr"
  shows "\<exists>i h n. sr_get_interface sr iface = Some i \<and> ld_eth buf 0 = Some h \<and> ether_shost h = if_addr i \<and>
    sock_out sr' = sock_out sr @ [take n (vns_packet iface buf)]"
proof -
  have buf: "load buf 0 (length buf) = Some buf" by (simp add: load_def)
  have long: "\<not> length buf < 14" "malloc_ok e (length buf + sizeof_c_packet_header)"
    using assms by (auto simp: sr_send_packet_def Let_def split: if_splits)
  then obtain sr1 ok where sr1: "sr_log_packet e sr buf (sint (of_nat (length buf) :: u32)) = Some sr1"
      "sr_ether_addrs_match_interface sr1 buf iface = Some ok"
    using assms(1) buf by (auto simp: sr_send_packet_def Let_def bind_eq_Some_conv)
  have res: "if ok then \<exists>n. sock_out sr' = sock_out sr1 @ [take n (vns_packet iface buf)] else sr' = sr1"
    using assms(1) buf long sr1
    by (auto simp: sr_send_packet_def Let_def take_take split: if_splits
        intro!: exI [of _ "min a b" for a b])
  have f: "same_config sr sr1" "sock_out sr1 = sock_out sr"
    using sr_log_packet_frame [OF sr1(1)] by simp_all
  have ok using res assms(2) f(2) by (cases ok) auto
  with res have "\<exists>n. sock_out sr' = sock_out sr1 @ [take n (vns_packet iface buf)]" by simp
  moreover have "\<exists>i h. sr_get_interface sr iface = Some i \<and> ld_eth buf 0 = Some h \<and> ether_shost h = if_addr i"
    using sr1(2) \<open>ok\<close> same_config_lookups(1) [OF f(1)]
    by (auto simp: sr_ether_addrs_match_interface_def bind_eq_Some_conv split: option.splits if_splits)
  ultimately show ?thesis using f(2) by auto
qed

end
