(* ===== verification/Router.thy ===== *)
theory Router
  imports Routing Arpcache Vns_Send
begin

text \<open>
  The packet handlers of \<^verbatim>\<open>src/sr_router.c\<close>, from \<^verbatim>\<open>sr_handlepacket\<close> down to the frames
  that go out, and \<^verbatim>\<open>sr_arpcache_send_arp_request\<close> of \<^verbatim>\<open>src/sr_arpcache.c\<close>. A packet is the
  buffer the pointer points to together with the length the caller passes; every header
  access is bounds-checked, so \<open>None\<close> is an access outside a buffer, a null pointer, or a
  failed \<^verbatim>\<open>assert\<close>.
\<close>

section \<open>Validation\<close>

text \<open>Subtraction of two lengths held in \<^verbatim>\<open>unsigned int\<close> variables.\<close>

definition u32_sub :: "nat \<Rightarrow> nat \<Rightarrow> nat" where
  "u32_sub a b = unat (of_nat a - of_nat b :: u32)"

lemma u32_sub_exact:
  assumes "b \<le> a" and "a < 2 ^ 32"
  shows "u32_sub a b = a - b"
proof -
  have "unat (of_nat a :: u32) = a" "unat (of_nat b :: u32) = b"
    using assms by (simp_all add: unat_of_nat)
  with assms(1) show ?thesis by (simp add: u32_sub_def unat_sub_if_size)
qed

definition sr_valid_ip_packet :: "u8 list \<Rightarrow> nat \<Rightarrow> (bool \<times> u8 list) option" where
  "sr_valid_ip_packet packet len =
     (if len < 14 + 20 then Some (False, packet)
      else do {
        ip_hdr \<leftarrow> ld_ip packet 14;
        let ip_header_len = unat (ip_hl ip_hdr) * 4;
        if ip_v ip_hdr \<noteq> 4 \<or> ip_header_len < 20 \<or> len < 14 + ip_header_len \<or>
           unat (ntohs (ip_len ip_hdr)) < ip_header_len \<or>
           len < 14 + unat (ntohs (ip_len ip_hdr))
        then Some (False, packet)
        else do {
          let received_sum = ip_sum ip_hdr;
          packet \<leftarrow> st_ip packet 14 (ip_hdr\<lparr>ip_sum := 0\<rparr>);
          computed_sum \<leftarrow> cksum_at packet 14 ip_header_len;
          ip_hdr \<leftarrow> ld_ip packet 14;
          packet \<leftarrow> st_ip packet 14 (ip_hdr\<lparr>ip_sum := received_sum\<rparr>);
          Some (received_sum = computed_sum, packet) } })"

definition sr_find_icmp_source_iface ::
  "sr_instance \<Rightarrow> sr_ethernet_hdr \<Rightarrow> u32 \<Rightarrow> sr_if option" where
  "sr_find_icmp_source_iface sr eth_hdr ip_source =
     (case sr_find_iface_by_mac sr (ether_shost eth_hdr) of
        Some iface \<Rightarrow> Some iface
      | None \<Rightarrow>
          (case sr_find_iface_by_mac sr (ether_dhost eth_hdr) of
             Some iface \<Rightarrow> Some iface
           | None \<Rightarrow>
               (case sr_find_lpm_route sr ip_source of
                  None \<Rightarrow> None
                | Some route \<Rightarrow> sr_get_interface sr (rt_interface route))))"

section \<open>ARP\<close>

definition sr_send_arp_reply ::
  "env \<Rightarrow> sr_instance \<Rightarrow> sr_arp_hdr \<Rightarrow> cstring \<Rightarrow> sr_instance option" where
  "sr_send_arp_reply e sr arp_hdr interface =
     (case sr_get_interface sr interface of
        None \<Rightarrow> Some sr
      | Some out_iface \<Rightarrow>
          if \<not> malloc_ok e 42 then Some sr
          else do {
            let reply = replicate 42 0;
            reply \<leftarrow> st_eth reply 0
              \<lparr>ether_dhost = ar_sha arp_hdr, ether_shost = if_addr out_iface,
               ether_type = htons ethertype_arp\<rparr>;
            reply \<leftarrow> st_arp reply 14
              \<lparr>ar_hrd = htons arp_hrd_ethernet, ar_pro = htons ethertype_ip,
               ar_hln = of_nat ETHER_ADDR_LEN, ar_pln = 4, ar_op = htons arp_op_reply,
               ar_sha = if_addr out_iface, ar_sip = if_ip out_iface,
               ar_tha = ar_sha arp_hdr, ar_tip = ar_sip arp_hdr\<rparr>;
            (_, sr) \<leftarrow> sr_send_packet e sr reply 42 interface;
            Some sr })"

definition sr_send_arp_request ::
  "env \<Rightarrow> sr_instance \<Rightarrow> u32 \<Rightarrow> cstring \<Rightarrow> sr_instance option" where
  "sr_send_arp_request e sr ip iface =
     (case sr_get_interface sr iface of
        None \<Rightarrow> Some sr
      | Some out_iface \<Rightarrow>
          if \<not> malloc_ok e 42 then Some sr
          else do {
            let request = replicate 42 0;
            request \<leftarrow> st_eth request 0
              \<lparr>ether_dhost = broadcast, ether_shost = if_addr out_iface,
               ether_type = htons ethertype_arp\<rparr>;
            request \<leftarrow> st_arp request 14
              \<lparr>ar_hrd = htons arp_hrd_ethernet, ar_pro = htons ethertype_ip,
               ar_hln = of_nat ETHER_ADDR_LEN, ar_pln = 4, ar_op = htons arp_op_request,
               ar_sha = if_addr out_iface, ar_sip = if_ip out_iface,
               ar_tha = MAC 0 0 0 0 0 0, ar_tip = ip\<rparr>;
            (_, sr) \<leftarrow> sr_send_packet e sr request 42 iface;
            Some sr })"

text \<open>The copy of it that \<^verbatim>\<open>src/sr_arpcache.c\<close> has for its own use.\<close>

definition sr_arpcache_send_arp_request ::
  "env \<Rightarrow> sr_instance \<Rightarrow> u32 \<Rightarrow> cstring \<Rightarrow> sr_instance option" where
  "sr_arpcache_send_arp_request e sr ip iface =
     (case sr_get_interface sr iface of
        None \<Rightarrow> Some sr
      | Some out_iface \<Rightarrow>
          if \<not> malloc_ok e 42 then Some sr
          else do {
            let request = replicate 42 0;
            request \<leftarrow> st_eth request 0
              \<lparr>ether_dhost = broadcast, ether_shost = if_addr out_iface,
               ether_type = htons ethertype_arp\<rparr>;
            request \<leftarrow> st_arp request 14
              \<lparr>ar_hrd = htons arp_hrd_ethernet, ar_pro = htons ethertype_ip,
               ar_hln = of_nat ETHER_ADDR_LEN, ar_pln = 4, ar_op = htons arp_op_request,
               ar_sha = if_addr out_iface, ar_sip = if_ip out_iface,
               ar_tha = MAC 0 0 0 0 0 0, ar_tip = ip\<rparr>;
            (_, sr) \<leftarrow> sr_send_packet e sr request 42 iface;
            Some sr })"

text \<open>The loop of \<^verbatim>\<open>sr_cache_arp_mapping\<close> over the packets that waited for the answer.\<close>

fun flush_packets :: "env \<Rightarrow> sr_instance \<Rightarrow> mac \<Rightarrow> sr_packet list \<Rightarrow> sr_instance option" where
  "flush_packets e sr sha [] = Some sr"
| "flush_packets e sr sha (queued_pkt # rest) =
     do { sr \<leftarrow>
            (case sr_get_interface sr (pkt_iface queued_pkt) of
               None \<Rightarrow> Some sr
             | Some out_iface \<Rightarrow>
                 do { eth_hdr \<leftarrow> ld_eth (pkt_buf queued_pkt) 0;
                      buf \<leftarrow> st_eth (pkt_buf queued_pkt) 0
                        (eth_hdr\<lparr>ether_dhost := sha, ether_shost := if_addr out_iface\<rparr>);
                      (_, sr) \<leftarrow> sr_send_packet e sr buf (pkt_len queued_pkt) (pkt_iface queued_pkt);
                      Some sr });
          flush_packets e sr sha rest }"

definition sr_cache_arp_mapping :: "env \<Rightarrow> sr_instance \<Rightarrow> sr_arp_hdr \<Rightarrow> sr_instance option" where
  "sr_cache_arp_mapping e sr arp_hdr =
     (let (req, c) = sr_arpcache_insert e (cache sr) (ar_sha arp_hdr) (ar_sip arp_hdr);
          sr = sr\<lparr>cache := c\<rparr>
      in case req of
           None \<Rightarrow> Some sr
         | Some req \<Rightarrow>
             do { sr \<leftarrow> flush_packets e sr (ar_sha arp_hdr) (req_packets req);
                  Some (sr\<lparr>cache := sr_arpreq_destroy (cache sr) (req_self req)\<rparr>) })"

definition sr_handle_arp ::
  "env \<Rightarrow> sr_instance \<Rightarrow> u8 list \<Rightarrow> nat \<Rightarrow> cstring \<Rightarrow> sr_instance option" where
  "sr_handle_arp e sr packet len interface =
     (if len < 14 + 28 then Some sr
      else do {
        arp_hdr \<leftarrow> ld_arp packet 14;
        (case sr_get_interface sr interface of
           None \<Rightarrow> Some sr
         | Some recv_iface \<Rightarrow>
             if ar_sip arp_hdr = 0 then Some sr
             else if ntohs (ar_op arp_hdr) = arp_op_request then
               do { sr \<leftarrow> sr_cache_arp_mapping e sr arp_hdr;
                    if ar_tip arp_hdr = if_ip recv_iface
                    then sr_send_arp_reply e sr arp_hdr interface else Some sr }
             else if ntohs (ar_op arp_hdr) = arp_op_reply then
               if \<not> sr_is_router_ip sr (ar_tip arp_hdr) then Some sr
               else sr_cache_arp_mapping e sr arp_hdr
             else Some sr) })"

section \<open>Sending IP packets\<close>

definition mark_sent :: "env \<Rightarrow> sr_arpreq \<Rightarrow> sr_arpreq" where
  "mark_sent e r = r\<lparr>req_sent := now e, req_times_sent := req_times_sent r + 1\<rparr>"

definition sr_send_routed_ip_packet ::
  "env \<Rightarrow> sr_instance \<Rightarrow> u8 list \<Rightarrow> nat \<Rightarrow> sr_instance option" where
  "sr_send_routed_ip_packet e sr packet len =
     do { ip_hdr \<leftarrow> ld_ip packet 14;
          (case sr_find_lpm_route sr (ip_dst ip_hdr) of
             None \<Rightarrow> Some sr
           | Some route \<Rightarrow>
             (case sr_get_interface sr (rt_interface route) of
                None \<Rightarrow> Some sr
              | Some out_iface \<Rightarrow>
                if \<not> malloc_ok e len then Some sr
                else do {
                  forwarded_packet \<leftarrow> load packet 0 len;
                  eth_hdr \<leftarrow> ld_eth forwarded_packet 0;
                  forwarded_packet \<leftarrow> st_eth forwarded_packet 0
                    (eth_hdr\<lparr>ether_shost := if_addr out_iface\<rparr>);
                  let next_hop_ip = (if rt_gw route \<noteq> 0 then rt_gw route else ip_dst ip_hdr);
                  entry \<leftarrow> sr_arpcache_lookup e (cache sr) next_hop_ip;
                  (case entry of
                     Some en \<Rightarrow>
                       do { eth_hdr \<leftarrow> ld_eth forwarded_packet 0;
                            forwarded_packet \<leftarrow> st_eth forwarded_packet 0
                              (eth_hdr\<lparr>ether_dhost := ent_mac en, ether_shost := if_addr out_iface\<rparr>);
                            (_, sr) \<leftarrow> sr_send_packet e sr forwarded_packet len (if_name out_iface);
                            Some sr }
                   | None \<Rightarrow>
                       do { (req, c) \<leftarrow> sr_arpcache_queuereq e (cache sr) next_hop_ip
                              forwarded_packet len (if_name out_iface);
                            let sr = sr\<lparr>cache := c\<rparr>;
                            r \<leftarrow> deref_req c req;
                            if req_times_sent r = 0 then
                              do { sr \<leftarrow> sr_send_arp_request e sr (req_ip r) (if_name out_iface);
                                   Some (sr\<lparr>cache := update_req req (mark_sent e) (cache sr)\<rparr>) }
                            else Some sr }) })) }"

text \<open>
  The message that \<^verbatim>\<open>sr_send_icmp_error\<close> makes up, if the packet is valid, an interface is found and
  there is memory for it; and the function itself, which sends it.
\<close>

definition icmp_error_packet ::
  "env \<Rightarrow> sr_instance \<Rightarrow> u8 list \<Rightarrow> nat \<Rightarrow> u8 \<Rightarrow> u8 \<Rightarrow> u8 list option option" where
  "icmp_error_packet e sr packet len type code =
     do { (valid, packet) \<leftarrow> sr_valid_ip_packet packet len;
          if \<not> valid then Some None
          else do {
            old_eth_hdr \<leftarrow> ld_eth packet 0;
            old_ip_hdr \<leftarrow> ld_ip packet 14;
            let old_ip_len = unat (ntohs (ip_len old_ip_hdr));
            (case sr_find_icmp_source_iface sr old_eth_hdr (ip_src old_ip_hdr) of
               None \<Rightarrow> Some None
             | Some out_iface \<Rightarrow>
                 if \<not> malloc_ok e 70 then Some None
                 else do {
                   let reply = replicate 70 0;
                   reply \<leftarrow> st_eth reply 0
                     \<lparr>ether_dhost = ether_shost old_eth_hdr, ether_shost = if_addr out_iface,
                      ether_type = htons ethertype_ip\<rparr>;
                   let ip_hdr = \<lparr>ip_hl = 5, ip_v = 4, ip_tos = 0, ip_len = htons 56, ip_id = 0,
                     ip_off = 0, ip_ttl = INIT_TTL, ip_p = ip_protocol_icmp, ip_sum = 0,
                     ip_src = if_ip out_iface, ip_dst = ip_src old_ip_hdr\<rparr>;
                   reply \<leftarrow> st_ip reply 14 ip_hdr;
                   isum \<leftarrow> cksum_at reply 14 20;
                   reply \<leftarrow> st_ip reply 14 (ip_hdr\<lparr>ip_sum := isum\<rparr>);
                   let icmp_hdr = \<lparr>icmp_type = type, icmp_code = code, icmp_sum = 0,
                     icmp_unused = 0\<rparr>;
                   reply \<leftarrow> st enc_icmp11 reply 34 icmp_hdr;
                   let icmp_data_len = (if old_ip_len < ICMP_DATA_SIZE then old_ip_len
                     else ICMP_DATA_SIZE);
                   data \<leftarrow> load packet 14 icmp_data_len;
                   reply \<leftarrow> store reply 42 data;
                   csum \<leftarrow> cksum_at reply 34 36;
                   reply \<leftarrow> st enc_icmp11 reply 34 (icmp_hdr\<lparr>icmp_sum := csum\<rparr>);
                   Some (Some reply) }) } }"

definition sr_send_icmp_error ::
  "env \<Rightarrow> sr_instance \<Rightarrow> u8 list \<Rightarrow> nat \<Rightarrow> u8 \<Rightarrow> u8 \<Rightarrow> sr_instance option" where
  "sr_send_icmp_error e sr packet len type code =
     do { reply \<leftarrow> icmp_error_packet e sr packet len type code;
          (case reply of
             None \<Rightarrow> Some sr
           | Some reply \<Rightarrow> sr_send_routed_ip_packet e sr reply 70) }"

definition sr_send_icmp_echo_reply ::
  "env \<Rightarrow> sr_instance \<Rightarrow> u8 list \<Rightarrow> nat \<Rightarrow> cstring \<Rightarrow> sr_instance option" where
  "sr_send_icmp_echo_reply e sr packet len interface =
     (case sr_get_interface sr interface of
        None \<Rightarrow> Some sr
      | Some out_iface \<Rightarrow>
          if \<not> malloc_ok e len then Some sr
          else do {
            reply \<leftarrow> load packet 0 len;
            ip_hdr \<leftarrow> ld_ip reply 14;
            let ip_header_len = unat (ip_hl ip_hdr) * 4;
            let icmp_len = u32_sub (unat (ntohs (ip_len ip_hdr))) ip_header_len;
            old_eth_hdr \<leftarrow> ld_eth packet 0;
            eth_hdr \<leftarrow> ld_eth reply 0;
            reply \<leftarrow> st_eth reply 0
              (eth_hdr\<lparr>ether_dhost := ether_shost old_eth_hdr, ether_shost := if_addr out_iface\<rparr>);
            let ip_hdr = ip_hdr\<lparr>ip_src := ip_dst ip_hdr, ip_dst := ip_src ip_hdr,
              ip_ttl := INIT_TTL, ip_sum := 0\<rparr>;
            reply \<leftarrow> st_ip reply 14 ip_hdr;
            isum \<leftarrow> cksum_at reply 14 ip_header_len;
            reply \<leftarrow> st_ip reply 14 (ip_hdr\<lparr>ip_sum := isum\<rparr>);
            icmp_hdr \<leftarrow> ld_icmp08 reply (14 + ip_header_len);
            let icmp_hdr = icmp_hdr\<lparr>icmp08_type := 0, icmp08_code := 0, icmp08_sum := 0\<rparr>;
            reply \<leftarrow> st_icmp08 reply (14 + ip_header_len) icmp_hdr;
            csum \<leftarrow> cksum_at reply (14 + ip_header_len) icmp_len;
            reply \<leftarrow> st_icmp08 reply (14 + ip_header_len) (icmp_hdr\<lparr>icmp08_sum := csum\<rparr>);
            (_, sr) \<leftarrow> sr_send_packet e sr reply len interface;
            Some sr })"

definition sr_forward_ip_packet ::
  "env \<Rightarrow> sr_instance \<Rightarrow> u8 list \<Rightarrow> nat \<Rightarrow> sr_instance option" where
  "sr_forward_ip_packet e sr packet len =
     do { ip_hdr \<leftarrow> ld_ip packet 14;
          if sr_find_lpm_route sr (ip_dst ip_hdr) = None
          then sr_send_icmp_error e sr packet len 3 0
          else sr_send_routed_ip_packet e sr packet len }"

section \<open>The IP handler and the entry point\<close>

definition sr_handle_ip ::
  "env \<Rightarrow> sr_instance \<Rightarrow> u8 list \<Rightarrow> nat \<Rightarrow> cstring \<Rightarrow> sr_instance option" where
  "sr_handle_ip e sr packet len interface =
     do { (valid, packet) \<leftarrow> sr_valid_ip_packet packet len;
          if \<not> valid then Some sr
          else do {
            ip_hdr \<leftarrow> ld_ip packet 14;
            let ip_header_len = unat (ip_hl ip_hdr) * 4;
            if sr_is_router_ip sr (ip_dst ip_hdr) then
              if ip_p ip_hdr = ip_protocol_icmp \<and>
                 unat (ntohs (ip_len ip_hdr)) \<ge> ip_header_len + 8 then
                do { icmp_hdr \<leftarrow> ld_icmp08 packet (14 + ip_header_len);
                     let icmp_len =
                       u32_sub (unat (ntohs (ip_len ip_hdr))) ip_header_len;
                     let received_sum = icmp08_sum icmp_hdr;
                     packet \<leftarrow> st_icmp08 packet (14 + ip_header_len) (icmp_hdr\<lparr>icmp08_sum := 0\<rparr>);
                     is_echo \<leftarrow>
                       (if icmp08_type icmp_hdr = 8
                        then map_option (\<lambda>s. received_sum = s)
                               (cksum_at packet (14 + ip_header_len) icmp_len)
                        else Some False);
                     packet \<leftarrow> st_icmp08 packet (14 + ip_header_len)
                       (icmp_hdr\<lparr>icmp08_sum := received_sum\<rparr>);
                     if is_echo then sr_send_icmp_echo_reply e sr packet len interface
                     else Some sr }
              else if ip_p ip_hdr = ip_protocol_tcp \<or> ip_p ip_hdr = ip_protocol_udp then
                sr_send_icmp_error e sr packet len 3 3
              else Some sr
            else if ip_ttl ip_hdr \<le> 1 then sr_send_icmp_error e sr packet len 11 0
            else do {
              packet \<leftarrow> st_ip packet 14 (ip_hdr\<lparr>ip_ttl := ip_ttl ip_hdr - 1, ip_sum := 0\<rparr>);
              isum \<leftarrow> cksum_at packet 14 ip_header_len;
              ip_hdr \<leftarrow> ld_ip packet 14;
              packet \<leftarrow> st_ip packet 14 (ip_hdr\<lparr>ip_sum := isum\<rparr>);
              sr_forward_ip_packet e sr packet len } } }"

definition sr_handlepacket ::
  "env \<Rightarrow> sr_instance \<Rightarrow> u8 list \<Rightarrow> nat \<Rightarrow> cstring \<Rightarrow> sr_instance option" where
  "sr_handlepacket e sr packet len interface =
     (if len < 14 then Some sr
      else do {
        t \<leftarrow> ethertype packet;
        if t = ethertype_arp then sr_handle_arp e sr packet len interface
        else if t = ethertype_ip then sr_handle_ip e sr packet len interface
        else Some sr })"

end
