(* ===== verification/Router_Safety.thy ===== *)
theory Router_Safety
  imports Router
begin

text \<open>
  The packet handlers never leave a buffer, never dereference null and never fail an
  assertion, on any packet at all, as long as the queue holds well-formed packets; and
  they keep the invariant of the router. Both are shown together, handler by handler.
\<close>

section \<open>Validation\<close>

abbreviation hlen :: "sr_ip_hdr \<Rightarrow> nat" where "hlen h \<equiv> unat (ip_hl h) * 4"
abbreviation tlen :: "sr_ip_hdr \<Rightarrow> nat" where "tlen h \<equiv> unat (ntohs (ip_len h))"

text \<open>The lengths a packet must have, and the checksum its header must carry.\<close>

definition ip_shape :: "u8 list \<Rightarrow> sr_ip_hdr \<Rightarrow> bool" where
  "ip_shape p h \<longleftrightarrow>
     ld_ip p 14 = Some h \<and> ip_v h = 4 \<and> 20 \<le> hlen h \<and> hlen h \<le> tlen h \<and> 14 + tlen h \<le> length p"

definition header_sum :: "u8 list \<Rightarrow> sr_ip_hdr \<Rightarrow> u16" where
  "header_sum p h = cksum (take (hlen h) (drop 14 (overwrite p 14 (enc_ip (h\<lparr>ip_sum := 0\<rparr>)))))"

definition ip_valid :: "u8 list \<Rightarrow> sr_ip_hdr \<Rightarrow> bool" where
  "ip_valid p h \<longleftrightarrow> ip_shape p h \<and> ip_sum h = header_sum p h"

lemma ip_shapeD:
  assumes "ip_shape p h"
  shows "34 \<le> length p" "14 + hlen h \<le> length p" "20 \<le> hlen h" "hlen h \<le> tlen h"
    "14 + tlen h \<le> length p" "ld_ip p 14 = Some h"
  using assms by (auto simp: ip_shape_def)

lemma valid_ip_packet_eq:
  "sr_valid_ip_packet p (length p) = Some ((\<exists>h. ip_valid p h), p)"
proof (cases "length p < 34")
  case True
  then show ?thesis by (auto simp: sr_valid_ip_packet_def ip_valid_def dest: ip_shapeD)
next
  case False
  then have len: "14 + 20 \<le> length p" by simp
  then obtain h where h: "ld_ip p 14 = Some h" by (simp add: iph.ld_in_bounds)
  have uniq: "(\<exists>h. ip_valid p h) \<longleftrightarrow> ip_valid p h" using h by (auto simp: ip_valid_def ip_shape_def)
  show ?thesis
  proof (cases "ip_shape p h")
    case True
    note s = ip_shapeD [OF True]
    have "sr_valid_ip_packet p (length p) = Some (ip_sum h = header_sum p h, overwrite p 14 (enc_ip h))"
      using True s
      by (simp add: sr_valid_ip_packet_def iph.st_in_bounds cksum_at_in_bounds iph.length_over
          iph.ld_over_same iph.over_over ip_shape_def header_sum_def)
    with True show ?thesis unfolding uniq by (simp add: iph.over_ld_id [OF h] ip_valid_def)
  next
    case False
    with h len have "sr_valid_ip_packet p (length p) = Some (False, p)"
      by (auto simp: sr_valid_ip_packet_def ip_shape_def Let_def)
    with False show ?thesis unfolding uniq by (simp add: ip_valid_def)
  qed
qed

section \<open>The invariant of a router\<close>

definition pkt_ok :: "sr_packet \<Rightarrow> bool" where
  "pkt_ok p \<longleftrightarrow>
     pkt_len p = length (pkt_buf p) \<and> 34 \<le> length (pkt_buf p) \<and> length (pkt_buf p) < 2 ^ 31"

definition queue_pkts_ok :: "sr_arpcache \<Rightarrow> bool" where
  "queue_pkts_ok c \<longleftrightarrow> (\<forall>r \<in> set (requests c). \<forall>p \<in> set (req_packets r). pkt_ok p)"

definition router_inv :: "sr_instance \<Rightarrow> bool" where
  "router_inv sr \<longleftrightarrow> cache_inv (cache sr) \<and> queue_pkts_ok (cache sr)"

lemma router_inv_update [simp]:
  "router_inv (sr\<lparr>sock_out := out\<rparr>) = router_inv sr"
  "router_inv (sr\<lparr>logfile := lf\<rparr>) = router_inv sr"
  by (simp_all add: router_inv_def)

text \<open>A run that ends normally, touches neither interfaces nor routes, and keeps the invariant.\<close>

definition safe :: "sr_instance \<Rightarrow> sr_instance option \<Rightarrow> bool" where
  "safe sr res \<longleftrightarrow> (\<exists>sr'. res = Some sr' \<and> same_config sr sr' \<and> router_inv sr')"

lemma safeI [intro?]:
  "res = Some sr' \<Longrightarrow> same_config sr sr' \<Longrightarrow> router_inv sr' \<Longrightarrow> safe sr res"
  by (auto simp: safe_def)

lemma safe_Some [simp]: "safe sr (Some sr') \<longleftrightarrow> same_config sr sr' \<and> router_inv sr'"
  by (simp add: safe_def)

lemma safe_bind:
  assumes "safe sr m" and "\<And>sr1. same_config sr sr1 \<Longrightarrow> router_inv sr1 \<Longrightarrow> safe sr1 (f sr1)"
  shows "safe sr (m \<bind> f)"
  using assms by (auto simp: safe_def) (meson same_config_trans)

lemma safe_weaken: "safe sr1 res \<Longrightarrow> same_config sr sr1 \<Longrightarrow> safe sr res"
  by (auto simp: safe_def intro: same_config_trans)

section \<open>Sending\<close>

lemma send_packet_total:
  assumes "env_ok e" and "14 \<le> length buf" and "length buf < 2 ^ 31"
  obtains r sr' where "sr_send_packet e sr buf (length buf) iface = Some (r, sr')"
proof -
  have "\<exists>ok. sr_ether_addrs_match_interface sr buf iface = Some ok"
    using assms(2)
    by (auto simp: sr_ether_addrs_match_interface_def eth.ld_in_bounds split: option.split)
  then obtain ok where "sr_ether_addrs_match_interface sr buf iface = Some ok" ..
  moreover have "sr_ether_addrs_match_interface (sr\<lparr>logfile := lf\<rparr>) buf iface =
      sr_ether_addrs_match_interface sr buf iface" for lf
    by (simp add: sr_ether_addrs_match_interface_def)
  ultimately show thesis
    using assms that
    by (cases ok) (auto simp: sr_send_packet_def sr_log_packet_eq sint_of_nat_len load_in_bounds Let_def
          split: if_splits)
qed

lemma send_packet_safe:
  assumes "env_ok e" and "router_inv sr" and "14 \<le> length buf" and "length buf < 2 ^ 31" and "len = length buf"
  shows "safe sr (do { (_, sr) \<leftarrow> sr_send_packet e sr buf len iface; Some sr })"
proof -
  obtain r sr' where r: "sr_send_packet e sr buf (length buf) iface = Some (r, sr')"
    by (rule send_packet_total [OF assms(1,3,4)])
  with sr_send_packet_frame [OF r] assms(2,5) show ?thesis by (simp add: router_inv_def)
qed

text \<open>The frames the ARP operations build.\<close>

definition arp_reply_frame :: "sr_if \<Rightarrow> sr_arp_hdr \<Rightarrow> u8 list" where
  "arp_reply_frame out arp_hdr =
     enc_eth \<lparr>ether_dhost = ar_sha arp_hdr, ether_shost = if_addr out, ether_type = htons ethertype_arp\<rparr> @
     enc_arp \<lparr>ar_hrd = htons arp_hrd_ethernet, ar_pro = htons ethertype_ip,
              ar_hln = of_nat ETHER_ADDR_LEN, ar_pln = 4, ar_op = htons arp_op_reply,
              ar_sha = if_addr out, ar_sip = if_ip out,
              ar_tha = ar_sha arp_hdr, ar_tip = ar_sip arp_hdr\<rparr>"

definition arp_request_frame :: "sr_if \<Rightarrow> u32 \<Rightarrow> u8 list" where
  "arp_request_frame out ip =
     enc_eth \<lparr>ether_dhost = broadcast, ether_shost = if_addr out, ether_type = htons ethertype_arp\<rparr> @
     enc_arp \<lparr>ar_hrd = htons arp_hrd_ethernet, ar_pro = htons ethertype_ip,
              ar_hln = of_nat ETHER_ADDR_LEN, ar_pln = 4, ar_op = htons arp_op_request,
              ar_sha = if_addr out, ar_sip = if_ip out,
              ar_tha = MAC 0 0 0 0 0 0, ar_tip = ip\<rparr>"

lemma overwrite_zeros_2:
  assumes "length xs = n" and "length ys = m"
  shows "overwrite (overwrite (replicate (n + m) 0) 0 xs) n ys = xs @ ys"
  using assms by (simp add: overwrite_def)

lemma overwrite_arp:
  "overwrite (overwrite (replicate 42 0) 0 (enc_eth h)) 14 (enc_arp a) = enc_eth h @ enc_arp a"
  using overwrite_zeros_2 [of "enc_eth h" 14 "enc_arp a" 28] by (simp add: eth.length_enc arp.length_enc)

lemma length_arp_frames [simp]:
  "length (arp_reply_frame out a) = 42" "length (arp_request_frame out ip) = 42"
  by (simp_all add: arp_reply_frame_def arp_request_frame_def eth.length_enc arp.length_enc)

lemma send_arp_reply_eq:
  assumes "malloc_ok e 42"
  shows "sr_send_arp_reply e sr arp_hdr iface =
    (case sr_get_interface sr iface of
       None \<Rightarrow> Some sr
     | Some out \<Rightarrow> do { (_, sr) \<leftarrow> sr_send_packet e sr (arp_reply_frame out arp_hdr) 42 iface; Some sr })"
  using assms
  by (simp add: sr_send_arp_reply_def eth.st_in_bounds eth.length_over arp.st_in_bounds overwrite_arp
      arp_reply_frame_def split: option.split)

lemma send_arp_request_eq:
  assumes "malloc_ok e 42"
  shows "sr_send_arp_request e sr ip iface =
    (case sr_get_interface sr iface of
       None \<Rightarrow> Some sr
     | Some out \<Rightarrow> do { (_, sr) \<leftarrow> sr_send_packet e sr (arp_request_frame out ip) 42 iface; Some sr })"
  using assms
  by (simp add: sr_send_arp_request_def eth.st_in_bounds eth.length_over arp.st_in_bounds overwrite_arp
      arp_request_frame_def split: option.split)

lemma arpcache_send_arp_request_eq: "sr_arpcache_send_arp_request = sr_send_arp_request"
  by (simp add: sr_arpcache_send_arp_request_def sr_send_arp_request_def fun_eq_iff)

lemma send_arp_reply_safe:
  "env_ok e \<Longrightarrow> router_inv sr \<Longrightarrow> safe sr (sr_send_arp_reply e sr arp_hdr iface)"
  by (auto simp: send_arp_reply_eq intro!: send_packet_safe split: option.split)

lemma send_arp_request_safe:
  "env_ok e \<Longrightarrow> router_inv sr \<Longrightarrow> safe sr (sr_send_arp_request e sr ip iface)"
  by (auto simp: send_arp_request_eq intro!: send_packet_safe split: option.split)

section \<open>ARP handling\<close>

lemma flush_packets_safe:
  "env_ok e \<Longrightarrow> router_inv sr \<Longrightarrow> \<forall>p \<in> set ps. pkt_ok p \<Longrightarrow> safe sr (flush_packets e sr sha ps)"
proof (induction ps arbitrary: sr)
  case (Cons p ps)
  have p: "14 \<le> length (pkt_buf p)" "pkt_len p = length (pkt_buf p)" "length (pkt_buf p) < 2 ^ 31"
    using Cons.prems(3) by (auto simp: pkt_ok_def)
  have "safe sr (case sr_get_interface sr (pkt_iface p) of
      None \<Rightarrow> Some sr
    | Some out_iface \<Rightarrow>
        do { eth_hdr \<leftarrow> ld_eth (pkt_buf p) 0;
             buf \<leftarrow> st_eth (pkt_buf p) 0
               (eth_hdr\<lparr>ether_dhost := sha, ether_shost := if_addr out_iface\<rparr>);
             (_, sr) \<leftarrow> sr_send_packet e sr buf (pkt_len p) (pkt_iface p);
             Some sr })"
    using Cons.prems p
    by (auto simp: eth.ld_in_bounds eth.st_in_bounds eth.length_over intro!: send_packet_safe
        split: option.split)
  then show ?case
    unfolding flush_packets.simps by (rule safe_bind) (use Cons in auto)
qed simp

lemma insert_router_inv:
  "router_inv sr \<Longrightarrow> router_inv (sr\<lparr>cache := snd (sr_arpcache_insert e (cache sr) m ip)\<rparr>)"
proof -
  assume inv: "router_inv sr"
  have "set (requests (snd (sr_arpcache_insert e (cache sr) m ip))) \<subseteq> set (requests (cache sr))"
    using inv by (auto simp: router_inv_def cache_inv_def queue_inv_def insert_requests snd_unlink_ip)
  with inv show ?thesis
    by (auto simp: router_inv_def cache_inv_def queue_pkts_ok_def insert_table_inv insert_queue_inv)
qed

lemma set_unlink_addr: "set (unlink_addr rs a) \<subseteq> set rs"
  by (induction rs) auto

lemma destroy_router_inv:
  "router_inv sr \<Longrightarrow> router_inv (sr\<lparr>cache := sr_arpreq_destroy (cache sr) a\<rparr>)"
  using set_unlink_addr [of "requests (cache sr)" a]
  by (auto simp: router_inv_def cache_inv_def queue_pkts_ok_def destroy_queue_inv)
    (auto simp: sr_arpreq_destroy_def)

lemma cache_arp_mapping_safe:
  assumes "env_ok e" and "router_inv sr"
  shows "safe sr (sr_cache_arp_mapping e sr arp_hdr)"
proof -
  let ?ins = "sr_arpcache_insert e (cache sr) (ar_sha arp_hdr) (ar_sip arp_hdr)"
  let ?sr = "sr\<lparr>cache := snd ?ins\<rparr>"
  have inv: "router_inv ?sr" using assms(2) by (rule insert_router_inv)
  show ?thesis
  proof (cases "fst ?ins")
    case None
    with inv show ?thesis by (simp add: sr_cache_arp_mapping_def split_beta)
  next
    case (Some r)
    then have "\<forall>p \<in> set (req_packets r). pkt_ok p"
      using assms(2) by (auto simp: insert_requests router_inv_def queue_pkts_ok_def dest: find_req_Some)
    then have "safe ?sr (flush_packets e ?sr (ar_sha arp_hdr) (req_packets r))"
      using assms(1) inv by (intro flush_packets_safe)
    then have "safe ?sr (do { sr \<leftarrow> flush_packets e ?sr (ar_sha arp_hdr) (req_packets r);
        Some (sr\<lparr>cache := sr_arpreq_destroy (cache sr) (req_self r)\<rparr>) })"
      by (rule safe_bind) (simp add: destroy_router_inv)
    with Some show ?thesis
      by (auto simp: sr_cache_arp_mapping_def split_beta intro: safe_weaken)
  qed
qed

lemma handle_arp_safe:
  assumes "env_ok e" and "router_inv sr"
  shows "safe sr (sr_handle_arp e sr packet (length packet) iface)"
proof -
  have "safe sr (do { sr \<leftarrow> sr_cache_arp_mapping e sr a;
      if ar_tip a = if_ip i then sr_send_arp_reply e sr a iface else Some sr })" for a i
    by (rule safe_bind [OF cache_arp_mapping_safe [OF assms]])
      (simp add: send_arp_reply_safe assms(1))
  then show ?thesis
    using assms cache_arp_mapping_safe [OF assms]
    by (auto simp: sr_handle_arp_def arp.ld_in_bounds split: option.split)
qed

section \<open>IP handling\<close>

lemma queue_packet_inv:
  assumes "router_inv sr" and "env_ok e" and "34 \<le> length buf" and "length buf < 2 ^ 31"
  obtains a c' r where
    "sr_arpcache_queuereq e (cache sr) ip buf (length buf) iface = Some (a, c')"
    "deref_req c' a = Some r" "req_ip r = ip" "router_inv (sr\<lparr>cache := c'\<rparr>)"
proof -
  have q: "queue_inv (cache sr)" using assms(1) by (simp add: router_inv_def cache_inv_def)
  have b: "buf \<noteq> []" using assms(3) by auto
  obtain a c' r where r: "sr_arpcache_queuereq e (cache sr) ip buf (length buf) iface = Some (a, c')"
      "find_req (requests c') ip = Some r" "req_self r = a"
    using queuereq_find [OF q _ b] assms(2) by (metis env_ok_queue_ok)
  have inv: "cache_inv c'" using queuereq_inv [OF _ r(1)] assms(1) by (simp add: router_inv_def)
  have "deref_req c' a = Some r"
    using deref_req_unique [of c' r] inv r by (auto simp: cache_inv_def dest: find_req_Some)
  moreover have "queue_pkts_ok c'"
    using assms r(1) b
    by (auto simp: queuereq_eq router_inv_def queue_pkts_ok_def update_req_def new_request_def
        add_packet_def queued_packet_def pkt_ok_def split: option.splits if_splits)
  ultimately show thesis
    using that [OF r(1)] r find_req_Some inv by (simp add: router_inv_def)
qed

lemma keeps_id_mark_sent [simp]: "keeps_id (mark_sent e)"
  by (auto simp: mark_sent_def)

lemma mark_sent_inv: "router_inv sr \<Longrightarrow> router_inv (sr\<lparr>cache := update_req a (mark_sent e) (cache sr)\<rparr>)"
  by (auto simp: router_inv_def cache_inv_def update_req_queue_inv)
    (auto simp: queue_pkts_ok_def update_req_def mark_sent_def)

lemma arpcache_lookup_ok: "env_ok e \<Longrightarrow> sr_arpcache_lookup e c ip = Some (lookup_loop (entries c) ip None)"
  by (simp add: sr_arpcache_lookup_def split: option.split)

lemma send_routed_safe:
  assumes e: "env_ok e" and inv: "router_inv sr" and len: "34 \<le> length packet" "length packet < 2 ^ 31"
  shows "safe sr (sr_send_routed_ip_packet e sr packet (length packet))"
proof -
  obtain h where h: "ld_ip packet 14 = Some h" using len(1) by (simp add: iph.ld_in_bounds)
  have eth: "ld_eth p 0 = Some (dec_eth (take 14 p))"
      "st_eth p 0 g = Some (overwrite p 0 (enc_eth g))" "length (overwrite p 0 (enc_eth g)) = length p"
    if "length p = length packet" for p g
    using that len by (simp_all add: eth.ld_in_bounds eth.st_in_bounds eth.length_over)
  have miss: "safe sr (do { (req, c) \<leftarrow> sr_arpcache_queuereq e (cache sr) nh fp (length packet) ifn;
       let sr = sr\<lparr>cache := c\<rparr>;
       r \<leftarrow> deref_req c req;
       if req_times_sent r = 0 then
         do { sr \<leftarrow> sr_send_arp_request e sr (req_ip r) ifn;
              Some (sr\<lparr>cache := update_req req (mark_sent e) (cache sr)\<rparr>) }
       else Some sr })" if fp: "length fp = length packet" for nh fp ifn
  proof -
    from queue_packet_inv [OF inv e, of fp nh ifn] fp len obtain a c' r where
      r: "sr_arpcache_queuereq e (cache sr) nh fp (length packet) ifn = Some (a, c')"
        "deref_req c' a = Some r" and inv': "router_inv (sr\<lparr>cache := c'\<rparr>)"
      by metis
    have "safe (sr\<lparr>cache := c'\<rparr>) (do { sr \<leftarrow> sr_send_arp_request e (sr\<lparr>cache := c'\<rparr>) (req_ip r) ifn;
        Some (sr\<lparr>cache := update_req a (mark_sent e) (cache sr)\<rparr>) })"
      by (rule safe_bind [OF send_arp_request_safe [OF e inv']]) (simp add: mark_sent_inv)
    with r inv' show ?thesis by (auto simp: Let_def intro: safe_weaken)
  qed
  show ?thesis
    using h e inv len miss
    by (auto simp: sr_send_routed_ip_packet_def load_in_bounds eth Let_def arpcache_lookup_ok
        intro!: send_packet_safe split: option.split)
qed

text \<open>The reply of \<^verbatim>\<open>sr_send_icmp_error\<close>, byte by byte.\<close>

definition icmp_error_ip :: "u32 \<Rightarrow> u32 \<Rightarrow> sr_ip_hdr" where
  "icmp_error_ip src dst =
     \<lparr>ip_hl = 5, ip_v = 4, ip_tos = 0, ip_len = htons 56, ip_id = 0, ip_off = 0, ip_ttl = INIT_TTL,
      ip_p = ip_protocol_icmp, ip_sum = 0, ip_src = src, ip_dst = dst\<rparr>"

definition icmp_error_body :: "u8 \<Rightarrow> u8 \<Rightarrow> u16 \<Rightarrow> u8 list \<Rightarrow> u8 list" where
  "icmp_error_body type code csum data =
     enc_icmp11 \<lparr>icmp_type = type, icmp_code = code, icmp_sum = csum, icmp_unused = 0\<rparr> @ data @
     replicate (28 - length data) 0"

definition icmp_error_frame ::
  "sr_if \<Rightarrow> mac \<Rightarrow> u32 \<Rightarrow> u8 \<Rightarrow> u8 \<Rightarrow> u8 list \<Rightarrow> u8 list" where
  "icmp_error_frame out dst_mac dst_ip type code data =
     (let ip = icmp_error_ip (if_ip out) dst_ip in
      enc_eth \<lparr>ether_dhost = dst_mac, ether_shost = if_addr out, ether_type = htons ethertype_ip\<rparr> @
      enc_ip (ip\<lparr>ip_sum := cksum (enc_ip ip)\<rparr>) @
      icmp_error_body type code (cksum (icmp_error_body type code 0 data)) data)"

lemma length_icmp_error_body [simp]:
  "length data \<le> 28 \<Longrightarrow> length (icmp_error_body type code csum data) = 36"
  by (simp add: icmp_error_body_def icmp11.length_enc)

lemma length_icmp_error_frame [simp]:
  "length data \<le> 28 \<Longrightarrow> length (icmp_error_frame out m ip type code data) = 70"
  by (simp add: icmp_error_frame_def Let_def eth.length_enc iph.length_enc)

lemma overwrite_append:
  assumes "length xs = n" and "length ys \<le> length zs"
  shows "overwrite (xs @ zs) n ys = xs @ ys @ drop (length ys) zs"
  using assms by (simp add: overwrite_def)

lemma overwrite_prefix: "overwrite zs 0 ys = ys @ drop (length ys) zs"
  by (simp add: overwrite_def)

lemma load_prefix: "length xs = n \<Longrightarrow> length ys = m \<Longrightarrow> load (xs @ ys @ zs) n m = Some ys"
  by (simp add: load_def)

lemma store_prefix: "store zs 0 ys = (if length ys \<le> length zs then Some (ys @ drop (length ys) zs) else None)"
  by (simp add: store_def overwrite_prefix)

lemma store_append:
  "length xs = n \<Longrightarrow> store (xs @ zs) n ys =
     (if length ys \<le> length zs then Some (xs @ ys @ drop (length ys) zs) else None)"
  by (simp add: store_def overwrite_append)

lemma icmp_error_steps:
  fixes E :: sr_ethernet_hdr and I :: sr_ip_hdr and C :: sr_icmp_t11_hdr
  assumes "length data \<le> 28"
  shows "st_eth (replicate 70 0) 0 E = Some (enc_eth E @ replicate 56 0)"
    and "st_ip (enc_eth E @ replicate 56 0) 14 I = Some (enc_eth E @ enc_ip I @ replicate 36 0)"
    and "cksum_at (enc_eth E @ enc_ip I @ replicate 36 0) 14 20 = Some (cksum (enc_ip I))"
    and "st_ip (enc_eth E @ enc_ip I @ replicate 36 0) 14 I' = Some (enc_eth E @ enc_ip I' @ replicate 36 0)"
    and "st enc_icmp11 (enc_eth E @ enc_ip I @ replicate 36 0) 34 C =
      Some (enc_eth E @ enc_ip I @ enc_icmp11 C @ replicate 28 0)"
    and "store (enc_eth E @ enc_ip I @ enc_icmp11 C @ replicate 28 0) 42 data =
      Some (enc_eth E @ enc_ip I @ enc_icmp11 C @ data @ replicate (28 - length data) 0)"
    and "cksum_at (enc_eth E @ enc_ip I @ enc_icmp11 C @ data @ replicate (28 - length data) 0) 34 36 =
      Some (cksum (enc_icmp11 C @ data @ replicate (28 - length data) 0))"
    and "st enc_icmp11 (enc_eth E @ enc_ip I @ enc_icmp11 C @ data @ replicate (28 - length data) 0) 34 C' =
      Some (enc_eth E @ enc_ip I @ enc_icmp11 C' @ data @ replicate (28 - length data) 0)"
proof -
  note len = eth.length_enc iph.length_enc icmp11.length_enc
  show "st_eth (replicate 70 0) 0 E = Some (enc_eth E @ replicate 56 0)"
    by (simp add: st_def store_prefix len)
  show "st_ip (enc_eth E @ replicate 56 0) 14 I = Some (enc_eth E @ enc_ip I @ replicate 36 0)"
    by (simp add: st_def store_append len)
  show "cksum_at (enc_eth E @ enc_ip I @ replicate 36 0) 14 20 = Some (cksum (enc_ip I))"
    by (simp add: cksum_at_def load_prefix len)
  show "st_ip (enc_eth E @ enc_ip I @ replicate 36 0) 14 I' = Some (enc_eth E @ enc_ip I' @ replicate 36 0)"
    by (simp add: st_def store_append len)
  show "st enc_icmp11 (enc_eth E @ enc_ip I @ replicate 36 0) 34 C =
      Some (enc_eth E @ enc_ip I @ enc_icmp11 C @ replicate 28 0)"
    using store_append [of "enc_eth E @ enc_ip I" 34 "replicate 36 0" "enc_icmp11 C"]
    by (simp add: st_def len)
  show "store (enc_eth E @ enc_ip I @ enc_icmp11 C @ replicate 28 0) 42 data =
      Some (enc_eth E @ enc_ip I @ enc_icmp11 C @ data @ replicate (28 - length data) 0)"
    using store_append [of "enc_eth E @ enc_ip I @ enc_icmp11 C" 42 "replicate 28 0" data] assms
    by (simp add: len)
  show "cksum_at (enc_eth E @ enc_ip I @ enc_icmp11 C @ data @ replicate (28 - length data) 0) 34 36 =
      Some (cksum (enc_icmp11 C @ data @ replicate (28 - length data) 0))"
    using load_prefix [of "enc_eth E @ enc_ip I" 34
        "enc_icmp11 C @ data @ replicate (28 - length data) 0" 36 "[]"] assms
    by (simp add: cksum_at_def len)
  show "st enc_icmp11 (enc_eth E @ enc_ip I @ enc_icmp11 C @ data @ replicate (28 - length data) 0) 34 C' =
      Some (enc_eth E @ enc_ip I @ enc_icmp11 C' @ data @ replicate (28 - length data) 0)"
    using store_append [of "enc_eth E @ enc_ip I" 34
        "enc_icmp11 C @ data @ replicate (28 - length data) 0" "enc_icmp11 C'"] assms
    by (simp add: st_def len)
qed

text \<open>The bytes of the offending packet that an error message quotes.\<close>

definition quoted :: "u8 list \<Rightarrow> sr_ip_hdr \<Rightarrow> u8 list" where
  "quoted p h = take (min 28 (tlen h)) (drop 14 p)"

lemma length_quoted: "length (quoted p h) \<le> 28"
  by (simp add: quoted_def)

lemma icmp_error_packet_eq:
  assumes "malloc_ok e 70" and v: "ip_valid p h" and eh: "ld_eth p 0 = Some eh"
  shows "icmp_error_packet e sr p (length p) type code =
    Some (map_option (\<lambda>out. icmp_error_frame out (ether_shost eh) (ip_src h) type code (quoted p h))
      (sr_find_icmp_source_iface sr eh (ip_src h)))"
proof -
  have s: "ip_shape p h" using v by (simp add: ip_valid_def)
  note b = ip_shapeD [OF s]
  have d: "load p 14 (if tlen h < ICMP_DATA_SIZE then tlen h else ICMP_DATA_SIZE) = Some (quoted p h)"
    using b by (simp add: load_def quoted_def ICMP_DATA_SIZE_def min_def)
  have v': "\<exists>h. ip_valid p h" using v by blast
  show ?thesis
    using assms(1)
    by (simp add: icmp_error_packet_def valid_ip_packet_eq v' eh b(6) d
        icmp_error_steps [OF length_quoted] icmp_error_frame_def icmp_error_body_def
        icmp_error_ip_def [symmetric] Let_def split: option.split split del: if_split)
qed

lemma icmp_error_packet_memory:
  "icmp_error_packet e sr p len type code = Some (Some fr) \<Longrightarrow> malloc_ok e 70"
  by (cases "malloc_ok e 70")
    (auto simp: icmp_error_packet_def bind_eq_Some_conv Let_def split: option.splits prod.splits if_splits)

lemma icmp_error_packet_invalid:
  "\<nexists>h. ip_valid p h \<Longrightarrow> icmp_error_packet e sr p (length p) type code = Some None"
  by (simp add: icmp_error_packet_def valid_ip_packet_eq)

lemma send_icmp_error_eq:
  assumes "malloc_ok e 70" and "ip_valid p h" and "ld_eth p 0 = Some eh"
  shows "sr_send_icmp_error e sr p (length p) type code =
    (case sr_find_icmp_source_iface sr eh (ip_src h) of
       None \<Rightarrow> Some sr
     | Some out \<Rightarrow> sr_send_routed_ip_packet e sr
         (icmp_error_frame out (ether_shost eh) (ip_src h) type code (quoted p h)) 70)"
  by (simp add: sr_send_icmp_error_def icmp_error_packet_eq [OF assms] split: option.split)

lemma send_icmp_error_invalid:
  "\<nexists>h. ip_valid p h \<Longrightarrow> sr_send_icmp_error e sr p (length p) type code = Some sr"
  by (simp add: sr_send_icmp_error_def icmp_error_packet_invalid)

lemma send_icmp_error_safe:
  assumes "env_ok e" and "router_inv sr"
  shows "safe sr (sr_send_icmp_error e sr p (length p) type code)"
proof (cases "\<exists>h. ip_valid p h")
  case True
  then obtain h where h: "ip_valid p h" by blast
  then have "34 \<le> length p" by (auto simp: ip_valid_def dest: ip_shapeD)
  then obtain eh where eh: "ld_eth p 0 = Some eh" by (simp add: eth.ld_in_bounds)
  have "safe sr (sr_send_routed_ip_packet e sr (icmp_error_frame out m ip type code (quoted p h)) 70)"
    for out m ip
    using send_routed_safe [OF assms, of "icmp_error_frame out m ip type code (quoted p h)"]
    by (simp add: length_quoted)
  with h eh assms show ?thesis by (simp add: send_icmp_error_eq split: option.split)
next
  case False
  with assms show ?thesis by (simp add: send_icmp_error_invalid)
qed

text \<open>The subtraction of the header length does not wrap on a valid packet.\<close>

lemma icmp_len_exact: "hlen h \<le> tlen h \<Longrightarrow> u32_sub (tlen h) (hlen h) = tlen h - hlen h"
  using unsigned_less [of "ntohs (ip_len h)", where ?'a = nat] by (intro u32_sub_exact) simp_all

text \<open>The frame of \<^verbatim>\<open>sr_send_icmp_echo_reply\<close>: the request, edited in place.\<close>

definition echo_ip :: "sr_ip_hdr \<Rightarrow> sr_ip_hdr" where
  "echo_ip h = h\<lparr>ip_src := ip_dst h, ip_dst := ip_src h, ip_ttl := INIT_TTL, ip_sum := 0\<rparr>"

definition echo_icmp :: "sr_icmp_t08_hdr \<Rightarrow> sr_icmp_t08_hdr" where
  "echo_icmp ic = ic\<lparr>icmp08_type := 0, icmp08_code := 0, icmp08_sum := 0\<rparr>"

definition echo_reply_frame ::
  "sr_if \<Rightarrow> u8 list \<Rightarrow> sr_ethernet_hdr \<Rightarrow> sr_ip_hdr \<Rightarrow> sr_icmp_t08_hdr \<Rightarrow> u8 list" where
  "echo_reply_frame out p eh h ic =
     (let k = hlen h;
          p1 = overwrite p 0 (enc_eth (eh\<lparr>ether_dhost := ether_shost eh, ether_shost := if_addr out\<rparr>));
          isum = cksum (take k (drop 14 (overwrite p1 14 (enc_ip (echo_ip h)))));
          p2 = overwrite p1 14 (enc_ip ((echo_ip h)\<lparr>ip_sum := isum\<rparr>));
          csum = cksum (take (tlen h - k) (drop (14 + k)
                   (overwrite p2 (14 + k) (enc_icmp08 (echo_icmp ic)))))
      in overwrite p2 (14 + k) (enc_icmp08 ((echo_icmp ic)\<lparr>icmp08_sum := csum\<rparr>)))"

lemma length_echo_reply_frame:
  assumes "20 \<le> hlen h" and "14 + hlen h + 8 \<le> length p"
  shows "length (echo_reply_frame out p eh h ic) = length p"
  using assms
  by (simp add: echo_reply_frame_def Let_def eth.length_over iph.length_over icmp08.length_over)

lemma echo_reply_eq:
  assumes "malloc_ok e (length p)" and out: "sr_get_interface sr iface = Some out"
    and s: "ip_shape p h" and i: "hlen h + 8 \<le> tlen h"
    and eh: "ld_eth p 0 = Some eh" and ic: "ld_icmp08 p (14 + hlen h) = Some ic"
  shows "sr_send_icmp_echo_reply e sr p (length p) iface =
    do { (_, sr) \<leftarrow> sr_send_packet e sr (echo_reply_frame out p eh h ic) (length p) iface; Some sr }"
proof -
  note b = ip_shapeD [OF s]
  obtain k where k: "hlen h = k" by blast
  have len: "34 \<le> length p" "20 \<le> k" "14 + k + 8 \<le> length p" "14 + k \<le> length p"
    and t: "14 + k + (tlen h - k) \<le> length p" "u32_sub (tlen h) k = tlen h - k"
    using b i icmp_len_exact [OF b(4)] unfolding k by linarith+
  have E: "st_eth p 0 g = Some (overwrite p 0 (enc_eth g))" "length (overwrite p 0 (enc_eth g)) = length p"
    "ld_icmp08 (overwrite p 0 (enc_eth g)) (14 + k) = ld_icmp08 p (14 + k)" for g
    using len(1) by (simp_all add: eth.st_in_bounds eth.length_over eth.ld_over_after)
  have I: "st_ip q 14 g = Some (overwrite q 14 (enc_ip g))" "length (overwrite q 14 (enc_ip g)) = length p"
    "overwrite (overwrite q 14 (enc_ip g)) 14 (enc_ip g') = overwrite q 14 (enc_ip g')"
    "ld_icmp08 (overwrite q 14 (enc_ip g)) (14 + k) = ld_icmp08 q (14 + k)" if "length q = length p" for q g g'
    using len that by (simp_all add: iph.st_in_bounds iph.length_over iph.over_over iph.ld_over_after)
  have C: "st_icmp08 q (14 + k) g = Some (overwrite q (14 + k) (enc_icmp08 g))"
    "length (overwrite q (14 + k) (enc_icmp08 g)) = length p"
    "overwrite (overwrite q (14 + k) (enc_icmp08 g)) (14 + k) (enc_icmp08 g') =
       overwrite q (14 + k) (enc_icmp08 g')" if "length q = length p" for q g g'
    using len that by (simp_all add: icmp08.st_in_bounds icmp08.length_over icmp08.over_over)
  have K: "cksum_at q 14 k = Some (cksum (take k (drop 14 q)))"
    "cksum_at q (14 + k) (tlen h - k) = Some (cksum (take (tlen h - k) (drop (14 + k) q)))"
    if "length q = length p" for q
    using len t that by (simp_all add: cksum_at_in_bounds)
  show ?thesis
    using assms(1)
    by (simp add: sr_send_icmp_echo_reply_def load_in_bounds out b(6) eh k t(2) E I C K ic [unfolded k]
        echo_reply_frame_def echo_ip_def echo_icmp_def Let_def)
qed

lemma echo_reply_safe:
  assumes e: "env_ok e" and inv: "router_inv sr" and s: "ip_shape p h" and i: "hlen h + 8 \<le> tlen h"
    and max: "length p < 2 ^ 31"
  shows "safe sr (sr_send_icmp_echo_reply e sr p (length p) iface)"
proof (cases "sr_get_interface sr iface")
  case None
  with inv show ?thesis by (simp add: sr_send_icmp_echo_reply_def)
next
  case (Some out)
  note b = ip_shapeD [OF s]
  have l: "14 + hlen h + 8 \<le> length p" using b i by linarith
  obtain eh ic where "ld_eth p 0 = Some eh" "ld_icmp08 p (14 + hlen h) = Some ic"
    using b(1) l by (simp add: eth.ld_in_bounds icmp08.ld_in_bounds)
  then show ?thesis
    using Some e inv length_echo_reply_frame [OF b(3) l] b(1) max
    by (simp add: echo_reply_eq [OF _ _ s i] send_packet_safe)
qed

text \<open>
  The IP handler by cases. \<open>refreshed p h\<close> is the packet with the header \<open>h\<close> under a fresh
  checksum, \<open>echo_request\<close> an ICMP echo request with a correct checksum.
\<close>

definition refreshed :: "u8 list \<Rightarrow> sr_ip_hdr \<Rightarrow> u8 list" where
  "refreshed p h = overwrite p 14 (enc_ip (h\<lparr>ip_sum := header_sum p h\<rparr>))"

definition forwarded :: "u8 list \<Rightarrow> sr_ip_hdr \<Rightarrow> u8 list" where
  "forwarded p h = refreshed p (h\<lparr>ip_ttl := ip_ttl h - 1\<rparr>)"

definition echo_request :: "u8 list \<Rightarrow> sr_ip_hdr \<Rightarrow> bool" where
  "echo_request p h \<longleftrightarrow>
     (case ld_icmp08 p (14 + hlen h) of
        None \<Rightarrow> False
      | Some ic \<Rightarrow> icmp08_type ic = 8 \<and>
          icmp08_sum ic = cksum (take (tlen h - hlen h) (drop (14 + hlen h)
            (overwrite p (14 + hlen h) (enc_icmp08 (ic\<lparr>icmp08_sum := 0\<rparr>))))))"

lemma length_refreshed: "34 \<le> length p \<Longrightarrow> length (refreshed p h) = length p"
  by (simp add: refreshed_def iph.length_over)

lemma handle_ip_echo:
  assumes s: "ip_shape p h" and i: "hlen h + 8 \<le> tlen h" and ic: "ld_icmp08 p (14 + hlen h) = Some ic"
  shows "do { packet \<leftarrow> st_icmp08 p (14 + hlen h) (ic\<lparr>icmp08_sum := 0\<rparr>);
       is_echo \<leftarrow> (if icmp08_type ic = 8
          then map_option (\<lambda>s. icmp08_sum ic = s) (cksum_at packet (14 + hlen h) (tlen h - hlen h))
          else Some False);
       packet \<leftarrow> st_icmp08 packet (14 + hlen h) ic;
       if is_echo then f packet else Some sr } = (if echo_request p h then f p else Some sr)"
proof -
  note b = ip_shapeD [OF s]
  obtain k where k: "hlen h = k" by blast
  have l: "14 + k + 8 \<le> length p" "14 + k + (tlen h - k) \<le> length p"
    using b i unfolding k by linarith+
  have same: "overwrite p (14 + k) (enc_icmp08 ic) = p"
    using ic unfolding k by (rule icmp08.over_ld_id)
  have st: "st_icmp08 q (14 + k) g = Some (overwrite q (14 + k) (enc_icmp08 g))"
    if "length q = length p" for q g using l(1) that by (simp add: icmp08.st_in_bounds)
  have sum: "cksum_at q (14 + k) (tlen h - k) = Some (cksum (take (tlen h - k) (drop (14 + k) q)))"
    if "length q = length p" for q using l(2) that by (simp add: cksum_at_in_bounds)
  show ?thesis
    unfolding k echo_request_def
    by (simp add: st sum icmp08.length_over [OF l(1)] icmp08.over_over [OF l(1)] same ic [unfolded k])
qed

lemma handle_ip_forward:
  assumes s: "ip_shape p h"
  shows "do { packet \<leftarrow> st_ip p 14 (h\<lparr>ip_ttl := ip_ttl h - 1, ip_sum := 0\<rparr>);
       isum \<leftarrow> cksum_at packet 14 (hlen h);
       ip_hdr \<leftarrow> ld_ip packet 14;
       packet \<leftarrow> st_ip packet 14 (ip_hdr\<lparr>ip_sum := isum\<rparr>);
       f packet } = f (forwarded p h)"
  using ip_shapeD [OF s]
  by (simp add: iph.st_in_bounds iph.length_over cksum_at_in_bounds iph.ld_over_same iph.over_over
      forwarded_def refreshed_def header_sum_def)

lemma forward_eq:
  assumes "34 \<le> length p"
  shows "sr_forward_ip_packet e sr (refreshed p h) (length p) =
    (if sr_find_lpm_route sr (ip_dst h) = None then sr_send_icmp_error e sr (refreshed p h) (length p) 3 0
     else sr_send_routed_ip_packet e sr (refreshed p h) (length p))"
  using assms by (simp add: sr_forward_ip_packet_def refreshed_def iph.ld_over_same)

lemma handle_ip_eq:
  assumes v: "ip_valid p h"
  shows "sr_handle_ip e sr p (length p) iface =
    (if sr_is_router_ip sr (ip_dst h) then
       if ip_p h = ip_protocol_icmp \<and> hlen h + 8 \<le> tlen h then
         if echo_request p h then sr_send_icmp_echo_reply e sr p (length p) iface else Some sr
       else if ip_p h = ip_protocol_tcp \<or> ip_p h = ip_protocol_udp
       then sr_send_icmp_error e sr p (length p) 3 3 else Some sr
     else if ip_ttl h \<le> 1 then sr_send_icmp_error e sr p (length p) 11 0
     else if sr_find_lpm_route sr (ip_dst h) = None
     then sr_send_icmp_error e sr (forwarded p h) (length p) 3 0
     else sr_send_routed_ip_packet e sr (forwarded p h) (length p))"
proof -
  have s: "ip_shape p h" and ex: "\<exists>h. ip_valid p h" using v by (auto simp: ip_valid_def)
  note b = ip_shapeD [OF s]
  have fwd: "sr_forward_ip_packet e sr (forwarded p h) (length p) =
      (if sr_find_lpm_route sr (ip_dst h) = None then sr_send_icmp_error e sr (forwarded p h) (length p) 3 0
       else sr_send_routed_ip_packet e sr (forwarded p h) (length p))"
    using forward_eq [OF b(1), of e sr "h\<lparr>ip_ttl := ip_ttl h - 1\<rparr>"] by (simp add: forwarded_def)
  show ?thesis
  proof (cases "hlen h + 8 \<le> tlen h")
    case True
    then have "14 + hlen h + 8 \<le> length p" using b by linarith
    then obtain ic where ic: "ld_icmp08 p (14 + hlen h) = Some ic" by (simp add: icmp08.ld_in_bounds)
    have same: "ic\<lparr>icmp08_sum := icmp08_sum ic\<rparr> = ic" by simp
    show ?thesis
      by (simp add: sr_handle_ip_def valid_ip_packet_eq ex b(6) ic icmp_len_exact [OF b(4)] same
          handle_ip_echo [OF s True ic] handle_ip_forward [OF s] fwd Let_def True split del: if_split
          cong: if_cong)
  next
    case False
    then show ?thesis
      by (simp add: sr_handle_ip_def valid_ip_packet_eq ex b(6) handle_ip_forward [OF s] fwd Let_def)
  qed
qed

lemma handle_ip_invalid:
  "\<nexists>h. ip_valid p h \<Longrightarrow> sr_handle_ip e sr p (length p) iface = Some sr"
  by (simp add: sr_handle_ip_def valid_ip_packet_eq)

lemma handle_ip_safe:
  assumes e: "env_ok e" and inv: "router_inv sr" and max: "length p < 2 ^ 31"
  shows "safe sr (sr_handle_ip e sr p (length p) iface)"
proof (cases "\<exists>h. ip_valid p h")
  case False
  with inv show ?thesis by (simp add: handle_ip_invalid)
next
  case True
  then obtain h where h: "ip_valid p h" by blast
  then have s: "ip_shape p h" by (simp add: ip_valid_def)
  have len: "34 \<le> length p" "length (forwarded p h) = length p"
    using ip_shapeD(1) [OF s] by (simp_all add: forwarded_def length_refreshed)
  show ?thesis
    using inv len max send_icmp_error_safe [OF e inv, of "forwarded p h"] send_icmp_error_safe [OF e inv, of p]
      send_routed_safe [OF e inv, of "forwarded p h"]
    by (simp add: handle_ip_eq [OF h] echo_reply_safe [OF e inv s _ max])
qed

lemma handlepacket_safe:
  assumes "env_ok e" and "router_inv sr" and "length p < 2 ^ 31"
  shows "safe sr (sr_handlepacket e sr p (length p) iface)"
  using assms
  by (simp add: sr_handlepacket_def ethertype_def eth.ld_in_bounds handle_arp_safe handle_ip_safe)

end
