(* ===== verification/Router_Behaviour.thy ===== *)
theory Router_Behaviour
  imports Router_Safety
begin

text \<open>
  What the packet handlers do: the frames they emit, byte for byte, and what becomes of
  the cache, for each kind of packet the router tells apart.
\<close>

section \<open>Interface names\<close>

definition names_ok :: "sr_instance \<Rightarrow> bool" where
  "names_ok sr \<longleftrightarrow>
     (\<forall>i \<in> set (if_list sr). c_str (if_name i)) \<and>
     (\<forall>rt \<in> set (routing_table sr). c_str (rt_interface rt))"

lemma names_ok_config: "same_config sr sr' \<Longrightarrow> names_ok sr' = names_ok sr"
  by (simp add: names_ok_def same_config_def)

lemma get_interface_take:
  assumes "names_ok sr" and "c_str s" and "c_str t" and "take 32 s = take 32 t"
  shows "sr_get_interface sr s = sr_get_interface sr t"
proof -
  have "get_interface_walk l s = get_interface_walk l t" if "\<forall>i \<in> set l. c_str (if_name i)" for l
    using that assms(2-4) by (induction l) (simp_all add: strncmp_0_iff sr_IFACE_NAMELEN_def)
  with assms(1) show ?thesis by (simp add: names_ok_def sr_get_interface_def)
qed

text \<open>Looking up an interface by its own name, or by the copy a queued packet keeps, finds it again.\<close>

lemma get_interface_again:
  assumes "names_ok sr" and "c_str name" and i: "sr_get_interface sr name = Some i"
  shows "sr_get_interface sr (if_name i) = Some i"
    and "sr_get_interface sr (strncpy sr_IFACE_NAMELEN (if_name i)) = Some i"
proof -
  have n: "c_str (if_name i)"
    using assms(1) sr_get_interface_Some(1) [OF i] by (simp add: names_ok_def)
  then have t: "take 32 (if_name i) = take 32 name"
    using sr_get_interface_Some(2) [OF i] assms(2) by (simp add: strncmp_0_iff sr_IFACE_NAMELEN_def)
  then show "sr_get_interface sr (if_name i) = Some i"
    using get_interface_take [OF assms(1) n assms(2)] i by simp
  have "c_str (take 32 (if_name i))" using n by (auto simp: c_str_def dest: in_set_takeD)
  then show "sr_get_interface sr (strncpy sr_IFACE_NAMELEN (if_name i)) = Some i"
    using get_interface_take [OF assms(1) _ assms(2)] t i
    by (simp add: strncpy_def sr_IFACE_NAMELEN_def)
qed

section \<open>Checksums of what is sent\<close>

lemma header_sum_over [simp]:
  "34 \<le> length p \<Longrightarrow> header_sum (overwrite p 14 (enc_ip g)) h = header_sum p h"
  by (simp add: header_sum_def iph.over_over)

lemma header_sum_field [simp]: "header_sum p (h\<lparr>ip_sum := x\<rparr>) = header_sum p h"
  by (simp add: header_sum_def)

text \<open>A header put under a fresh checksum is accepted by the check that the router itself makes.\<close>

lemma refreshed_valid:
  assumes "ip_shape p h0" and "ip_v h = 4" and "ip_hl h = ip_hl h0" and "ip_len h = ip_len h0"
  shows "ip_valid (refreshed p h) (h\<lparr>ip_sum := header_sum p h\<rparr>)"
proof -
  note b = ip_shapeD [OF assms(1)]
  show ?thesis
    using b assms(2-4)
    by (simp add: ip_valid_def ip_shape_def refreshed_def iph.ld_over_same iph.length_over)
qed

lemma forwarded_valid:
  assumes "ip_valid p h"
  shows "\<exists>s. ip_valid (forwarded p h) (h\<lparr>ip_ttl := ip_ttl h - 1, ip_sum := s\<rparr>)"
proof -
  have s: "ip_shape p h" using assms by (simp add: ip_valid_def)
  then have "ip_v h = 4" by (simp add: ip_shape_def)
  with refreshed_valid [OF s, of "h\<lparr>ip_ttl := ip_ttl h - 1\<rparr>"] show ?thesis
    by (auto simp: forwarded_def)
qed

text \<open>
  The acceptance test in closed form: the shape is right, the ones' complement sum of the
  header is 0 modulo \<open>2^16 - 1\<close>, as RFC 1071 asks, and the checksum field is not 0.
\<close>

lemma word_sum_enc_ip:
  "word_sum (enc_ip (h\<lparr>ip_sum := 0\<rparr>)) + unat (ntohs (ip_sum h)) = word_sum (enc_ip h)"
  by (simp add: enc_ip_def bytes16_def bytes32_def htons_def unat_le16)

lemma header_bytes:
  assumes "14 + 20 \<le> length p" and "20 \<le> n"
  shows "take n (drop 14 (overwrite p 14 (enc_ip h))) = enc_ip h @ take (n - 20) (drop 34 p)"
  using assms by (simp add: overwrite_def iph.length_enc)

lemma ip_valid_iff:
  "ip_valid p h \<longleftrightarrow>
     ip_shape p h \<and> ip_sum h \<noteq> 0 \<and> word_sum (take (hlen h) (drop 14 p)) mod 65535 = 0"
proof (cases "ip_shape p h")
  case True
  note b = ip_shapeD [OF True]
  let ?rest = "take (hlen h - 20) (drop 34 p)"
  have n: "hlen h \<le> 60" using unsigned_less [of "ip_hl h", where ?'a = nat] by simp
  have p: "overwrite p 14 (enc_ip h) = p" using b(6) by (rule iph.over_ld_id)
  have data: "take (hlen h) (drop 14 p) = enc_ip h @ ?rest"
    using header_bytes [of p "hlen h" h] b unfolding p by simp
  have zero: "take (hlen h) (drop 14 (overwrite p 14 (enc_ip (h\<lparr>ip_sum := 0\<rparr>)))) =
      enc_ip (h\<lparr>ip_sum := 0\<rparr>) @ ?rest"
    using header_bytes [of p "hlen h"] b by simp
  have "word_sum (enc_ip (h\<lparr>ip_sum := 0\<rparr>) @ ?rest) + unat (ntohs (ip_sum h)) =
      word_sum (enc_ip h @ ?rest)"
    using word_sum_enc_ip [of h] by (simp add: word_sum_append iph.length_enc)
  moreover have "length (enc_ip (h\<lparr>ip_sum := 0\<rparr>) @ ?rest) \<le> 131072"
    using n by (simp add: iph.length_enc)
  ultimately show ?thesis
    using True cksum_eq_iff [of "enc_ip (h\<lparr>ip_sum := 0\<rparr>) @ ?rest" "ip_sum h"]
    unfolding ip_valid_def header_sum_def zero data by simp
next
  case False
  then show ?thesis by (simp add: ip_valid_def)
qed

section \<open>Sending along a route\<close>

text \<open>A frame with its Ethernet addresses replaced, and with only the source replaced.\<close>

definition readdress :: "mac \<Rightarrow> mac \<Rightarrow> u8 list \<Rightarrow> u8 list" where
  "readdress dst src p = mac_bytes dst @ mac_bytes src @ drop 12 p"

definition resource :: "mac \<Rightarrow> u8 list \<Rightarrow> u8 list" where
  "resource src p = take 6 p @ mac_bytes src @ drop 12 p"

lemma length_readdress [simp]:
  "14 \<le> length p \<Longrightarrow> length (readdress dst src p) = length p"
  "14 \<le> length p \<Longrightarrow> length (resource src p) = length p"
  by (simp_all add: readdress_def resource_def)

lemma readdress_resource [simp]: "14 \<le> length p \<Longrightarrow> readdress dst src (resource src' p) = readdress dst src p"
  by (simp add: readdress_def resource_def)

lemma overwrite_eth:
  assumes "ld_eth p 0 = Some g"
  shows "overwrite p 0 (enc_eth (g\<lparr>ether_dhost := dst, ether_shost := src\<rparr>)) = readdress dst src p"
    and "overwrite p 0 (enc_eth (g\<lparr>ether_shost := src\<rparr>)) = resource src p"
proof -
  have len: "14 \<le> length p" using assms eth.ld_None_iff [of p 0] by (cases "length p < 14") auto
  have g: "enc_eth g = take 14 p" using eth.enc_eq_slice [OF assms] by simp
  have t: "bytes16 (ether_type g) = take 2 (drop 12 p)"
    using arg_cong [OF g, of "drop 12"] by (simp add: enc_eth_def take_drop)
  have d: "mac_bytes (ether_dhost g) = take 6 p"
    using arg_cong [OF g, of "take 6"] by (simp add: enc_eth_def min_def)
  have tail: "take 2 (drop 12 p) @ drop 14 p = drop 12 p"
    using append_take_drop_id [of 2 "drop 12 p"] by simp
  show "overwrite p 0 (enc_eth (g\<lparr>ether_dhost := dst, ether_shost := src\<rparr>)) = readdress dst src p"
    and "overwrite p 0 (enc_eth (g\<lparr>ether_shost := src\<rparr>)) = resource src p"
    using tail len by (simp_all add: overwrite_prefix enc_eth_def readdress_def resource_def t d min_def)
qed

lemma ld_eth_readdress:
  assumes "14 \<le> length p"
  obtains g where "ld_eth (readdress dst src p) 0 = Some g" "ether_shost g = src" "ether_dhost g = dst"
proof -
  obtain g where g: "ld_eth p 0 = Some g" using assms by (simp add: eth.ld_in_bounds)
  have "ld_eth (readdress dst src p) 0 = Some (g\<lparr>ether_dhost := dst, ether_shost := src\<rparr>)"
    unfolding overwrite_eth(1) [OF g, symmetric] using assms by (simp add: eth.ld_over_same)
  then show thesis by (rule that) simp_all
qed

definition next_hop :: "sr_rt \<Rightarrow> u32 \<Rightarrow> u32" where
  "next_hop rt ip = (if rt_gw rt \<noteq> 0 then rt_gw rt else ip)"

text \<open>Where a packet goes: its route, the interface of the route and the next hop.\<close>

definition route_to :: "sr_instance \<Rightarrow> u32 \<Rightarrow> (sr_if \<times> u32) option" where
  "route_to sr ip =
     (case sr_find_lpm_route sr ip of
        None \<Rightarrow> None
      | Some rt \<Rightarrow> map_option (\<lambda>out. (out, next_hop rt ip)) (sr_get_interface sr (rt_interface rt)))"

lemma route_lookups_config:
  assumes c: "same_config sr sr'"
  shows "route_to sr' = route_to sr" and "sr_find_icmp_source_iface sr' = sr_find_icmp_source_iface sr"
proof -
  have l: "sr_find_lpm_route sr' = sr_find_lpm_route sr"
    using c by (simp add: fun_eq_iff sr_find_lpm_route_def same_config_def)
  show "route_to sr' = route_to sr" and "sr_find_icmp_source_iface sr' = sr_find_icmp_source_iface sr"
    by (simp_all add: fun_eq_iff route_to_def sr_find_icmp_source_iface_def l same_config_lookups [OF c]
        cong: option.case_cong)
qed

lemma route_to_iface:
  assumes "names_ok sr" and "route_to sr ip = Some (out, nh)"
  shows "sr_get_interface sr (if_name out) = Some out"
    and "sr_get_interface sr (strncpy sr_IFACE_NAMELEN (if_name out)) = Some out"
proof -
  obtain rt where rt: "sr_find_lpm_route sr ip = Some rt" "sr_get_interface sr (rt_interface rt) = Some out"
    using assms(2) by (auto simp: route_to_def split: option.splits)
  have "rt \<in> set (routing_table sr)"
    using rt(1) by (auto simp: lpm_Some_iff dest: best_route_matches)
  then have "c_str (rt_interface rt)" using assms(1) by (simp add: names_ok_def)
  from get_interface_again [OF assms(1) this rt(2)]
  show "sr_get_interface sr (if_name out) = Some out"
    and "sr_get_interface sr (strncpy sr_IFACE_NAMELEN (if_name out)) = Some out" .
qed

lemma send_frame:
  assumes "env_ok e" and "14 \<le> length p" and "length p < 2 ^ 31" and "sr_get_interface sr name = Some out"
  shows "sr_send_packet e sr (readdress m (if_addr out) p) (length p) name =
    Some (0, emit e name (readdress m (if_addr out) p) sr)"
proof -
  obtain g where g: "ld_eth (readdress m (if_addr out) p) 0 = Some g" "ether_shost g = if_addr out"
    using ld_eth_readdress [OF assms(2)] by metis
  show ?thesis
    using sr_send_packet_ok [OF assms(1) _ _ assms(4) g] assms(2,3) by simp
qed

lemma send_routed_none:
  assumes "34 \<le> length p" and "ld_ip p 14 = Some h" and "route_to sr (ip_dst h) = None"
  shows "sr_send_routed_ip_packet e sr p (length p) = Some sr"
  using assms by (auto simp: sr_send_routed_ip_packet_def route_to_def split: option.splits)

lemma send_routed_eq:
  assumes e: "env_ok e" and len: "34 \<le> length p" and h: "ld_ip p 14 = Some h"
    and r: "route_to sr (ip_dst h) = Some (out, nh)"
  shows "sr_send_routed_ip_packet e sr p (length p) =
    (case arp_mac (cache sr) nh of
       Some m \<Rightarrow> do { (_, sr) \<leftarrow> sr_send_packet e sr (readdress m (if_addr out) p) (length p) (if_name out);
                    Some sr }
     | None \<Rightarrow> do { (req, c) \<leftarrow> sr_arpcache_queuereq e (cache sr) nh (resource (if_addr out) p) (length p)
                     (if_name out);
                   r \<leftarrow> deref_req c req;
                   if req_times_sent r = 0 then
                     do { sr \<leftarrow> sr_send_arp_request e (sr\<lparr>cache := c\<rparr>) (req_ip r) (if_name out);
                          Some (sr\<lparr>cache := update_req req (mark_sent e) (cache sr)\<rparr>) }
                   else Some (sr\<lparr>cache := c\<rparr>) })"
proof -
  obtain rt where rt: "sr_find_lpm_route sr (ip_dst h) = Some rt"
      "sr_get_interface sr (rt_interface rt) = Some out" "nh = next_hop rt (ip_dst h)"
    using r by (auto simp: route_to_def split: option.splits)
  obtain g where g: "ld_eth p 0 = Some g" using len by (simp add: eth.ld_in_bounds)
  have st: "st_eth q 0 x = Some (overwrite q 0 (enc_eth x))" if "length q = length p" for q x
    using len that by (simp add: eth.st_in_bounds)
  have two: "ld_eth (overwrite p 0 (enc_eth x)) 0 = Some x"
    "overwrite (overwrite p 0 (enc_eth x)) 0 (enc_eth y) = overwrite p 0 (enc_eth y)"
    "length (overwrite p 0 (enc_eth x)) = length p" for x y
    using len by (simp_all add: eth.ld_over_same eth.over_over eth.length_over)
  have nh: "(if rt_gw rt \<noteq> 0 then rt_gw rt else ip_dst h) = nh"
    by (simp add: rt(3) next_hop_def)
  have ad: "g\<lparr>ether_shost := if_addr out, ether_dhost := m, ether_shost := if_addr out\<rparr> =
    g\<lparr>ether_dhost := m, ether_shost := if_addr out\<rparr>" for m by simp
  show ?thesis
    using e
    by (cases "lookup_loop (entries (cache sr)) nh None")
      (simp_all add: sr_send_routed_ip_packet_def h rt(1,2) load_in_bounds g st two nh ad Let_def
        arpcache_lookup_ok arp_mac_def overwrite_eth [OF g] split del: if_split)
qed

lemma send_routed_hit:
  assumes e: "env_ok e" and n: "names_ok sr" and len: "34 \<le> length p" "length p < 2 ^ 31"
    and h: "ld_ip p 14 = Some h" and r: "route_to sr (ip_dst h) = Some (out, nh)"
    and m: "arp_mac (cache sr) nh = Some m"
  shows "sr_send_routed_ip_packet e sr p (length p) =
    Some (emit e (if_name out) (readdress m (if_addr out) p) sr)"
  using send_frame [OF e _ len(2) route_to_iface(1) [OF n r]] len(1) m
  by (simp add: send_routed_eq [OF e len(1) h r])

lemma send_arp_request_emit:
  assumes e: "env_ok e" and i: "sr_get_interface sr name = Some out"
  shows "sr_send_arp_request e sr ip name = Some (emit e name (arp_request_frame out ip) sr)"
proof -
  have "ld_eth (arp_request_frame out ip) 0 =
      Some \<lparr>ether_dhost = broadcast, ether_shost = if_addr out, ether_type = htons ethertype_arp\<rparr>"
    by (simp add: arp_request_frame_def ld_def load_def eth.length_enc eth.dec_enc)
  from sr_send_packet_ok [OF e _ _ i this] e i show ?thesis by (simp add: send_arp_request_eq)
qed

lemma send_arp_reply_emit:
  assumes e: "env_ok e" and i: "sr_get_interface sr name = Some out"
  shows "sr_send_arp_reply e sr a name = Some (emit e name (arp_reply_frame out a) sr)"
proof -
  have "ld_eth (arp_reply_frame out a) 0 =
      Some \<lparr>ether_dhost = ar_sha a, ether_shost = if_addr out, ether_type = htons ethertype_arp\<rparr>"
    by (simp add: arp_reply_frame_def ld_def load_def eth.length_enc eth.dec_enc)
  from sr_send_packet_ok [OF e _ _ i this] e i show ?thesis by (simp add: send_arp_reply_eq)
qed

text \<open>The first packet for an unknown next hop opens a request and asks for the address at once.\<close>

definition open_request :: "env \<Rightarrow> sr_arpcache \<Rightarrow> u32 \<Rightarrow> sr_packet \<Rightarrow> sr_arpcache" where
  "open_request e c ip pkt =
     c\<lparr>requests := \<lparr>req_self = next_addr c, req_ip = ip, req_sent = now e, req_times_sent = 1,
                    req_packets = [pkt]\<rparr> # requests c,
       next_addr := Suc (next_addr c)\<rparr>"

lemma resource_nonempty: "14 \<le> length p \<Longrightarrow> resource m p \<noteq> []"
  by (simp add: resource_def)

lemma send_routed_first_miss:
  assumes e: "env_ok e" and n: "names_ok sr" and inv: "queue_inv (cache sr)" and len: "34 \<le> length p"
    and h: "ld_ip p 14 = Some h" and r: "route_to sr (ip_dst h) = Some (out, nh)"
    and m: "arp_mac (cache sr) nh = None" and q: "pending (cache sr) nh = None"
  shows "sr_send_routed_ip_packet e sr p (length p) =
    Some (emit e (if_name out) (arp_request_frame out nh)
      (sr\<lparr>cache := open_request e (cache sr) nh
         (queued_packet (resource (if_addr out) p) (if_name out))\<rparr>))"
proof -
  let ?c = "cache sr" and ?buf = "resource (if_addr out) p"
  let ?pkt = "queued_packet ?buf (if_name out)"
  let ?r = "\<lparr>req_self = next_addr ?c, req_ip = nh, req_sent = 0, req_times_sent = 0, req_packets = [?pkt]\<rparr>"
  let ?c' = "?c\<lparr>requests := ?r # requests ?c, next_addr := Suc (next_addr ?c)\<rparr>"
  have f: "find_req (requests ?c) nh = None" using q by (simp add: pending_def)
  have old: "(if req_self x = next_addr ?c then g x else x) = x" if "x \<in> set (requests ?c)" for x g
    using inv that by (auto simp: queue_inv_def)
  have len': "length ?buf = length p" using len by simp
  have "sr_arpcache_queuereq e ?c nh ?buf (length p) (if_name out) = Some (next_addr ?c, ?c')"
    using queuereq_eq [of e ?buf ?c nh "if_name out"] e resource_nonempty len f old
    unfolding len' by (simp add: update_req_def new_request_def add_packet_def cong: map_cong)
  moreover have "deref_req ?c' (next_addr ?c) = Some ?r" by (simp add: deref_req_def)
  moreover have "update_req (next_addr ?c) (mark_sent e) ?c' = open_request e ?c nh ?pkt"
    using old by (simp add: update_req_def mark_sent_def open_request_def cong: map_cong)
  moreover have "sr_send_arp_request e (sr\<lparr>cache := ?c'\<rparr>) nh (if_name out) =
      Some (emit e (if_name out) (arp_request_frame out nh) (sr\<lparr>cache := ?c'\<rparr>))"
    using route_to_iface(1) [OF n r] by (intro send_arp_request_emit [OF e]) simp
  ultimately show ?thesis
    by (simp add: send_routed_eq [OF e len h r] m emit_def)
qed

text \<open>Later ones only join the queue.\<close>

lemma send_routed_later_miss:
  assumes e: "env_ok e" and len: "34 \<le> length p" and inv: "queue_inv (cache sr)"
    and h: "ld_ip p 14 = Some h" and r: "route_to sr (ip_dst h) = Some (out, nh)"
    and m: "arp_mac (cache sr) nh = None"
    and q: "find_req (requests (cache sr)) nh = Some rq" "req_times_sent rq \<noteq> 0"
  shows "sr_send_routed_ip_packet e sr p (length p) =
    Some (sr\<lparr>cache := update_req (req_self rq)
      (add_packet (queued_packet (resource (if_addr out) p) (if_name out))) (cache sr)\<rparr>)"
proof -
  let ?buf = "resource (if_addr out) p"
  let ?f = "add_packet (queued_packet ?buf (if_name out))"
  have len': "length ?buf = length p" using len by simp
  have "sr_arpcache_queuereq e (cache sr) nh ?buf (length p) (if_name out) =
      Some (req_self rq, update_req (req_self rq) ?f (cache sr))"
    using queuereq_eq [of e ?buf "cache sr" nh "if_name out"] e resource_nonempty len q(1)
    unfolding len' by simp
  moreover have "deref_req (update_req (req_self rq) ?f (cache sr)) (req_self rq) = Some (?f rq)"
    using deref_req_unique [OF inv] q(1) by (simp add: deref_req_update find_req_Some)
  ultimately show ?thesis
    using q(2) by (simp add: send_routed_eq [OF e len h r] m add_packet_def)
qed

section \<open>ARP\<close>

text \<open>Sending one packet that waited for the address \<open>sha\<close>.\<close>

definition flush_one :: "env \<Rightarrow> mac \<Rightarrow> sr_packet \<Rightarrow> sr_instance \<Rightarrow> sr_instance" where
  "flush_one e sha q sr =
     (case sr_get_interface sr (pkt_iface q) of
        None \<Rightarrow> sr
      | Some out \<Rightarrow> emit e (pkt_iface q) (readdress sha (if_addr out) (pkt_buf q)) sr)"

lemma flush_one_simps [simp]:
  "same_config sr' (flush_one e sha q sr) = same_config sr' sr"
  "cache (flush_one e sha q sr) = cache sr"
  "sr_get_interface (flush_one e sha q sr) name = sr_get_interface sr name"
  "flush_one e sha q (sr\<lparr>cache := c\<rparr>) = (flush_one e sha q sr)\<lparr>cache := c\<rparr>"
  by (auto simp: flush_one_def sr_get_interface_def emit_def split: option.split)

lemma fold_flush_simps [simp]:
  "same_config sr' (fold (flush_one e sha) qs sr) = same_config sr' sr"
  "cache (fold (flush_one e sha) qs sr) = cache sr"
  "sr_get_interface (fold (flush_one e sha) qs sr) name = sr_get_interface sr name"
  "fold (flush_one e sha) qs (sr\<lparr>cache := c\<rparr>) = (fold (flush_one e sha) qs sr)\<lparr>cache := c\<rparr>"
  by (induction qs arbitrary: sr) simp_all

lemma flush_packets_eq:
  "env_ok e \<Longrightarrow> \<forall>q \<in> set qs. pkt_ok q \<Longrightarrow>
   flush_packets e sr sha qs = Some (fold (flush_one e sha) qs sr)"
proof (induction qs arbitrary: sr)
  case (Cons q qs)
  have q: "14 \<le> length (pkt_buf q)" "pkt_len q = length (pkt_buf q)" "length (pkt_buf q) < 2 ^ 31"
    using Cons.prems(2) by (auto simp: pkt_ok_def)
  obtain g where g: "ld_eth (pkt_buf q) 0 = Some g" using q(1) by (simp add: eth.ld_in_bounds)
  have st: "st_eth (pkt_buf q) 0 x = Some (overwrite (pkt_buf q) 0 (enc_eth x))" for x
    using q(1) by (simp add: eth.st_in_bounds)
  show ?case
    using Cons send_frame [OF Cons.prems(1) q(1,3), of sr "pkt_iface q"]
    by (simp add: g st overwrite_eth(1) [OF g] q(2) flush_one_def split: option.split)
qed simp

text \<open>The messages the flushed packets become, in order.\<close>

definition flush_msgs :: "sr_instance \<Rightarrow> mac \<Rightarrow> sr_packet list \<Rightarrow> u8 list list" where
  "flush_msgs sr sha qs =
     concat (map (\<lambda>q. case sr_get_interface sr (pkt_iface q) of
        None \<Rightarrow> []
      | Some out \<Rightarrow> [vns_packet (pkt_iface q) (readdress sha (if_addr out) (pkt_buf q))]) qs)"

lemma flush_sock_out: "sock_out (fold (flush_one e sha) qs sr) = sock_out sr @ flush_msgs sr sha qs"
proof (induction qs arbitrary: sr)
  case (Cons q qs)
  have "flush_msgs (flush_one e sha q sr) sha qs = flush_msgs sr sha qs"
    by (simp add: flush_msgs_def)
  with Cons show ?case by (simp add: flush_one_def flush_msgs_def split: option.split)
qed (simp add: flush_msgs_def)

text \<open>Learning an address: the table, the queue, and the packets that were waiting for it.\<close>

definition waiting_for :: "sr_instance \<Rightarrow> u32 \<Rightarrow> sr_packet list" where
  "waiting_for sr ip = (case pending (cache sr) ip of None \<Rightarrow> [] | Some qs \<Rightarrow> qs)"

definition learned :: "env \<Rightarrow> sr_instance \<Rightarrow> sr_arp_hdr \<Rightarrow> sr_instance" where
  "learned e sr a =
     (fold (flush_one e (ar_sha a)) (waiting_for sr (ar_sip a)) sr)
       \<lparr>cache := cache_learn e (cache sr) (ar_sha a) (ar_sip a)\<rparr>"

lemma learned_simps [simp]:
  "same_config sr' (learned e sr a) = same_config sr' sr"
  "cache (learned e sr a) = cache_learn e (cache sr) (ar_sha a) (ar_sip a)"
  "sr_get_interface (learned e sr a) name = sr_get_interface sr name"
  "sock_out (learned e sr a) = sock_out sr @ flush_msgs sr (ar_sha a) (waiting_for sr (ar_sip a))"
  by (simp_all add: learned_def flush_sock_out)

lemma cache_arp_mapping_eq:
  assumes e: "env_ok e" and inv: "router_inv sr"
  shows "sr_cache_arp_mapping e sr a = Some (learned e sr a)"
proof -
  let ?ins = "sr_arpcache_insert e (cache sr) (ar_sha a) (ar_sip a)"
  have q: "queue_inv (cache sr)" using inv by (simp add: router_inv_def cache_inv_def)
  show ?thesis
  proof (cases "find_req (requests (cache sr)) (ar_sip a)")
    case None
    then show ?thesis
      by (simp add: sr_cache_arp_mapping_def split_beta insert_requests learned_def waiting_for_def
          pending_def cache_learn_def)
  next
    case (Some r)
    then have r: "r \<in> set (requests (cache sr))" "req_ip r = ar_sip a" by (auto dest: find_req_Some)
    have ok: "\<forall>p \<in> set (req_packets r). pkt_ok p"
      using inv r(1) by (auto simp: router_inv_def queue_pkts_ok_def)
    have "req_self r \<notin> req_self ` set (requests (snd ?ins))"
      using q r find_req_unique [of "requests (cache sr)"] deref_req_unique [OF q] Some
      by (auto simp: insert_requests snd_unlink_ip queue_inv_def image_iff) (metis option.inject)
    then have "sr_arpreq_destroy (snd ?ins) (req_self r) = snd ?ins"
      by (simp add: sr_arpreq_destroy_def unlink_addr_absent)
    with Some flush_packets_eq [OF e ok] show ?thesis
      by (simp add: sr_cache_arp_mapping_def split_beta insert_requests learned_def waiting_for_def
          pending_def cache_learn_def)
  qed
qed

lemma handle_arp_eq:
  assumes e: "env_ok e" and inv: "router_inv sr" and len: "42 \<le> length p"
    and a: "ld_arp p 14 = Some a" and i: "sr_get_interface sr iface = Some rcv"
  shows "sr_handle_arp e sr p (length p) iface =
    Some (if ar_sip a = 0 then sr
          else if ntohs (ar_op a) = arp_op_request then
            if ar_tip a = if_ip rcv then emit e iface (arp_reply_frame rcv a) (learned e sr a)
            else learned e sr a
          else if ntohs (ar_op a) = arp_op_reply \<and> sr_is_router_ip sr (ar_tip a) then learned e sr a
          else sr)"
  using len
  by (simp add: sr_handle_arp_def a i cache_arp_mapping_eq [OF e inv] send_arp_reply_emit [OF e]
      arp_op_request_def arp_op_reply_def)

section \<open>ICMP messages\<close>

lemma error_ip_lens:
  "hlen (icmp_error_ip s d) = 20" "tlen (icmp_error_ip s d) = 56" "ip_v (icmp_error_ip s d) = 4"
  by (simp_all add: icmp_error_ip_def)

text \<open>An error message is an IP packet that this router, or the next one, accepts ...\<close>

lemma icmp_error_frame_valid:
  assumes "length data \<le> 28"
  shows "ip_valid (icmp_error_frame out m dst type code data)
    ((icmp_error_ip (if_ip out) dst)\<lparr>ip_sum := cksum (enc_ip (icmp_error_ip (if_ip out) dst))\<rparr>)"
proof -
  let ?i = "icmp_error_ip (if_ip out) dst"
  let ?f = "icmp_error_frame out m dst type code data"
  let ?h = "?i\<lparr>ip_sum := cksum (enc_ip ?i)\<rparr>"
  obtain E where f: "?f = E @ enc_ip ?h @ icmp_error_body type code
      (cksum (icmp_error_body type code 0 data)) data" and E: "length E = 14"
    by (simp add: icmp_error_frame_def Let_def eth.length_enc)
  have "ld_ip ?f 14 = Some ?h"
    unfolding f by (simp add: ld_def load_prefix [OF E] iph.length_enc iph.dec_enc)
  then have s: "ip_shape ?f ?h"
    using assms error_ip_lens [of "if_ip out" dst] by (simp add: ip_shape_def)
  have z: "?h\<lparr>ip_sum := 0\<rparr> = ?i" by (simp add: icmp_error_ip_def)
  have "take 20 (drop 14 (overwrite ?f 14 (enc_ip ?i))) = enc_ip ?i"
    using assms by (simp add: iph.slice_over_same)
  then have "header_sum ?f ?h = cksum (enc_ip ?i)"
    using error_ip_lens(1) [of "if_ip out" dst] unfolding header_sum_def z by simp
  with s show ?thesis by (simp add: ip_valid_def)
qed

text \<open>... and its ICMP checksum is right as well.\<close>

lemma word_sum_error_body:
  "word_sum (icmp_error_body type code x data) =
   word_sum (icmp_error_body type code 0 data) + unat (ntohs x)"
  by (simp add: icmp_error_body_def enc_icmp11_def bytes16_def bytes32_def htons_def unat_le16)

lemma icmp_error_frame_icmp:
  assumes "length data \<le> 28"
  shows "word_sum (drop 34 (icmp_error_frame out m dst type code data)) mod 65535 = 0"
proof -
  let ?b = "icmp_error_body type code"
  have "drop 34 (icmp_error_frame out m dst type code data) = ?b (cksum (?b 0 data)) data"
    by (simp add: icmp_error_frame_def Let_def eth.length_enc iph.length_enc)
  with cksum_complements [of "?b 0 data"] assms show ?thesis
    by (simp add: word_sum_error_body [of _ _ "cksum _"])
qed

lemma icmp_error_frame_layout:
  assumes "length data \<le> 28"
  shows "\<exists>x. take 8 (drop 34 (icmp_error_frame out m dst type code data)) =
      [type, code] @ bytes16 x @ [0, 0, 0, 0]"
    and "drop 42 (icmp_error_frame out m dst type code data) = data @ replicate (28 - length data) 0"
proof -
  obtain E :: "u8 list" and C where f: "icmp_error_frame out m dst type code data =
      E @ enc_icmp11 C @ data @ replicate (28 - length data) 0" and E: "length E = 34"
      and C: "icmp_type C = type" "icmp_code C = code" "icmp_unused C = 0"
    by (force simp: icmp_error_frame_def Let_def icmp_error_body_def eth.length_enc iph.length_enc
        intro: that [of "enc_eth a @ enc_ip b" "\<lparr>icmp_type = type, icmp_code = code, icmp_sum = x, icmp_unused = 0\<rparr>" for a b x])
  show "\<exists>x. take 8 (drop 34 (icmp_error_frame out m dst type code data)) =
      [type, code] @ bytes16 x @ [0, 0, 0, 0]"
    unfolding f using E C icmp11.length_enc [of C]
    by (auto simp: enc_icmp11_def bytes32_def intro!: exI [of _ "icmp_sum C"])
  show "drop 42 (icmp_error_frame out m dst type code data) = data @ replicate (28 - length data) 0"
    unfolding f using E by (simp add: icmp11.length_enc)
qed

text \<open>An echo reply, likewise: the header checks out with source and destination exchanged.\<close>

lemma ip_valid_cong:
  assumes "length q = length p" and t: "take (14 + hlen h) q = take (14 + hlen h) p" and v: "ip_valid p h"
  shows "ip_valid q h"
proof -
  have s: "ip_shape p h" using v by (simp add: ip_valid_def)
  note b = ip_shapeD [OF s]
  have hd: "take (hlen h) (drop 14 q) = take (hlen h) (drop 14 p)"
    using arg_cong [OF t, of "drop 14"] by (simp add: drop_take)
  have "take 20 (drop 14 q) = take 20 (drop 14 p)"
    using arg_cong [OF hd, of "take 20"] b(3) by (simp add: min_def)
  then have "ld_ip q 14 = ld_ip p 14" using assms(1) by (simp add: ld_def load_def)
  with v s hd assms(1) show ?thesis by (simp add: ip_valid_iff ip_shape_def)
qed

lemma ip_shape_eth: "ip_shape p h \<Longrightarrow> ip_shape (overwrite p 0 (enc_eth g)) h"
  using ip_shapeD(1) [of p h] by (simp add: ip_shape_def eth.length_over eth.ld_over_after)

lemma echo_reply_parts:
  assumes "20 \<le> hlen h" and "14 + hlen h + 8 \<le> length p"
  obtains csum where "echo_reply_frame out p eh h ic =
    overwrite (refreshed (overwrite p 0 (enc_eth (eh\<lparr>ether_dhost := ether_shost eh,
      ether_shost := if_addr out\<rparr>))) (echo_ip h)) (14 + hlen h) (enc_icmp08 ((echo_icmp ic)\<lparr>icmp08_sum := csum\<rparr>))"
proof -
  have "echo_ip h\<lparr>ip_sum := 0\<rparr> = echo_ip h" "hlen (echo_ip h) = hlen h" by (simp_all add: echo_ip_def)
  with that show thesis by (simp add: echo_reply_frame_def Let_def refreshed_def header_sum_def)
qed

lemma echo_reply_valid:
  assumes s: "ip_shape p h" and i: "hlen h + 8 \<le> tlen h"
  shows "\<exists>x. ip_valid (echo_reply_frame out p eh h ic)
    (h\<lparr>ip_src := ip_dst h, ip_dst := ip_src h, ip_ttl := INIT_TTL, ip_sum := x\<rparr>)"
proof -
  note b = ip_shapeD [OF s]
  let ?p1 = "overwrite p 0 (enc_eth (eh\<lparr>ether_dhost := ether_shost eh, ether_shost := if_addr out\<rparr>))"
  let ?g = "(echo_ip h)\<lparr>ip_sum := header_sum ?p1 (echo_ip h)\<rparr>"
  have l: "14 + hlen h + 8 \<le> length p" using b i by linarith
  have s1: "ip_shape ?p1 h" using s by (rule ip_shape_eth)
  have "ip_v h = 4" using s by (simp add: ip_shape_def)
  then have v: "ip_valid (refreshed ?p1 (echo_ip h)) ?g"
    by (intro refreshed_valid [OF s1]) (simp_all add: echo_ip_def)
  have len: "length ?p1 = length p" "length (refreshed ?p1 (echo_ip h)) = length p"
    using b(1) by (simp_all add: eth.length_over length_refreshed)
  have k: "hlen ?g = hlen h" by (simp add: echo_ip_def)
  obtain csum where q: "echo_reply_frame out p eh h ic = overwrite (refreshed ?p1 (echo_ip h)) (14 + hlen h)
      (enc_icmp08 ((echo_icmp ic)\<lparr>icmp08_sum := csum\<rparr>))"
    by (rule echo_reply_parts [OF b(3) l])
  have "ip_valid (echo_reply_frame out p eh h ic) ?g"
    unfolding q using l len by (intro ip_valid_cong [OF _ _ v])
      (simp_all only: k icmp08.length_over icmp08.take_over_before order_refl)
  then show ?thesis by (auto simp: echo_ip_def)
qed

text \<open>Its ICMP part: the same identifier, sequence number and data under a right checksum.\<close>

lemma word_sum_enc_icmp08:
  "word_sum (enc_icmp08 (g\<lparr>icmp08_sum := x\<rparr>)) =
   word_sum (enc_icmp08 (g\<lparr>icmp08_sum := 0\<rparr>)) + unat (ntohs x)"
  by (simp add: enc_icmp08_def bytes16_def htons_def unat_le16)

lemma icmp08_bytes:
  assumes "off + 8 \<le> length b" and "8 \<le> n"
  shows "take n (drop off (overwrite b off (enc_icmp08 g))) = enc_icmp08 g @ take (n - 8) (drop (off + 8) b)"
  using assms by (simp add: overwrite_def icmp08.length_enc)

lemma icmp08_sum_ok:
  assumes "off + 8 \<le> length b" and "8 \<le> n" and "n \<le> 65535"
    and "x = cksum (take n (drop off (overwrite b off (enc_icmp08 (g\<lparr>icmp08_sum := 0\<rparr>)))))"
  shows "word_sum (take n (drop off (overwrite b off (enc_icmp08 (g\<lparr>icmp08_sum := x\<rparr>))))) mod 65535 = 0"
proof -
  let ?rest = "take (n - 8) (drop (off + 8) b)"
  have "length (enc_icmp08 (g\<lparr>icmp08_sum := 0\<rparr>) @ ?rest) \<le> 131072"
    using assms(3) by (simp add: icmp08.length_enc)
  note c = cksum_complements [OF this, folded icmp08_bytes [OF assms(1,2)] assms(4)]
  show ?thesis
    using c unfolding icmp08_bytes [OF assms(1,2)]
    by (simp add: word_sum_append icmp08.length_enc word_sum_enc_icmp08 [where x = x] ac_simps)
qed

lemma echo_reply_icmp:
  assumes s: "ip_shape p h" and i: "hlen h + 8 \<le> tlen h"
  shows "word_sum (take (tlen h - hlen h) (drop (14 + hlen h) (echo_reply_frame out p eh h ic))) mod 65535 = 0"
    and "\<exists>x. ld_icmp08 (echo_reply_frame out p eh h ic) (14 + hlen h) =
           Some (ic\<lparr>icmp08_type := 0, icmp08_code := 0, icmp08_sum := x\<rparr>)"
    and "drop (14 + hlen h + 8) (echo_reply_frame out p eh h ic) = drop (14 + hlen h + 8) p"
proof -
  note b = ip_shapeD [OF s]
  obtain k where k: "hlen h = k" by blast
  define p2 where "p2 = refreshed (overwrite p 0 (enc_eth (eh\<lparr>ether_dhost := ether_shost eh,
    ether_shost := if_addr out\<rparr>))) (echo_ip h)"
  have l: "14 + k + 8 \<le> length p" "34 \<le> length p" "20 \<le> k" using b i unfolding k by linarith+
  have len: "length p2 = length p" using l(2) by (simp add: p2_def eth.length_over length_refreshed)
  have tail: "drop (14 + k + 8) p2 = drop (14 + k + 8) p"
    using l by (simp add: p2_def refreshed_def eth.length_over iph.drop_over_after eth.drop_over_after)
  have t: "8 \<le> tlen h - k" "tlen h - k \<le> 65535"
    using i k unsigned_less [of "ntohs (ip_len h)", where ?'a = nat] by simp_all
  obtain x where x: "x = cksum (take (tlen h - k) (drop (14 + k)
        (overwrite p2 (14 + k) (enc_icmp08 ((echo_icmp ic)\<lparr>icmp08_sum := 0\<rparr>)))))" by blast
  have z: "echo_ip h\<lparr>ip_sum := 0\<rparr> = echo_ip h" "hlen (echo_ip h) = hlen h"
    "(echo_icmp ic)\<lparr>icmp08_sum := 0\<rparr> = echo_icmp ic"
    by (simp_all add: echo_ip_def echo_icmp_def)
  have q: "echo_reply_frame out p eh h ic =
      overwrite p2 (14 + k) (enc_icmp08 ((echo_icmp ic)\<lparr>icmp08_sum := x\<rparr>))"
    unfolding x k [symmetric] p2_def
    by (simp add: echo_reply_frame_def Let_def refreshed_def header_sum_def z)
  have l2: "14 + k + 8 \<le> length p2" using l len by simp
  show "word_sum (take (tlen h - hlen h) (drop (14 + hlen h) (echo_reply_frame out p eh h ic))) mod 65535 = 0"
    unfolding k q by (rule icmp08_sum_ok [OF l2 t x])
  show "\<exists>x. ld_icmp08 (echo_reply_frame out p eh h ic) (14 + hlen h) =
      Some (ic\<lparr>icmp08_type := 0, icmp08_code := 0, icmp08_sum := x\<rparr>)"
    unfolding k q using icmp08.ld_over_same [OF l2] by (auto simp: echo_icmp_def)
  show "drop (14 + hlen h + 8) (echo_reply_frame out p eh h ic) = drop (14 + hlen h + 8) p"
    unfolding k q using icmp08.drop_over_after [OF order_refl l2] tail by simp
qed

lemma echo_reply_eth:
  assumes s: "ip_shape p h" and i: "hlen h + 8 \<le> tlen h" and eh: "ld_eth p 0 = Some eh"
  shows "take 14 (echo_reply_frame out p eh h ic) = take 14 (readdress (ether_shost eh) (if_addr out) p)"
proof -
  note b = ip_shapeD [OF s]
  have l: "14 + hlen h + 8 \<le> length p" using b i by linarith
  let ?p1 = "overwrite p 0 (enc_eth (eh\<lparr>ether_dhost := ether_shost eh, ether_shost := if_addr out\<rparr>))"
  obtain csum where q: "echo_reply_frame out p eh h ic = overwrite (refreshed ?p1 (echo_ip h)) (14 + hlen h)
      (enc_icmp08 ((echo_icmp ic)\<lparr>icmp08_sum := csum\<rparr>))"
    by (rule echo_reply_parts [OF b(3) l])
  have len: "length (refreshed ?p1 (echo_ip h)) = length p" "length ?p1 = length p"
    using b(1) by (simp_all add: eth.length_over length_refreshed)
  have "take 14 (echo_reply_frame out p eh h ic) = take 14 (refreshed ?p1 (echo_ip h))"
    unfolding q by (rule icmp08.take_over_before) (use l len in simp_all)
  also have "\<dots> = take 14 ?p1"
    unfolding refreshed_def by (rule iph.take_over_before) (use b(1) len in simp_all)
  finally show ?thesis by (simp add: overwrite_eth(1) [OF eh])
qed

lemma echo_reply_emit:
  assumes e: "env_ok e" and i: "sr_get_interface sr iface = Some out" and s: "ip_shape p h"
    and n: "hlen h + 8 \<le> tlen h" and eh: "ld_eth p 0 = Some eh"
    and ic: "ld_icmp08 p (14 + hlen h) = Some ic" and max: "length p < 2 ^ 31"
  shows "sr_send_icmp_echo_reply e sr p (length p) iface =
    Some (emit e iface (echo_reply_frame out p eh h ic) sr)"
proof -
  note b = ip_shapeD [OF s]
  have l: "14 + hlen h + 8 \<le> length p" "14 \<le> length p" using b n by linarith+
  have len: "length (echo_reply_frame out p eh h ic) = length p"
    by (rule length_echo_reply_frame [OF b(3) l(1)])
  obtain g where g: "ld_eth (readdress (ether_shost eh) (if_addr out) p) 0 = Some g"
      "ether_shost g = if_addr out"
    using ld_eth_readdress [OF l(2)] by metis
  have "ld_eth (echo_reply_frame out p eh h ic) 0 = Some g"
    using g(1) echo_reply_eth [OF s n eh, of out ic] l(2) len by (simp add: ld_def load_def)
  from sr_send_packet_ok [OF e _ _ i this g(2)] l(2) max len e show ?thesis
    by (simp add: echo_reply_eq [OF _ i s n eh ic])
qed

section \<open>The entry point\<close>

lemma handlepacket_type:
  assumes "ld_eth p 0 = Some eh"
  shows "sr_handlepacket e sr p (length p) iface =
    (if ntohs (ether_type eh) = ethertype_arp then sr_handle_arp e sr p (length p) iface
     else if ntohs (ether_type eh) = ethertype_ip then sr_handle_ip e sr p (length p) iface
     else Some sr)"
proof -
  have "14 \<le> length p" using assms eth.ld_None_iff [of p 0] by (cases "length p < 14") auto
  with assms show ?thesis by (simp add: sr_handlepacket_def ethertype_def)
qed

lemma handlepacket_ip:
  "ld_eth p 0 = Some eh \<Longrightarrow> ntohs (ether_type eh) = ethertype_ip \<Longrightarrow>
   sr_handlepacket e sr p (length p) iface = sr_handle_ip e sr p (length p) iface"
  by (simp add: handlepacket_type ethertype_ip_def ethertype_arp_def)

lemma handlepacket_arp:
  "ld_eth p 0 = Some eh \<Longrightarrow> ntohs (ether_type eh) = ethertype_arp \<Longrightarrow>
   sr_handlepacket e sr p (length p) iface = sr_handle_arp e sr p (length p) iface"
  by (simp add: handlepacket_type)

text \<open>Only the Ethernet header changes when a frame is readdressed.\<close>

lemma ip_valid_readdress:
  assumes "ip_valid p h"
  shows "ip_valid (readdress dst src p) h"
proof -
  have s: "ip_shape p h" using assms by (simp add: ip_valid_def)
  note b = ip_shapeD [OF s]
  have d: "drop 14 (readdress dst src p) = drop 14 p" by (simp add: readdress_def)
  then have "ld_ip (readdress dst src p) 14 = ld_ip p 14"
    using b(1) by (simp add: ld_def load_def)
  with assms s d b(1) show ?thesis by (simp add: ip_valid_iff ip_shape_def)
qed

lemma drop_forwarded: "34 \<le> length p \<Longrightarrow> drop 34 (forwarded p h) = drop 34 p"
  by (simp add: forwarded_def refreshed_def iph.drop_over_after)

lemma ld_ip_forwarded:
  "34 \<le> length p \<Longrightarrow> \<exists>s. ld_ip (forwarded p h) 14 = Some (h\<lparr>ip_ttl := ip_ttl h - 1, ip_sum := s\<rparr>)"
  by (simp add: forwarded_def refreshed_def iph.ld_over_same) blast

lemma vns_packet_name: "vns_packet (strncpy sr_IFACE_NAMELEN name) fr = vns_packet name fr"
  by (simp add: vns_packet_def strncpy_field_def strncpy_def sr_IFACE_NAMELEN_def min_def)

text \<open>The branches of the IP handler, one by one.\<close>

lemma handle_ip_forwards:
  assumes "ip_valid p h" and "\<not> sr_is_router_ip sr (ip_dst h)" and "1 < ip_ttl h"
    and "route_to sr (ip_dst h) \<noteq> None"
  shows "sr_handle_ip e sr p (length p) iface = sr_send_routed_ip_packet e sr (forwarded p h) (length p)"
proof -
  have "\<not> ip_ttl h \<le> 1" using assms(3) by auto
  moreover have "sr_find_lpm_route sr (ip_dst h) \<noteq> None"
    using assms(4) by (auto simp: route_to_def split: option.splits)
  ultimately show ?thesis using assms(2) by (simp add: handle_ip_eq [OF assms(1)] del: not_None_eq)
qed

lemma handle_ip_no_route:
  assumes "ip_valid p h" and "\<not> sr_is_router_ip sr (ip_dst h)" and "1 < ip_ttl h"
    and "sr_find_lpm_route sr (ip_dst h) = None"
  shows "sr_handle_ip e sr p (length p) iface = sr_send_icmp_error e sr (forwarded p h) (length p) 3 0"
proof -
  have "\<not> ip_ttl h \<le> 1" using assms(3) by auto
  with assms(2,4) show ?thesis by (simp add: handle_ip_eq [OF assms(1)])
qed

lemma handle_ip_expired:
  "ip_valid p h \<Longrightarrow> \<not> sr_is_router_ip sr (ip_dst h) \<Longrightarrow> ip_ttl h \<le> 1 \<Longrightarrow>
   sr_handle_ip e sr p (length p) iface = sr_send_icmp_error e sr p (length p) 11 0"
  by (simp add: handle_ip_eq)

lemma handle_ip_port:
  "ip_valid p h \<Longrightarrow> sr_is_router_ip sr (ip_dst h) \<Longrightarrow> ip_p h \<in> {ip_protocol_tcp, ip_protocol_udp} \<Longrightarrow>
   sr_handle_ip e sr p (length p) iface = sr_send_icmp_error e sr p (length p) 3 3"
  by (auto simp: handle_ip_eq ip_protocol_icmp_def ip_protocol_tcp_def ip_protocol_udp_def)

lemma handle_ip_ping:
  "ip_valid p h \<Longrightarrow> sr_is_router_ip sr (ip_dst h) \<Longrightarrow> ip_p h = ip_protocol_icmp \<Longrightarrow>
   hlen h + 8 \<le> tlen h \<Longrightarrow> echo_request p h \<Longrightarrow>
   sr_handle_ip e sr p (length p) iface = sr_send_icmp_echo_reply e sr p (length p) iface"
  by (simp add: handle_ip_eq)

text \<open>An error message goes ret to the sender of the offending packet, along the route to it.\<close>

lemma send_icmp_error_routed:
  assumes e: "env_ok e" and v: "ip_valid p h" and eh: "ld_eth p 0 = Some eh"
    and src: "sr_find_icmp_source_iface sr eh (ip_src h) = Some out"
  shows "sr_send_icmp_error e sr p (length p) type code =
    sr_send_routed_ip_packet e sr (icmp_error_frame out (ether_shost eh) (ip_src h) type code (quoted p h)) 70"
  using e src by (simp add: send_icmp_error_eq [OF _ v eh])

lemma send_icmp_error_hit:
  assumes e: "env_ok e" and n: "names_ok sr" and v: "ip_valid p h" and eh: "ld_eth p 0 = Some eh"
    and src: "sr_find_icmp_source_iface sr eh (ip_src h) = Some out"
    and r: "route_to sr (ip_src h) = Some (ret, nh)" and m: "arp_mac (cache sr) nh = Some m"
  shows "sr_send_icmp_error e sr p (length p) type code =
    Some (emit e (if_name ret) (readdress m (if_addr ret)
      (icmp_error_frame out (ether_shost eh) (ip_src h) type code (quoted p h))) sr)"
proof -
  let ?f = "icmp_error_frame out (ether_shost eh) (ip_src h) type code (quoted p h)"
  have len: "length ?f = 70" by (simp add: length_quoted)
  have "ip_valid ?f ((icmp_error_ip (if_ip out) (ip_src h))\<lparr>ip_sum :=
      cksum (enc_ip (icmp_error_ip (if_ip out) (ip_src h)))\<rparr>)"
    by (rule icmp_error_frame_valid [OF length_quoted])
  then obtain g where g: "ld_ip ?f 14 = Some g" "ip_dst g = ip_src h"
    by (auto simp: ip_valid_def ip_shape_def icmp_error_ip_def)
  from send_routed_hit [OF e n _ _ g(1) _ m, of ret] r g(2) show ?thesis
    by (simp add: send_icmp_error_routed [OF e v eh src] len)
qed

text \<open>A forwarded packet for a next hop that is not known yet.\<close>

lemma ip_valid_forwarded_len:
  "ip_valid p h \<Longrightarrow> 34 \<le> length p \<and> length (forwarded p h) = length p"
  using ip_shapeD(1) [of p h] by (simp add: ip_valid_def forwarded_def length_refreshed)

lemma ld_arp_len: "ld_arp p 14 = Some a \<Longrightarrow> 42 \<le> length p"
  using arp.ld_None_iff [of p 14] by (cases "length p < 42") auto

end
