(* ===== verification/Sweep.thy ===== *)
theory Sweep
  imports Router_Behaviour
begin

text \<open>
  The timer of \<^verbatim>\<open>src/sr_arpcache.c\<close>: \<^verbatim>\<open>sr_arpcache_sweepreqs\<close> and one round of
  \<^verbatim>\<open>sr_arpcache_timeout\<close>. The sweep walks the request list through its \<open>next\<close> pointers while
  the loop body sends packets, which may open new requests, and destroys the request it is
  at. The loop is a partial function; that it ends, and visits exactly the requests that
  were there when it began, is proved.
\<close>

section \<open>Operations\<close>

fun next_req :: "sr_arpreq list \<Rightarrow> nat \<Rightarrow> nat option" where
  "next_req [] a = None"
| "next_req (r # rest) a =
     (if req_self r = a then (case rest of [] \<Rightarrow> None | r' # _ \<Rightarrow> Some (req_self r'))
      else next_req rest a)"

fun sweep_packets :: "env \<Rightarrow> sr_instance \<Rightarrow> sr_packet list \<Rightarrow> sr_instance option" where
  "sweep_packets e sr [] = Some sr"
| "sweep_packets e sr (pkt # rest) =
     do { sr \<leftarrow> sr_send_icmp_error e sr (pkt_buf pkt) (pkt_len pkt) 3 1;
          sweep_packets e sr rest }"

definition sweep_req :: "env \<Rightarrow> sr_instance \<Rightarrow> nat \<Rightarrow> sr_instance option" where
  "sweep_req e sr req =
     do { r \<leftarrow> deref_req (cache sr) req;
          if now e - req_sent r \<ge> 1 then
            if req_times_sent r \<ge> 5 then
              do { sr \<leftarrow> sweep_packets e sr (req_packets r);
                   Some (sr\<lparr>cache := sr_arpreq_destroy (cache sr) req\<rparr>) }
            else
              (case req_packets r of
                 [] \<Rightarrow> Some sr
               | pkt # _ \<Rightarrow>
                   do { sr \<leftarrow> sr_arpcache_send_arp_request e sr (req_ip r) (pkt_iface pkt);
                        Some (sr\<lparr>cache := update_req req (mark_sent e) (cache sr)\<rparr>) })
          else Some sr }"

partial_function (option) sweep_loop :: "env \<Rightarrow> nat option \<Rightarrow> sr_instance \<Rightarrow> sr_instance option" where
  "sweep_loop e req sr =
     (case req of
        None \<Rightarrow> Some sr
      | Some a \<Rightarrow>
          do { let nxt = next_req (requests (cache sr)) a;
               sr \<leftarrow> sweep_req e sr a;
               sweep_loop e nxt sr })"

definition sr_arpcache_sweepreqs :: "env \<Rightarrow> sr_instance \<Rightarrow> sr_instance option" where
  "sr_arpcache_sweepreqs e sr =
     sweep_loop e (case requests (cache sr) of [] \<Rightarrow> None | r # _ \<Rightarrow> Some (req_self r)) sr"

text \<open>One round of the timer thread, between \<^verbatim>\<open>lock\<close> and \<^verbatim>\<open>unlock\<close>.\<close>

definition sr_arpcache_timeout :: "env \<Rightarrow> sr_instance \<Rightarrow> sr_instance option" where
  "sr_arpcache_timeout e sr =
     sr_arpcache_sweepreqs e (sr\<lparr>cache := expire_entries (now e) (cache sr)\<rparr>)"

section \<open>What sending does to the queue\<close>

text \<open>
  Sending adds requests in front and never takes one away, nor does it change the address,
  the IP address or the history of one that has been asked for already.
\<close>

abbreviation addrs :: "sr_instance \<Rightarrow> nat list" where
  "addrs sr \<equiv> map req_self (requests (cache sr))"

definition asked :: "sr_arpcache \<Rightarrow> bool" where
  "asked c \<longleftrightarrow> (\<forall>r \<in> set (requests c). 1 \<le> req_times_sent r \<and> req_times_sent r \<le> 5 \<and> req_packets r \<noteq> [])"

definition same_history :: "sr_arpreq \<Rightarrow> sr_arpreq \<Rightarrow> bool" where
  "same_history r r' \<longleftrightarrow>
     req_self r' = req_self r \<and> req_ip r' = req_ip r \<and> req_sent r' = req_sent r \<and>
     req_times_sent r' = req_times_sent r \<and> (\<exists>new. req_packets r' = new @ req_packets r)"

definition extends :: "sr_arpcache \<Rightarrow> sr_arpcache \<Rightarrow> bool" where
  "extends c c' \<longleftrightarrow>
     entries c' = entries c \<and> next_addr c \<le> next_addr c' \<and>
     (\<exists>new old. requests c' = new @ old \<and> list_all2 same_history (requests c) old \<and>
        (\<forall>r \<in> set new. next_addr c \<le> req_self r))"

lemma extendsI:
  "entries c' = entries c \<Longrightarrow> next_addr c \<le> next_addr c' \<Longrightarrow> requests c' = new @ old \<Longrightarrow>
   list_all2 same_history (requests c) old \<Longrightarrow> (\<And>r. r \<in> set new \<Longrightarrow> next_addr c \<le> req_self r) \<Longrightarrow>
   extends c c'"
  by (auto simp: extends_def)

lemma same_history_refl [simp]: "same_history r r"
  by (simp add: same_history_def)

lemma same_history_trans: "same_history a b \<Longrightarrow> same_history b c \<Longrightarrow> same_history a c"
  by (fastforce simp: same_history_def)

lemma extends_refl [simp]: "extends c c"
  by (rule extendsI [where new = "[]" and old = "requests c"]) (simp_all add: list_all2_same)

lemma list_all2_history_self: "list_all2 same_history xs ys \<Longrightarrow> map req_self ys = map req_self xs"
  by (induction rule: list_all2_induct) (simp_all add: same_history_def)

lemma extends_trans:
  assumes "extends a b" and "extends b c"
  shows "extends a c"
proof -
  obtain n1 o1 where b: "requests b = n1 @ o1" "list_all2 same_history (requests a) o1"
      "\<forall>r \<in> set n1. next_addr a \<le> req_self r"
    using assms(1) by (auto simp: extends_def)
  obtain n2 o2 where c: "requests c = n2 @ o2" "list_all2 same_history (requests b) o2"
      "\<forall>r \<in> set n2. next_addr b \<le> req_self r"
    using assms(2) by (auto simp: extends_def)
  obtain u v where uv: "o2 = u @ v" "list_all2 same_history n1 u" "list_all2 same_history o1 v"
    using c(2) unfolding b(1) by (auto simp: list_all2_append1)
  have le: "next_addr a \<le> next_addr b" using assms(1) by (simp add: extends_def)
  have "req_self ` set u = req_self ` set n1"
    using list_all2_history_self [OF uv(2)] by (metis list.set_map)
  then have u: "next_addr a \<le> req_self r" if "r \<in> set u" for r
    using b(3) that by (metis (no_types, lifting) image_iff)
  show ?thesis
  proof (rule extendsI)
    show "requests c = (n2 @ u) @ v" using c(1) uv(1) by simp
    show "list_all2 same_history (requests a) v"
      by (rule list_all2_trans [OF _ b(2) uv(3)]) (rule same_history_trans)
    show "next_addr a \<le> req_self r" if "r \<in> set (n2 @ u)" for r
      using that u c(3) le order_trans by auto
  qed (use assms in \<open>auto simp: extends_def\<close>)
qed

text \<open>Opening a request and adding a packet to one are such extensions.\<close>

lemma extends_open: "extends c (open_request e c ip pkt)"
  by (rule extendsI [where new = "take 1 (requests (open_request e c ip pkt))" and old = "requests c"])
    (simp_all add: open_request_def list_all2_same)

lemma same_history_add_packet [simp]: "same_history r (add_packet pkt r)"
  by (simp add: same_history_def add_packet_def exI [of _ "[pkt]"])

lemma extends_add_packet: "extends c (update_req a (add_packet pkt) c)"
  by (rule extendsI [where new = "[]"])
    (auto simp: update_req_def list_all2_map2 list_all2_same)

lemma asked_open: "asked c \<Longrightarrow> asked (open_request e c ip pkt)"
  by (simp add: asked_def open_request_def)

lemma asked_add_packet: "asked c \<Longrightarrow> asked (update_req a (add_packet pkt) c)"
  by (auto simp: asked_def update_req_def add_packet_def)

text \<open>A state from which the timer and the handlers are run.\<close>

definition running :: "sr_instance \<Rightarrow> bool" where
  "running sr \<longleftrightarrow> router_inv sr \<and> names_ok sr \<and> asked (cache sr)"

definition sends :: "sr_instance \<Rightarrow> sr_instance option \<Rightarrow> bool" where
  "sends sr res \<longleftrightarrow>
     (\<exists>sr'. res = Some sr' \<and> same_config sr sr' \<and> running sr' \<and> extends (cache sr) (cache sr'))"

lemma sends_Some [simp]:
  "sends sr (Some sr') \<longleftrightarrow> same_config sr sr' \<and> running sr' \<and> extends (cache sr) (cache sr')"
  by (simp add: sends_def)

lemma running_emit [simp]: "running (emit e iface fr sr) = running sr"
  by (simp add: running_def router_inv_def names_ok_def)

lemma send_routed_sends:
  assumes e: "env_ok e" and run: "running sr" and len: "34 \<le> length p" "length p < 2 ^ 31"
  shows "sends sr (sr_send_routed_ip_packet e sr p (length p))"
proof -
  have inv: "router_inv sr" "names_ok sr" "asked (cache sr)" and q: "queue_inv (cache sr)"
    using run by (auto simp: running_def router_inv_def cache_inv_def)
  obtain h where h: "ld_ip p 14 = Some h" using len by (simp add: iph.ld_in_bounds)
  obtain sr' where sr': "sr_send_routed_ip_packet e sr p (length p) = Some sr'"
    and cfg: "same_config sr sr'" and inv': "router_inv sr'"
    using send_routed_safe [OF e inv(1) len] by (auto simp: safe_def)
  have "extends (cache sr) (cache sr') \<and> asked (cache sr')"
  proof (cases "route_to sr (ip_dst h)")
    case None
    with send_routed_none [OF len(1) h, of sr e] sr' inv show ?thesis by simp
  next
    case (Some on)
    obtain out nh where r: "route_to sr (ip_dst h) = Some (out, nh)" using Some by (cases on) auto
    consider m where "arp_mac (cache sr) nh = Some m"
      | "arp_mac (cache sr) nh = None" "pending (cache sr) nh = None"
      | rq where "arp_mac (cache sr) nh = None" "find_req (requests (cache sr)) nh = Some rq"
      by (cases "arp_mac (cache sr) nh"; cases "find_req (requests (cache sr)) nh") (auto simp: pending_def)
    then show ?thesis
    proof cases
      case 1
      with send_routed_hit [OF e inv(2) len h r] sr' inv show ?thesis by auto
    next
      case 2
      with send_routed_first_miss [OF e inv(2) q len(1) h r] sr' inv show ?thesis
        by (auto simp: extends_open asked_open)
    next
      case 3
      have "1 \<le> req_times_sent rq" using inv(3) find_req_Some [OF 3(2)] by (auto simp: asked_def)
      then have "req_times_sent rq \<noteq> 0" by auto
      with 3 send_routed_later_miss [OF e len(1) q h r] sr' inv show ?thesis
        by (auto simp: extends_add_packet asked_add_packet)
    qed
  qed
  with sr' cfg inv' inv names_ok_config [OF cfg] show ?thesis by (simp add: running_def)
qed

text \<open>A forwarded packet whose next hop is not known.\<close>

lemma send_forwarded_first_miss:
  assumes e: "env_ok e" and run: "running sr" and h: "ip_valid p h"
    and r: "route_to sr (ip_dst h) = Some (out, nh)" and m: "arp_mac (cache sr) nh = None"
    and q: "pending (cache sr) nh = None"
  shows "sr_send_routed_ip_packet e sr (forwarded p h) (length p) =
    Some (emit e (if_name out) (arp_request_frame out nh)
      (sr\<lparr>cache := open_request e (cache sr) nh
         (queued_packet (resource (if_addr out) (forwarded p h)) (if_name out))\<rparr>))"
proof -
  note len = ip_valid_forwarded_len [OF h]
  obtain g where g: "ld_ip (forwarded p h) 14 = Some g" "ip_dst g = ip_dst h"
    using ld_ip_forwarded [of p h] len by auto
  show ?thesis
    using send_routed_first_miss [OF e _ _ _ g(1) _ m q] run len r g(2)
    by (simp add: running_def router_inv_def cache_inv_def)
qed

lemma pending_update_req:
  assumes "queue_inv c" and "find_req (requests c) ip = Some rq"
  shows "pending (update_req (req_self rq) (add_packet pkt) c) =
    (pending c)(ip \<mapsto> pkt # req_packets rq)"
proof
  fix ip'
  have rq: "rq \<in> set (requests c)" "req_ip rq = ip" using assms(2) by (auto dest: find_req_Some)
  have "ip' = ip" if "find_req (requests c) ip' = Some r" "req_self r = req_self rq" for r
    using find_req_Some [OF that(1)] deref_req_unique [OF assms(1)] rq that(2) by (metis option.inject)
  then show "pending (update_req (req_self rq) (add_packet pkt) c) ip' =
      ((pending c)(ip \<mapsto> pkt # req_packets rq)) ip'"
    using assms(2) by (cases "find_req (requests c) ip'") (auto simp: pending_def find_req_update add_packet_def)
qed

lemma send_routed_joins:
  assumes e: "env_ok e" and run: "running sr" and len: "34 \<le> length p"
    and g: "ld_ip p 14 = Some g" and r: "route_to sr (ip_dst g) = Some (out, nh)"
    and m: "arp_mac (cache sr) nh = None" and q: "pending (cache sr) nh = Some qs"
  shows "\<exists>c. sr_send_routed_ip_packet e sr p (length p) = Some (sr\<lparr>cache := c\<rparr>) \<and>
    entries c = entries (cache sr) \<and> pending c = (pending (cache sr))
      (nh \<mapsto> queued_packet (resource (if_addr out) p) (if_name out) # qs)"
proof -
  obtain rq where rq: "find_req (requests (cache sr)) nh = Some rq" "req_packets rq = qs"
    using q by (auto simp: pending_def)
  have inv: "queue_inv (cache sr)" using run by (simp add: running_def router_inv_def cache_inv_def)
  have "1 \<le> req_times_sent rq" using run find_req_Some [OF rq(1)] by (auto simp: running_def asked_def)
  then have "req_times_sent rq \<noteq> 0" by auto
  from send_routed_later_miss [OF e len inv g r m rq(1) this] pending_update_req [OF inv rq(1)] rq(2)
  show ?thesis by (auto simp: update_req_def)
qed

lemma send_forwarded_later_miss:
  assumes e: "env_ok e" and run: "running sr" and h: "ip_valid p h"
    and r: "route_to sr (ip_dst h) = Some (out, nh)" and m: "arp_mac (cache sr) nh = None"
    and q: "pending (cache sr) nh = Some qs"
  shows "\<exists>c. sr_send_routed_ip_packet e sr (forwarded p h) (length p) = Some (sr\<lparr>cache := c\<rparr>) \<and>
    entries c = entries (cache sr) \<and> pending c = (pending (cache sr))
      (nh \<mapsto> queued_packet (resource (if_addr out) (forwarded p h)) (if_name out) # qs)"
proof -
  note len = ip_valid_forwarded_len [OF h]
  obtain g where g: "ld_ip (forwarded p h) 14 = Some g" "ip_dst g = ip_dst h"
    using ld_ip_forwarded [of p h] len by auto
  from send_routed_joins [OF e run _ g(1) _ m q] len r g(2) show ?thesis by auto
qed

text \<open>
  What sending a routed packet comes to: nothing without a route; one frame if the next hop is
  known; else the packet waits, and the first one to wait has an ARP request sent for it.
\<close>

definition sent_towards :: "env \<Rightarrow> sr_instance \<Rightarrow> u32 \<Rightarrow> u8 list \<Rightarrow> sr_instance \<Rightarrow> bool" where
  "sent_towards e sr dst p sr' =
     (case route_to sr dst of
        None \<Rightarrow> sr' = sr
      | Some (out, nh) \<Rightarrow>
          (case arp_mac (cache sr) nh of
             Some m \<Rightarrow> sr' = emit e (if_name out) (readdress m (if_addr out) p) sr
           | None \<Rightarrow>
               let pkt = queued_packet (resource (if_addr out) p) (if_name out) in
               (case pending (cache sr) nh of
                  None \<Rightarrow> sr' = emit e (if_name out) (arp_request_frame out nh)
                    (sr\<lparr>cache := open_request e (cache sr) nh pkt\<rparr>)
                | Some qs \<Rightarrow> same_config sr sr' \<and> sock_out sr' = sock_out sr \<and>
                    entries (cache sr') = entries (cache sr) \<and>
                    pending (cache sr') = (pending (cache sr))(nh \<mapsto> pkt # qs))))"

lemma send_routed_towards:
  assumes e: "env_ok e" and run: "running sr" and len: "34 \<le> length p" "length p < 2 ^ 31"
    and g: "ld_ip p 14 = Some g"
  shows "\<exists>sr'. sr_send_routed_ip_packet e sr p (length p) = Some sr' \<and> sent_towards e sr (ip_dst g) p sr'"
proof (cases "route_to sr (ip_dst g)")
  case None
  with send_routed_none [OF len(1) g] show ?thesis by (simp add: sent_towards_def)
next
  case (Some r)
  then obtain out nh where r: "route_to sr (ip_dst g) = Some (out, nh)" by (cases r) simp
  have n: "names_ok sr" and inv: "queue_inv (cache sr)"
    using run by (auto simp: running_def router_inv_def cache_inv_def)
  show ?thesis
  proof (cases "arp_mac (cache sr) nh")
    case m: None
    show ?thesis
    proof (cases "pending (cache sr) nh")
      case None
      from send_routed_first_miss [OF e n inv len(1) g r m None] r m None show ?thesis
        by (simp add: sent_towards_def)
    next
      case (Some qs)
      from send_routed_joins [OF e run len(1) g r m Some] r m Some show ?thesis
        by (auto simp: sent_towards_def)
    qed
  next
    case (Some m)
    from send_routed_hit [OF e n len g r Some] r Some show ?thesis by (simp add: sent_towards_def)
  qed
qed

text \<open>An ICMP error goes towards the sender of the offending packet, if a source interface is found.\<close>

lemma send_icmp_error_towards:
  assumes e: "env_ok e" and run: "running sr" and v: "ip_valid p h" and eh: "ld_eth p 0 = Some eh"
  shows "\<exists>sr'. sr_send_icmp_error e sr p (length p) type code = Some sr' \<and>
    (case sr_find_icmp_source_iface sr eh (ip_src h) of
       None \<Rightarrow> sr' = sr
     | Some out \<Rightarrow> sent_towards e sr (ip_src h)
         (icmp_error_frame out (ether_shost eh) (ip_src h) type code (quoted p h)) sr')"
proof (cases "sr_find_icmp_source_iface sr eh (ip_src h)")
  case None
  with e show ?thesis by (simp add: send_icmp_error_eq [OF _ v eh])
next
  case (Some out)
  let ?f = "icmp_error_frame out (ether_shost eh) (ip_src h) type code (quoted p h)"
  have len: "length ?f = 70" by (simp add: length_quoted)
  obtain g where g: "ld_ip ?f 14 = Some g" "ip_dst g = ip_src h"
    using icmp_error_frame_valid [OF length_quoted, of out "ether_shost eh" "ip_src h" type code p h]
    by (auto simp: ip_valid_def ip_shape_def icmp_error_ip_def)
  from send_routed_towards [OF e run _ _ g(1)] g(2) len Some show ?thesis
    by (simp add: send_icmp_error_routed [OF e v eh])
qed

lemma send_icmp_error_no_route:
  assumes e: "env_ok e" and run: "running sr" and h: "ip_valid p h" and eh: "ld_eth p 0 = Some eh"
  shows "\<exists>sr'. sr_send_icmp_error e sr (forwarded p h) (length p) type code = Some sr' \<and>
    (case sr_find_icmp_source_iface sr eh (ip_src h) of
       None \<Rightarrow> sr' = sr
     | Some out \<Rightarrow> sent_towards e sr (ip_src h)
         (icmp_error_frame out (ether_shost eh) (ip_src h) type code (quoted (forwarded p h) h)) sr')"
proof -
  note len = ip_valid_forwarded_len [OF h]
  obtain s where v: "ip_valid (forwarded p h) (h\<lparr>ip_ttl := ip_ttl h - 1, ip_sum := s\<rparr>)"
    using forwarded_valid [OF h] by blast
  have eh': "ld_eth (forwarded p h) 0 = Some eh"
    using eh len by (simp add: forwarded_def refreshed_def iph.ld_over_before)
  have same: "ip_src (h\<lparr>ip_ttl := ip_ttl h - 1, ip_sum := s\<rparr>) = ip_src h"
      "quoted q (h\<lparr>ip_ttl := ip_ttl h - 1, ip_sum := s\<rparr>) = quoted q h" for q
    by (simp_all add: quoted_def)
  have "length (forwarded p h) = length p" using len by simp
  with send_icmp_error_towards [OF e run v eh', of type code] show ?thesis
    unfolding same by simp
qed

lemma sends_bind:
  assumes "sends sr m" and "\<And>sr1. same_config sr sr1 \<Longrightarrow> running sr1 \<Longrightarrow> sends sr1 (f sr1)"
  shows "sends sr (m \<bind> f)"
  using assms by (auto simp: sends_def) (meson same_config_trans extends_trans)

lemma send_icmp_error_sends:
  assumes e: "env_ok e" and run: "running sr"
  shows "sends sr (sr_send_icmp_error e sr p (length p) type code)"
proof (cases "\<exists>h. ip_valid p h")
  case True
  then obtain h where h: "ip_valid p h" by blast
  then have "34 \<le> length p" by (auto simp: ip_valid_def dest: ip_shapeD)
  then obtain eh where eh: "ld_eth p 0 = Some eh" by (simp add: eth.ld_in_bounds)
  have "sends sr (sr_send_routed_ip_packet e sr (icmp_error_frame out m ip type code (quoted p h)) 70)"
    for out m ip
    using send_routed_sends [OF e run, of "icmp_error_frame out m ip type code (quoted p h)"]
    by (simp add: length_quoted)
  with h eh e run show ?thesis by (simp add: send_icmp_error_eq split: option.split)
next
  case False
  with run show ?thesis by (simp add: send_icmp_error_invalid)
qed

lemma sweep_packets_sends:
  "env_ok e \<Longrightarrow> running sr \<Longrightarrow> \<forall>p \<in> set ps. pkt_ok p \<Longrightarrow> sends sr (sweep_packets e sr ps)"
proof (induction ps arbitrary: sr)
  case (Cons p ps)
  then have "sends sr (sr_send_icmp_error e sr (pkt_buf p) (pkt_len p) 3 1)"
    by (simp add: pkt_ok_def send_icmp_error_sends)
  then show ?case
    unfolding sweep_packets.simps by (rule sends_bind) (use Cons in auto)
qed simp

section \<open>One request\<close>

lemma map_self_unlink: "map req_self (unlink_addr rs a) = remove1 a (map req_self rs)"
  by (induction rs) auto

lemma asked_unlink: "asked c \<Longrightarrow> asked (sr_arpreq_destroy c a)"
  using set_unlink_addr [of "requests c" a] by (auto simp: asked_def sr_arpreq_destroy_def)

lemma running_destroy: "running sr \<Longrightarrow> running (sr\<lparr>cache := sr_arpreq_destroy (cache sr) a\<rparr>)"
  by (simp add: running_def destroy_router_inv asked_unlink names_ok_def)

lemma times_sent_succ:
  assumes "(x :: u32) < 5"
  shows "x + 1 \<le> 5" and "1 \<le> x + 1" and "unat (x + 1) = unat x + 1"
proof -
  have "unat x < 5" using assms by (simp add: word_less_nat_alt)
  then show u: "unat (x + 1) = unat x + 1" by (simp add: unat_word_ariths)
  show "x + 1 \<le> 5" and "1 \<le> x + 1" using \<open>unat x < 5\<close> by (simp_all add: word_le_nat_alt u)
qed

lemma running_mark_sent:
  assumes "running sr" and "deref_req (cache sr) a = Some r" and "req_times_sent r < 5"
  shows "running (sr\<lparr>cache := update_req a (mark_sent e) (cache sr)\<rparr>)"
proof -
  have q: "queue_inv (cache sr)" and ask: "asked (cache sr)"
    using assms(1) by (auto simp: running_def router_inv_def cache_inv_def)
  have "x = r" if "x \<in> set (requests (cache sr))" "req_self x = a" for x
    using deref_req_unique [OF q that(1)] that(2) assms(2) by simp
  then have "asked (update_req a (mark_sent e) (cache sr))"
    using ask times_sent_succ [OF assms(3)] by (auto simp: asked_def update_req_def mark_sent_def)
  with assms(1) show ?thesis by (simp add: running_def mark_sent_inv names_ok_def)
qed

text \<open>
  Giving up on a request: an ICMP error for each packet that waits on it, then the request
  goes. Asking again: one more ARP request, and the counter advances.
\<close>

lemma sweep_req_young:
  "deref_req (cache sr) a = Some r \<Longrightarrow> now e - req_sent r < 1 \<Longrightarrow> sweep_req e sr a = Some sr"
  by (simp add: sweep_req_def)

lemma sweep_req_give_up:
  assumes e: "env_ok e" and run: "running sr" and r: "deref_req (cache sr) a = Some r"
    and due: "1 \<le> now e - req_sent r" and five: "5 \<le> req_times_sent r"
  obtains sr1 where "sweep_packets e sr (req_packets r) = Some sr1" "sends sr (Some sr1)"
    "sweep_req e sr a = Some (sr1\<lparr>cache := sr_arpreq_destroy (cache sr1) a\<rparr>)"
proof -
  have "\<forall>p \<in> set (req_packets r). pkt_ok p"
    using run deref_req_Some [OF r] by (auto simp: running_def router_inv_def queue_pkts_ok_def)
  from sweep_packets_sends [OF e run this] obtain sr1 where
    "sweep_packets e sr (req_packets r) = Some sr1" "sends sr (Some sr1)" by (auto simp: sends_def)
  with that r due five show thesis by (simp add: sweep_req_def)
qed

lemma send_arp_request_cache:
  assumes "env_ok e"
  obtains sr' where "sr_send_arp_request e sr ip name = Some sr'" "same_config sr sr'" "cache sr' = cache sr"
proof (cases "sr_get_interface sr name")
  case None
  with assms that show thesis by (simp add: send_arp_request_eq)
next
  case (Some out)
  with assms that show thesis by (simp add: send_arp_request_emit)
qed

lemma sweep_req_retry:
  assumes e: "env_ok e" and run: "running sr" and r: "deref_req (cache sr) a = Some r"
    and due: "1 \<le> now e - req_sent r" and few: "req_times_sent r < 5"
  obtains sr1 where
    "sr_send_arp_request e sr (req_ip r) (pkt_iface (hd (req_packets r))) = Some sr1"
    "same_config sr sr1" "cache sr1 = cache sr"
    "sweep_req e sr a = Some (sr1\<lparr>cache := update_req a (mark_sent e) (cache sr)\<rparr>)"
proof -
  have "req_packets r \<noteq> []" using run deref_req_Some [OF r] by (auto simp: running_def asked_def)
  then obtain p ps where p: "req_packets r = p # ps" by (cases "req_packets r") auto
  obtain sr1 where "sr_send_arp_request e sr (req_ip r) (pkt_iface p) = Some sr1"
      "same_config sr sr1" "cache sr1 = cache sr"
    by (rule send_arp_request_cache [OF e])
  moreover from this r due few p
  have "sweep_req e sr a = Some (sr1\<lparr>cache := update_req a (mark_sent e) (cache sr)\<rparr>)"
    by (simp add: sweep_req_def arpcache_send_arp_request_eq not_le [symmetric])
  ultimately show thesis using that p by simp
qed

text \<open>The error message about a packet, where all that is needed to send it at once is known.\<close>

definition error_frame :: "sr_instance \<Rightarrow> u8 list \<Rightarrow> u8 \<Rightarrow> u8 \<Rightarrow> (cstring \<times> u8 list) option" where
  "error_frame sr p type code =
     do { h \<leftarrow> ld_ip p 14;
          eh \<leftarrow> ld_eth p 0;
          if ip_valid p h then
            do { out \<leftarrow> sr_find_icmp_source_iface sr eh (ip_src h);
                 (ret, nh) \<leftarrow> route_to sr (ip_src h);
                 m \<leftarrow> arp_mac (cache sr) nh;
                 Some (if_name ret, readdress m (if_addr ret)
                   (icmp_error_frame out (ether_shost eh) (ip_src h) type code (quoted p h))) }
          else None }"

lemma send_icmp_error_frame:
  assumes "env_ok e" and "names_ok sr" and "error_frame sr p type code = Some (name, fr)"
  shows "sr_send_icmp_error e sr p (length p) type code = Some (emit e name fr sr)"
  using assms(3) send_icmp_error_hit [OF assms(1,2)]
  by (auto simp: error_frame_def bind_eq_Some_conv split: if_splits prod.splits)

lemma error_frame_emit [simp]: "error_frame (emit e name fr sr) p type code = error_frame sr p type code"
  using route_lookups_config [of sr "emit e name fr sr"] by (simp add: error_frame_def cong: if_cong)

lemma sweep_packets_emit:
  assumes "env_ok e"
  shows "names_ok sr \<Longrightarrow> \<forall>q \<in> set qs. pkt_ok q \<Longrightarrow>
    list_all2 (\<lambda>q nf. error_frame sr (pkt_buf q) 3 1 = Some nf) qs outs \<Longrightarrow>
    sweep_packets e sr qs = Some (fold (\<lambda>(name, fr). emit e name fr) outs sr)"
proof (induction qs arbitrary: sr outs)
  case (Cons q qs)
  obtain nf outs' where o: "outs = nf # outs'" "error_frame sr (pkt_buf q) 3 1 = Some nf"
      "list_all2 (\<lambda>q nf. error_frame sr (pkt_buf q) 3 1 = Some nf) qs outs'"
    using Cons.prems(3) by (auto simp: list_all2_Cons1)
  obtain name fr where nf: "nf = (name, fr)" by (cases nf)
  have "pkt_len q = length (pkt_buf q)" using Cons.prems(2) by (simp add: pkt_ok_def)
  moreover have "names_ok (emit e name fr sr)"
    using Cons.prems(1) names_ok_config [of sr "emit e name fr sr"] by simp
  ultimately show ?case
    using Cons.IH [of "emit e name fr sr" outs'] Cons.prems o
      send_icmp_error_frame [OF assms Cons.prems(1) o(2) [unfolded nf]] nf by simp
qed simp

lemma fold_emit:
  "cache (fold (\<lambda>(name, fr). emit e name fr) outs sr) = cache sr"
  "sock_out (fold (\<lambda>(name, fr). emit e name fr) outs sr) =
     sock_out sr @ map (\<lambda>(name, fr). vns_packet name fr) outs"
  by (induction outs arbitrary: sr) (auto split: prod.splits)

lemma pending_destroy:
  assumes "queue_inv c" and "deref_req c a = Some r"
  shows "pending (sr_arpreq_destroy c a) = (pending c)(req_ip r := None)"
proof
  fix ip
  have d: "distinct (map req_self (requests c))" "distinct (map req_ip (requests c))"
    and r: "r \<in> set (requests c)" "req_self r = a"
    using assms deref_req_Some by (auto simp: queue_inv_def)
  have "req_self x \<noteq> a \<longleftrightarrow> req_ip x \<noteq> req_ip r" if "x \<in> set (requests c)" for x
    using that r d inj_onD [of req_ip "set (requests c)" x r] inj_onD [of req_self "set (requests c)" x r]
    by (auto simp: distinct_map)
  then have "unlink_addr (requests c) a = filter (\<lambda>x. req_ip x \<noteq> req_ip r) (requests c)"
    by (simp add: unlink_addr_filter [OF d(1)] cong: filter_cong)
  then show "pending (sr_arpreq_destroy c a) ip = ((pending c)(req_ip r := None)) ip"
    by (cases "ip = req_ip r")
      (auto simp: pending_def sr_arpreq_destroy_def find_req_filter_other find_req_None_iff)
qed

section \<open>The loop\<close>

text \<open>A visit leaves the part of the list behind the visited request as it was, address for address.\<close>

lemma extends_addrs:
  assumes "extends c c'"
  obtains new where "map req_self (requests c') = new @ map req_self (requests c)"
    "\<forall>a \<in> set new. next_addr c \<le> a"
proof -
  obtain n old where c': "requests c' = n @ old" "list_all2 same_history (requests c) old"
      "\<forall>r \<in> set n. next_addr c \<le> req_self r"
    using assms by (auto simp: extends_def)
  show thesis
    using that [of "map req_self n"] c' list_all2_history_self [OF c'(2)] by simp
qed

definition visits :: "nat \<Rightarrow> sr_instance \<Rightarrow> sr_instance option \<Rightarrow> bool" where
  "visits a sr res \<longleftrightarrow>
     (\<exists>sr' new. res = Some sr' \<and> same_config sr sr' \<and> running sr' \<and>
        (addrs sr' = new @ addrs sr \<or> addrs sr' = new @ remove1 a (addrs sr)))"

lemma sweep_req_visits:
  assumes e: "env_ok e" and run: "running sr" and a: "a \<in> set (addrs sr)"
  shows "visits a sr (sweep_req e sr a)"
proof -
  obtain r where r: "deref_req (cache sr) a = Some r"
    using a deref_req_None_iff [of "cache sr" a] by (cases "deref_req (cache sr) a") auto
  have lt: "a < next_addr (cache sr)"
    using run a by (auto simp: running_def router_inv_def cache_inv_def queue_inv_def)
  consider "now e - req_sent r < 1" | "1 \<le> now e - req_sent r" "5 \<le> req_times_sent r"
    | "1 \<le> now e - req_sent r" "req_times_sent r < 5" by fastforce
  then show ?thesis
  proof cases
    case 1
    with r run show ?thesis by (auto simp: visits_def sweep_req_young)
  next
    case 2
    obtain sr1 where s: "sends sr (Some sr1)"
        "sweep_req e sr a = Some (sr1\<lparr>cache := sr_arpreq_destroy (cache sr1) a\<rparr>)"
      by (rule sweep_req_give_up [OF e run r 2])
    then have ext: "extends (cache sr) (cache sr1)" by simp
    obtain new where "addrs sr1 = new @ addrs sr" "a \<notin> set new"
      using extends_addrs [OF ext] lt by (metis not_le)
    then have "addrs (sr1\<lparr>cache := sr_arpreq_destroy (cache sr1) a\<rparr>) = new @ remove1 a (addrs sr)"
      by (simp add: sr_arpreq_destroy_def map_self_unlink remove1_append)
    with s show ?thesis by (auto simp: visits_def running_destroy)
  next
    case 3
    obtain sr1 where s: "same_config sr sr1" "cache sr1 = cache sr"
        "sweep_req e sr a = Some (sr1\<lparr>cache := update_req a (mark_sent e) (cache sr)\<rparr>)"
      by (rule sweep_req_retry [OF e run r 3])
    have "running sr1"
      using run s(1,2) by (simp add: running_def router_inv_def names_ok_config)
    then have "running (sr1\<lparr>cache := update_req a (mark_sent e) (cache sr)\<rparr>)"
      using running_mark_sent [of sr1 a r e] r 3(2) s(2) by simp
    with s show ?thesis by (auto simp: visits_def map_update_req intro!: exI [of _ "[]"])
  qed
qed

fun sweep_all :: "env \<Rightarrow> sr_instance \<Rightarrow> nat list \<Rightarrow> sr_instance option" where
  "sweep_all e sr [] = Some sr"
| "sweep_all e sr (a # as) = do { sr \<leftarrow> sweep_req e sr a; sweep_all e sr as }"

lemma next_req_at:
  "map req_self rs = pre @ a # as \<Longrightarrow> a \<notin> set pre \<Longrightarrow>
   next_req rs a = (case as of [] \<Rightarrow> None | b # _ \<Rightarrow> Some b)"
proof (induction rs arbitrary: pre)
  case (Cons r rs)
  show ?case
  proof (cases pre)
    case Nil
    with Cons.prems have "req_self r = a" "as = map req_self rs" by simp_all
    then show ?thesis by (simp split: list.split)
  next
    case (Cons b pre')
    with Cons.prems Cons.IH [of pre'] show ?thesis by simp
  qed
qed simp

definition hd_opt :: "'a list \<Rightarrow> 'a option" where
  "hd_opt xs = (case xs of [] \<Rightarrow> None | x # _ \<Rightarrow> Some x)"

lemma visit_suffix:
  assumes "running sr" and "addrs sr = pre @ a # as" and "visits a sr (Some sr')"
  obtains pre' where "addrs sr' = pre' @ as"
proof -
  have "distinct (addrs sr)"
    using assms(1) by (simp add: running_def router_inv_def cache_inv_def queue_inv_def)
  then have "remove1 a (addrs sr) = pre @ as" unfolding assms(2) by (simp add: remove1_append)
  with assms(2,3) that show thesis unfolding visits_def by (metis append.assoc append_Cons append_Nil option.inject)
qed

lemma sweep_loop_all:
  assumes e: "env_ok e"
  shows "running sr \<Longrightarrow> addrs sr = pre @ as \<Longrightarrow>
    sweep_loop e (hd_opt as) sr = sweep_all e sr as \<and>
    (\<exists>sr'. sweep_all e sr as = Some sr' \<and> same_config sr sr' \<and> running sr')"
proof (induction as arbitrary: sr pre)
  case Nil
  then show ?case by (simp add: sweep_loop.simps hd_opt_def)
next
  case (Cons a as)
  have dist: "distinct (addrs sr)"
    using Cons.prems(1) by (simp add: running_def router_inv_def cache_inv_def queue_inv_def)
  have nxt: "next_req (requests (cache sr)) a = hd_opt as"
    using next_req_at [OF Cons.prems(2)] dist Cons.prems(2) by (simp add: hd_opt_def)
  have v: "visits a sr (sweep_req e sr a)"
    using Cons.prems by (intro sweep_req_visits [OF e]) simp_all
  then obtain sr1 where sr1: "sweep_req e sr a = Some sr1" "same_config sr sr1" "running sr1"
    by (auto simp: visits_def)
  obtain pre' where "addrs sr1 = pre' @ as"
    using visit_suffix [OF Cons.prems] v sr1(1) by metis
  from Cons.IH [OF sr1(3) this] sr1 show ?case
    by (subst sweep_loop.simps) (auto simp: hd_opt_def [of "a # as"] nxt intro: same_config_trans)
qed

lemma sweepreqs_eq:
  assumes "env_ok e" and "running sr"
  obtains sr' where "sr_arpcache_sweepreqs e sr = Some sr'" "sweep_all e sr (addrs sr) = Some sr'"
    "same_config sr sr'" "running sr'"
proof -
  have "sr_arpcache_sweepreqs e sr = sweep_loop e (hd_opt (addrs sr)) sr"
    by (simp add: sr_arpcache_sweepreqs_def hd_opt_def split: list.split)
  with sweep_loop_all [OF assms, of "[]"] that show thesis by auto
qed

lemma running_expire: "running sr \<Longrightarrow> running (sr\<lparr>cache := expire_entries t (cache sr)\<rparr>)"
  by (simp add: running_def router_inv_def cache_inv_def expire_table_inv names_ok_def)
    (simp add: expire_entries_def queue_inv_def queue_pkts_ok_def asked_def)

lemma timeout_running:
  assumes "env_ok e" and "running sr"
  obtains sr' where "sr_arpcache_timeout e sr = Some sr'" "same_config sr sr'" "running sr'"
proof -
  obtain sr' where "sr_arpcache_timeout e sr = Some sr'"
      "same_config (sr\<lparr>cache := expire_entries (now e) (cache sr)\<rparr>) sr'" "running sr'"
    using sweepreqs_eq [OF assms(1) running_expire [OF assms(2)]] unfolding sr_arpcache_timeout_def by metis
  with that show thesis by (simp add: same_config_def)
qed

end
