(* ===== verification/System.thy ===== *)
theory System
  imports Sweep
begin

text \<open>
  The router as a whole: frames that arrive and rounds of the timer thread, one after the
  other, from the state \<^verbatim>\<open>sr_init\<close> leaves. Shown here: every such run goes through without a
  fault, keeps the invariants, and no request stays unanswered in the queue for good.
\<close>

section \<open>Events\<close>

datatype event = Receive env "u8 list" cstring | Tick env

fun exec :: "event \<Rightarrow> sr_instance \<Rightarrow> sr_instance option" where
  "exec (Receive e p iface) sr = sr_handlepacket e sr p (length p) iface"
| "exec (Tick e) sr = sr_arpcache_timeout e sr"

text \<open>Events the environment may produce: no allocation and no write fails, frames are below 2 GB.\<close>

fun event_ok :: "event \<Rightarrow> bool" where
  "event_ok (Receive e p iface) \<longleftrightarrow> env_ok e \<and> length p < 2 ^ 31"
| "event_ok (Tick e) \<longleftrightarrow> env_ok e"

fun run :: "event list \<Rightarrow> sr_instance \<Rightarrow> sr_instance option" where
  "run [] sr = Some sr"
| "run (ev # evs) sr = do { sr \<leftarrow> exec ev sr; run evs sr }"

definition sr_init :: "sr_instance \<Rightarrow> sr_instance" where
  "sr_init sr = sr\<lparr>cache := sr_arpcache_init\<rparr>"

lemma running_init: "names_ok sr \<Longrightarrow> running (sr_init sr)"
  using init_inv
  by (simp add: running_def sr_init_def router_inv_def names_ok_def)
    (simp add: queue_pkts_ok_def asked_def sr_arpcache_init_def)

section \<open>What an event does to the requests that were there before\<close>

text \<open>A request is dropped or keeps its history: an address is never used for another one.\<close>

definition keeps :: "sr_arpcache \<Rightarrow> sr_arpcache \<Rightarrow> bool" where
  "keeps c c' \<longleftrightarrow> next_addr c \<le> next_addr c' \<and>
     (\<forall>r' \<in> set (requests c'). req_self r' < next_addr c \<longrightarrow> (\<exists>r \<in> set (requests c). same_history r r'))"

lemma keeps_refl [simp]: "keeps c c"
  by (auto simp: keeps_def intro: same_history_refl)

lemma extends_keeps:
  assumes "extends c c'"
  shows "keeps c c'"
proof -
  obtain n old where c': "requests c' = n @ old" "list_all2 same_history (requests c) old"
      "\<forall>r \<in> set n. next_addr c \<le> req_self r" and le: "next_addr c \<le> next_addr c'"
    using assms by (auto simp: extends_def)
  have "\<exists>r \<in> set (requests c). same_history r r'" if "r' \<in> set old" for r'
    using c'(2) that by (auto simp: list_all2_conv_all_nth in_set_conv_nth) (metis nth_mem)
  with c' le show ?thesis by (auto simp: keeps_def not_less [symmetric])
qed

lemma keeps_subset:
  "set (requests c') \<subseteq> set (requests c) \<Longrightarrow> next_addr c' = next_addr c \<Longrightarrow> keeps c c'"
  by (auto simp: keeps_def intro: same_history_refl)

lemma sends_keeps: "sends sr res \<Longrightarrow>
  \<exists>sr'. res = Some sr' \<and> same_config sr sr' \<and> running sr' \<and> keeps (cache sr) (cache sr')"
  by (auto simp: sends_def intro: extends_keeps)

lemma learned_running:
  assumes "running sr"
  shows "running (learned e sr a)" and "keeps (cache sr) (cache (learned e sr a))"
proof -
  let ?c = "cache_learn e (cache sr) (ar_sha a) (ar_sip a)"
  have inv: "router_inv sr" "names_ok sr" "asked (cache sr)" using assms by (simp_all add: running_def)
  have sub: "set (requests ?c) \<subseteq> set (requests (cache sr))" and nx: "next_addr ?c = next_addr (cache sr)"
    using inv(1)
    by (auto simp: cache_learn_def insert_requests router_inv_def cache_inv_def queue_inv_def snd_unlink_ip)
  show "keeps (cache sr) (cache (learned e sr a))" using sub nx by (simp add: keeps_subset)
  have "router_inv (learned e sr a)"
    using insert_router_inv [OF inv(1)] by (simp add: router_inv_def cache_learn_def)
  moreover have "asked ?c" using inv(3) sub by (auto simp: asked_def)
  moreover have "names_ok (learned e sr a)"
    using inv(2) names_ok_config [of sr "learned e sr a"] by simp
  ultimately show "running (learned e sr a)" by (simp add: running_def)
qed

lemma handle_arp_running:
  assumes e: "env_ok e" and run: "running sr"
  shows "\<exists>sr'. sr_handle_arp e sr p (length p) iface = Some sr' \<and> same_config sr sr' \<and> running sr' \<and>
    keeps (cache sr) (cache sr')"
proof (cases "42 \<le> length p \<and> sr_get_interface sr iface \<noteq> None")
  case True
  then obtain a rcv where "ld_arp p 14 = Some a" "sr_get_interface sr iface = Some rcv"
    by (auto simp: arp.ld_in_bounds)
  moreover have "router_inv sr" using run by (simp add: running_def)
  ultimately show ?thesis
    using True run learned_running [OF run] by (simp add: handle_arp_eq [OF e])
next
  case False
  then have "sr_handle_arp e sr p (length p) iface = Some sr"
    by (auto simp: sr_handle_arp_def arp.ld_in_bounds)
  with run show ?thesis by simp
qed

lemma handle_ip_running:
  assumes e: "env_ok e" and run: "running sr" and max: "length p < 2 ^ 31"
  shows "\<exists>sr'. sr_handle_ip e sr p (length p) iface = Some sr' \<and> same_config sr sr' \<and> running sr' \<and>
    keeps (cache sr) (cache sr')"
proof (cases "\<exists>h. ip_valid p h")
  case False
  with run show ?thesis by (simp add: handle_ip_invalid)
next
  case True
  then obtain h where h: "ip_valid p h" by blast
  then have s: "ip_shape p h" by (simp add: ip_valid_def)
  have inv: "router_inv sr" "names_ok sr" "asked (cache sr)" using run by (simp_all add: running_def)
  have len: "34 \<le> length p" "length (forwarded p h) = length p"
    using ip_shapeD(1) [OF s] by (simp_all add: forwarded_def length_refreshed)
  have err: "sends sr (sr_send_icmp_error e sr q (length p) t c)" if "length q = length p" for q t c
    using send_icmp_error_sends [OF e run, of q] that by simp
  have fwd: "sends sr (sr_send_routed_ip_packet e sr (forwarded p h) (length p))"
    using send_routed_sends [OF e run, of "forwarded p h"] len max by simp
  have echo: "sends sr (sr_send_icmp_echo_reply e sr p (length p) iface)" if n: "hlen h + 8 \<le> tlen h"
  proof (cases "sr_get_interface sr iface")
    case None
    with run show ?thesis by (simp add: sr_send_icmp_echo_reply_def)
  next
    case (Some out)
    have "14 + hlen h + 8 \<le> length p" using ip_shapeD [OF s] n by linarith
    then obtain eh ic where "ld_eth p 0 = Some eh" "ld_icmp08 p (14 + hlen h) = Some ic"
      using len(1) by (simp add: eth.ld_in_bounds icmp08.ld_in_bounds)
    from echo_reply_emit [OF e Some s n this max] run show ?thesis by simp
  qed
  have "sends sr (sr_handle_ip e sr p (length p) iface)"
    using run err [of p] err [of "forwarded p h"] fwd echo len(2) by (simp add: handle_ip_eq [OF h])
  then show ?thesis by (rule sends_keeps)
qed

lemma handlepacket_running:
  assumes "env_ok e" and "running sr" and "length p < 2 ^ 31"
  shows "\<exists>sr'. sr_handlepacket e sr p (length p) iface = Some sr' \<and> same_config sr sr' \<and> running sr' \<and>
    keeps (cache sr) (cache sr')"
  using handle_arp_running [OF assms(1,2), of p iface] handle_ip_running [OF assms, of iface] assms(2)
  by (simp add: sr_handlepacket_def ethertype_def eth.ld_in_bounds)

section \<open>What a round of the timer does to them\<close>

text \<open>
  A request that is due has been asked for fewer than five times and is asked for once
  more, or else is dropped; one that is not due is left alone.
\<close>

definition ticked :: "time \<Rightarrow> sr_arpreq \<Rightarrow> sr_arpreq \<Rightarrow> bool" where
  "ticked t r r' \<longleftrightarrow>
     req_self r' = req_self r \<and> req_ip r' = req_ip r \<and>
     (if t - req_sent r < 1 then req_sent r' = req_sent r \<and> req_times_sent r' = req_times_sent r
      else req_times_sent r < 5 \<and> req_times_sent r' = req_times_sent r + 1 \<and> req_sent r' = t)"

lemma ticked_history:
  "ticked t r r1 \<Longrightarrow> same_history r1 r' \<Longrightarrow> ticked t r r'"
  "same_history r r1 \<Longrightarrow> ticked t r1 r' \<Longrightarrow> ticked t r r'"
  by (auto simp: ticked_def same_history_def split: if_splits)

definition tick_rel :: "time \<Rightarrow> nat set \<Rightarrow> sr_arpcache \<Rightarrow> sr_arpcache \<Rightarrow> bool" where
  "tick_rel t A c c' \<longleftrightarrow> next_addr c \<le> next_addr c' \<and>
     (\<forall>r' \<in> set (requests c'). req_self r' < next_addr c \<longrightarrow>
        (\<exists>r \<in> set (requests c). req_self r = req_self r' \<and>
           (if req_self r \<in> A then ticked t r r' else same_history r r')))"

lemma keeps_tick_rel: "keeps c c' \<Longrightarrow> tick_rel t {} c c'"
  by (fastforce simp: keeps_def tick_rel_def same_history_def)

lemma tick_rel_trans:
  assumes "tick_rel t A c1 c2" and "tick_rel t B c2 c3" and disj: "A \<inter> B = {}"
  shows "tick_rel t (A \<union> B) c1 c3"
  unfolding tick_rel_def
proof (intro conjI ballI impI)
  show "next_addr c1 \<le> next_addr c3" using assms(1,2) by (simp add: tick_rel_def)
  fix r3 assume r3: "r3 \<in> set (requests c3)" "req_self r3 < next_addr c1"
  then have "req_self r3 < next_addr c2" using assms(1) by (simp add: tick_rel_def)
  with assms(2) r3 obtain r2 where r2: "r2 \<in> set (requests c2)" "req_self r2 = req_self r3"
      "if req_self r2 \<in> B then ticked t r2 r3 else same_history r2 r3"
    unfolding tick_rel_def by blast
  with assms(1) r3 obtain r1 where r1: "r1 \<in> set (requests c1)" "req_self r1 = req_self r2"
      "if req_self r1 \<in> A then ticked t r1 r2 else same_history r1 r2"
    unfolding tick_rel_def by metis
  have "if req_self r1 \<in> A \<union> B then ticked t r1 r3 else same_history r1 r3"
    using r1(2,3) r2(3) disj by (auto intro: ticked_history same_history_trans split: if_splits)
  with r1 r2(2) show "\<exists>r \<in> set (requests c1). req_self r = req_self r3 \<and>
      (if req_self r \<in> A \<union> B then ticked t r r3 else same_history r r3)" by auto
qed

lemma sweep_req_tick:
  assumes e: "env_ok e" and run: "running sr" and a: "a \<in> set (addrs sr)"
    and s: "sweep_req e sr a = Some sr'"
  shows "tick_rel (now e) {a} (cache sr) (cache sr')"
proof -
  have q: "queue_inv (cache sr)" using run by (simp add: running_def router_inv_def cache_inv_def)
  obtain r where r: "deref_req (cache sr) a = Some r"
    using a deref_req_None_iff [of "cache sr" a] by (cases "deref_req (cache sr) a") auto
  have uniq: "x = r" if "x \<in> set (requests (cache sr))" "req_self x = a" for x
    using deref_req_unique [OF q that(1)] that(2) r by simp
  consider "now e - req_sent r < 1" | "1 \<le> now e - req_sent r" "5 \<le> req_times_sent r"
    | "1 \<le> now e - req_sent r" "req_times_sent r < 5" by fastforce
  then show ?thesis
  proof cases
    case 1
    with s r have "sr' = sr" by (simp add: sweep_req_young)
    with 1 uniq show ?thesis by (auto simp: tick_rel_def ticked_def intro!: bexI)
  next
    case 2
    obtain sr1 where s1: "sends sr (Some sr1)"
        "sweep_req e sr a = Some (sr1\<lparr>cache := sr_arpreq_destroy (cache sr1) a\<rparr>)"
      by (rule sweep_req_give_up [OF e run r 2])
    then have k: "keeps (cache sr) (cache sr1)" and d: "distinct (addrs sr1)"
      by (auto simp: extends_keeps running_def router_inv_def cache_inv_def queue_inv_def)
    then have "set (requests (cache sr')) = {x \<in> set (requests (cache sr1)). req_self x \<noteq> a}"
      and "next_addr (cache sr') = next_addr (cache sr1)"
      using s s1(2) by (auto simp: sr_arpreq_destroy_def unlink_addr_filter)
    with k show ?thesis by (fastforce simp: keeps_def tick_rel_def same_history_def)
  next
    case 3
    obtain sr1 where "cache sr1 = cache sr"
        "sweep_req e sr a = Some (sr1\<lparr>cache := update_req a (mark_sent e) (cache sr)\<rparr>)"
      by (rule sweep_req_retry [OF e run r 3])
    with s have c: "cache sr' = update_req a (mark_sent e) (cache sr)" by auto
    from 3 uniq show ?thesis
      unfolding tick_rel_def c by (auto simp: update_req_def ticked_def mark_sent_def)
  qed
qed

lemma sweep_all_tick:
  assumes e: "env_ok e"
  shows "running sr \<Longrightarrow> addrs sr = pre @ as \<Longrightarrow> sweep_all e sr as = Some sr' \<Longrightarrow>
    tick_rel (now e) (set as) (cache sr) (cache sr')"
proof (induction as arbitrary: sr pre)
  case Nil
  then show ?case using keeps_tick_rel [OF keeps_refl] by simp
next
  case (Cons a as)
  have dist: "distinct (addrs sr)"
    using Cons.prems(1) by (simp add: running_def router_inv_def cache_inv_def queue_inv_def)
  then have "{a} \<inter> set as = {}" unfolding Cons.prems(2) by auto
  moreover have v: "visits a sr (sweep_req e sr a)"
    using Cons.prems by (intro sweep_req_visits [OF e]) simp_all
  then obtain sr1 where sr1: "sweep_req e sr a = Some sr1" "running sr1" by (auto simp: visits_def)
  obtain pre' where "addrs sr1 = pre' @ as"
    using visit_suffix [OF Cons.prems(1,2)] v sr1(1) by metis
  moreover have "tick_rel (now e) {a} (cache sr) (cache sr1)"
    using Cons.prems by (intro sweep_req_tick [OF e _ _ sr1(1)]) simp_all
  ultimately show ?case
    using tick_rel_trans [of "now e" "{a}" "cache sr" "cache sr1" "set as"] Cons.IH [OF sr1(2)]
      Cons.prems(3) sr1(1) by simp
qed

lemma timeout_tick_rel:
  assumes e: "env_ok e" and run: "running sr" and s: "sr_arpcache_timeout e sr = Some sr'"
  shows "tick_rel (now e) (set (addrs sr)) (cache sr) (cache sr')"
proof -
  let ?sr = "sr\<lparr>cache := expire_entries (now e) (cache sr)\<rparr>"
  have same: "requests (cache ?sr) = requests (cache sr)" "next_addr (cache ?sr) = next_addr (cache sr)"
    by (simp_all add: expire_entries_def)
  have "sweep_all e ?sr (addrs ?sr) = Some sr'"
    using sweepreqs_eq [OF e running_expire [OF run, of "now e"]] s
    by (metis option.inject sr_arpcache_timeout_def)
  then have "tick_rel (now e) (set (addrs ?sr)) (cache ?sr) (cache sr')"
    by (rule sweep_all_tick [OF e running_expire [OF run], rotated, where pre = "[]"]) simp
  then show ?thesis unfolding tick_rel_def same .
qed

lemma timeout_next_addr:
  "env_ok e \<Longrightarrow> running sr \<Longrightarrow> sr_arpcache_timeout e sr = Some sr' \<Longrightarrow>
   next_addr (cache sr) \<le> next_addr (cache sr')"
  using timeout_tick_rel [of e sr sr'] by (simp add: tick_rel_def)

lemma timeout_tick:
  "env_ok e \<Longrightarrow> running sr \<Longrightarrow> sr_arpcache_timeout e sr = Some sr' \<Longrightarrow>
   r' \<in> set (requests (cache sr')) \<Longrightarrow> req_self r' < next_addr (cache sr) \<Longrightarrow>
   \<exists>r \<in> set (requests (cache sr)). ticked (now e) r r'"
  using timeout_tick_rel [of e sr sr'] by (fastforce simp: tick_rel_def)

section \<open>Runs\<close>

text \<open>
  What is relied on of a system that reacts to events: on an acceptable event it does not
  fail and keeps its invariant. Any sequence of such events then goes through.
\<close>

locale safe_system =
  fixes ev_exec :: "'e \<Rightarrow> 's \<Rightarrow> 's option"
    and ok :: "'e \<Rightarrow> bool"
    and inv :: "'s \<Rightarrow> bool"
  assumes ev_safe: "inv s \<Longrightarrow> ok ev \<Longrightarrow> \<exists>s'. ev_exec ev s = Some s' \<and> inv s'"
begin

fun run_all :: "'e list \<Rightarrow> 's \<Rightarrow> 's option" where
  "run_all [] s = Some s"
| "run_all (ev # evs) s = ev_exec ev s \<bind> run_all evs"

lemma run_all_safe: "inv s \<Longrightarrow> \<forall>ev \<in> set evs. ok ev \<Longrightarrow> \<exists>s'. run_all evs s = Some s' \<and> inv s'"
proof (induction evs arbitrary: s)
  case (Cons ev evs)
  then obtain s1 where "ev_exec ev s = Some s1" "inv s1" using ev_safe [of s ev] by auto
  with Cons show ?case by simp
qed simp

end

text \<open>One whose steps relate the state before and the state after, in a way that adds up.\<close>

locale tracking_system = safe_system ev_exec ok inv
  for ev_exec :: "'e \<Rightarrow> 's \<Rightarrow> 's option" and ok :: "'e \<Rightarrow> bool" and inv :: "'s \<Rightarrow> bool" +
  fixes rel :: "'s \<Rightarrow> 's \<Rightarrow> bool"
  assumes rel_refl: "inv s \<Longrightarrow> rel s s"
    and rel_trans: "rel s s1 \<Longrightarrow> rel s1 s2 \<Longrightarrow> rel s s2"
    and rel_step: "inv s \<Longrightarrow> ok ev \<Longrightarrow> ev_exec ev s = Some s' \<Longrightarrow> rel s s'"
begin

lemma run_all_tracked:
  "inv s \<Longrightarrow> \<forall>ev \<in> set evs. ok ev \<Longrightarrow> \<exists>s'. run_all evs s = Some s' \<and> inv s' \<and> rel s s'"
proof (induction evs arbitrary: s)
  case (Cons ev evs)
  then obtain s1 where s1: "ev_exec ev s = Some s1" "inv s1" using ev_safe [of s ev] by auto
  then have "rel s s1" using rel_step [of s ev s1] Cons.prems by auto
  with Cons.IH [OF s1(2)] Cons.prems(2) s1(1) rel_trans show ?case by fastforce
qed (simp add: rel_refl)

end

text \<open>
  One that may fail, on the events and in the states \<open>bad\<close> describes; \<open>fits\<close> is what has to hold of the
  events to come and of the state. It fails exactly when such an event comes.
\<close>

locale faulting_system =
  fixes ev_exec :: "'e \<Rightarrow> 's \<Rightarrow> 's option"
    and fits :: "'e list \<Rightarrow> 's \<Rightarrow> bool"
    and bad :: "'e \<Rightarrow> 's \<Rightarrow> bool"
  assumes bad_fails: "fits (ev # evs) s \<Longrightarrow> ev_exec ev s = None \<longleftrightarrow> bad ev s"
    and fits_on: "fits (ev # evs) s \<Longrightarrow> ev_exec ev s = Some s' \<Longrightarrow> fits evs s'"
begin

fun run_all :: "'e list \<Rightarrow> 's \<Rightarrow> 's option" where
  "run_all [] s = Some s"
| "run_all (ev # evs) s = ev_exec ev s \<bind> run_all evs"

lemma run_all_append: "run_all (as @ bs) s = run_all as s \<bind> run_all bs"
  by (induction as arbitrary: s) (simp_all add: bind_assoc cong: Option.bind_cong)

lemma run_all_fits: "fits (as @ bs) s \<Longrightarrow> run_all as s = Some s' \<Longrightarrow> fits bs s'"
proof (induction as arbitrary: s)
  case (Cons a as)
  with fits_on [of a "as @ bs" s] show ?case by (auto simp: bind_eq_Some_conv)
qed simp

lemma run_all_fails: "run_all evs s = None \<Longrightarrow>
  \<exists>before ev after s'. evs = before @ ev # after \<and> run_all before s = Some s' \<and> ev_exec ev s' = None"
proof (induction evs arbitrary: s)
  case (Cons a evs)
  show ?case
  proof (cases "ev_exec a s")
    case None
    then show ?thesis by (intro exI [of _ "[]"]) simp
  next
    case (Some s1)
    with Cons.prems have "run_all evs s1 = None" by simp
    from Cons.IH [OF this] obtain before ev after s' where "evs = before @ ev # after" "run_all before s1 = Some s'"
        "ev_exec ev s' = None" by blast
    with Some show ?thesis by (intro exI [of _ "a # before"] exI [of _ ev] exI [of _ after] exI [of _ s']) simp
  qed
qed simp

lemma run_all_None:
  assumes "fits evs s"
  shows "run_all evs s = None \<longleftrightarrow>
    (\<exists>before ev after s'. evs = before @ ev # after \<and> run_all before s = Some s' \<and> bad ev s')"
proof -
  have "ev_exec ev s' = None \<longleftrightarrow> bad ev s'" if "evs = before @ ev # after" "run_all before s = Some s'" for before ev after s'
    using that assms run_all_fits bad_fails by blast
  moreover have "run_all evs s = None" if "evs = before @ ev # after" "run_all before s = Some s'" "ev_exec ev s' = None"
    for before ev after s'
    using that by (simp add: run_all_append)
  ultimately show ?thesis using run_all_fails [of evs s] by metis
qed

end

lemma exec_running:
  assumes "running sr" and "event_ok ev"
  shows "\<exists>sr'. exec ev sr = Some sr' \<and> running sr' \<and> same_config sr sr'"
proof (cases ev)
  case (Receive e p iface)
  with assms handlepacket_running [of e sr p iface] show ?thesis by auto
next
  case (Tick e)
  with assms timeout_running [of e sr] show ?thesis by (metis event_ok.simps(2) exec.simps(2))
qed

text \<open>The router is one, and what it tracks is its configuration.\<close>

interpretation rtr: tracking_system exec event_ok running same_config
proof unfold_locales
  fix s ev assume "running s" and "event_ok ev"
  then show "\<exists>s'. exec ev s = Some s' \<and> running s'" using exec_running by blast
next
  fix s ev s' assume "running s" and "event_ok ev" and "exec ev s = Some s'"
  then show "same_config s s'" using exec_running by fastforce
qed (auto intro: same_config_trans)

lemma run_run_all: "run evs sr = rtr.run_all evs sr"
  by (induction evs arbitrary: sr) (simp_all cong: Option.bind_cong)

text \<open>The step relation and the states it reaches.\<close>

inductive step :: "sr_instance \<Rightarrow> event \<Rightarrow> sr_instance \<Rightarrow> bool" where
  receive: "event_ok (Receive e p iface) \<Longrightarrow> sr_handlepacket e sr p (length p) iface = Some sr' \<Longrightarrow>
    step sr (Receive e p iface) sr'"
| tick: "event_ok (Tick e) \<Longrightarrow> sr_arpcache_timeout e sr = Some sr' \<Longrightarrow> step sr (Tick e) sr'"

inductive_cases receiveE: "step sr (Receive e p iface) sr'"
inductive_cases tickE: "step sr (Tick e) sr'"

inductive reachable :: "sr_instance \<Rightarrow> sr_instance \<Rightarrow> bool" for sr0 where
  start: "reachable sr0 (sr_init sr0)"
| more: "reachable sr0 sr \<Longrightarrow> step sr ev sr' \<Longrightarrow> reachable sr0 sr'"

lemma step_exec: "step sr ev sr' \<longleftrightarrow> event_ok ev \<and> exec ev sr = Some sr'"
  by (cases ev) (auto intro: step.intros elim: receiveE tickE)

lemma reachable_running:
  "reachable sr0 sr \<Longrightarrow> names_ok sr0 \<Longrightarrow> running sr \<and> same_config sr0 sr"
proof (induction rule: reachable.induct)
  case start
  then show ?case by (simp add: running_init) (simp add: sr_init_def)
next
  case (more sr ev sr')
  then show ?case using exec_running [of sr ev] by (auto simp: step_exec intro: same_config_trans)
qed

section \<open>Requests do not wait for ever\<close>

fun tick_times :: "event list \<Rightarrow> time list" where
  "tick_times [] = []"
| "tick_times (Tick e # evs) = now e # tick_times evs"
| "tick_times (Receive e p iface # evs) = tick_times evs"

lemma request_ages:
  "running sr \<Longrightarrow> \<forall>ev \<in> set evs. event_ok ev \<Longrightarrow> sorted_wrt (<) (tick_times evs) \<Longrightarrow>
   run evs sr = Some sr' \<Longrightarrow> r' \<in> set (requests (cache sr')) \<Longrightarrow> req_self r' < next_addr (cache sr) \<Longrightarrow>
   \<exists>r \<in> set (requests (cache sr)). req_self r = req_self r' \<and>
     ((\<forall>t \<in> set (tick_times evs). req_sent r < t) \<longrightarrow>
      unat (req_times_sent r) + length (tick_times evs) \<le> unat (req_times_sent r'))"
proof (induction evs arbitrary: sr)
  case (Cons ev evs)
  obtain sr1 where sr1: "exec ev sr = Some sr1" "running sr1" "run evs sr1 = Some sr'"
    using exec_running [of sr ev] Cons.prems by auto
  show ?case
  proof (cases ev)
    case (Receive e p iface)
    then have k: "keeps (cache sr) (cache sr1)"
      using handlepacket_running [of e sr p iface] Cons.prems(1,2) sr1(1) by auto
    then have "req_self r' < next_addr (cache sr1)" using Cons.prems(6) by (simp add: keeps_def)
    with Cons.IH [OF sr1(2)] Cons.prems sr1(3) Receive obtain r1 where
      r1: "r1 \<in> set (requests (cache sr1))" "req_self r1 = req_self r'"
        "(\<forall>t \<in> set (tick_times evs). req_sent r1 < t) \<longrightarrow>
          unat (req_times_sent r1) + length (tick_times evs) \<le> unat (req_times_sent r')" by auto
    with k Cons.prems(6) obtain r where "r \<in> set (requests (cache sr))" "same_history r r1"
      by (metis keeps_def)
    with r1 Receive show ?thesis by (auto simp: same_history_def intro!: bexI [of _ r])
  next
    case (Tick e)
    have e: "env_ok e" using Cons.prems(2) Tick by simp
    have t: "sr_arpcache_timeout e sr = Some sr1" using sr1(1) Tick by simp
    have "next_addr (cache sr) \<le> next_addr (cache sr1)" by (rule timeout_next_addr [OF e Cons.prems(1) t])
    with Cons.IH [OF sr1(2)] Cons.prems sr1(3) Tick obtain r1 where
      r1: "r1 \<in> set (requests (cache sr1))" "req_self r1 = req_self r'"
        "(\<forall>t \<in> set (tick_times evs). req_sent r1 < t) \<longrightarrow>
          unat (req_times_sent r1) + length (tick_times evs) \<le> unat (req_times_sent r')" by auto
    with timeout_tick [OF e Cons.prems(1) t r1(1)] Cons.prems(6) obtain r where
      r: "r \<in> set (requests (cache sr))" "ticked (now e) r r1" by auto
    have "unat (req_times_sent r) + length (tick_times (ev # evs)) \<le> unat (req_times_sent r')"
      if "\<forall>t \<in> set (tick_times (ev # evs)). req_sent r < t"
    proof -
      have "req_times_sent r < 5" "req_times_sent r1 = req_times_sent r + 1" "req_sent r1 = now e"
        using that r(2) Tick by (auto simp: ticked_def split: if_splits)
      with r1(3) Cons.prems(3) Tick times_sent_succ(3) [of "req_times_sent r"] show ?thesis by simp
    qed
    with r r1(2) show ?thesis by (auto simp: ticked_def)
  qed
qed auto

end
