(* ===== verification/Example.thy ===== *)
theory Example
  imports System
begin

text \<open>
  A small network on which the properties are instantiated: a router with two interfaces,
  a host behind each of them, and the frames they exchange.
\<close>

definition ip4 :: "u8 \<Rightarrow> u8 \<Rightarrow> u8 \<Rightarrow> u8 \<Rightarrow> u32" where
  "ip4 a b c d = le32 a b c d"

definition eth0 :: sr_if where
  "eth0 = \<lparr>if_name = ''eth0'', if_addr = MAC 2 0 0 0 0 1, if_ip = ip4 10 0 0 1, if_speed = 0\<rparr>"

definition eth1 :: sr_if where
  "eth1 = \<lparr>if_name = ''eth1'', if_addr = MAC 2 0 0 0 0 2, if_ip = ip4 10 0 1 1, if_speed = 0\<rparr>"

definition host_a :: mac where "host_a = MAC 6 0 0 0 0 10"
definition host_b :: mac where "host_b = MAC 6 0 0 0 0 11"

definition routes :: "sr_rt list" where
  "routes =
     [\<lparr>rt_dest = ip4 10 0 0 0, rt_gw = 0, rt_mask = ip4 255 255 255 0, rt_interface = ''eth0''\<rparr>,
      \<lparr>rt_dest = ip4 10 0 1 0, rt_gw = 0, rt_mask = ip4 255 255 255 0, rt_interface = ''eth1''\<rparr>]"

definition rtr0 :: sr_instance where
  "rtr0 = \<lparr>sockfd = 3, user = ''u'', host = ''h'', template = '''', topo_id = 0, if_list = [eth0, eth1],
     routing_table = routes, cache = sr_arpcache_init, logfile = None, sock_out = []\<rparr>"

text \<open>The same router after it has learned the address of the host 10.0.1.2.\<close>

definition rtr1 :: sr_instance where
  "rtr1 = rtr0\<lparr>cache := cache_learn ideal_env sr_arpcache_init host_b (ip4 10 0 1 2)\<rparr>"

text \<open>IP packets from 10.0.0.2: the header with a given lifetime, protocol and destination.\<close>

definition hdr0 :: "u8 \<Rightarrow> u8 \<Rightarrow> u32 \<Rightarrow> sr_ip_hdr" where
  "hdr0 ttl proto dst =
     \<lparr>ip_hl = 5, ip_v = 4, ip_tos = 0, ip_len = htons 28, ip_id = 0, ip_off = 0, ip_ttl = ttl,
      ip_p = proto, ip_sum = 0, ip_src = ip4 10 0 0 2, ip_dst = dst\<rparr>"

definition hdr :: "u8 \<Rightarrow> u8 \<Rightarrow> u32 \<Rightarrow> sr_ip_hdr" where
  "hdr ttl proto dst = (hdr0 ttl proto dst)\<lparr>ip_sum := cksum (enc_ip (hdr0 ttl proto dst))\<rparr>"

definition eth_in :: "u16 \<Rightarrow> sr_ethernet_hdr" where
  "eth_in t = \<lparr>ether_dhost = MAC 2 0 0 0 0 1, ether_shost = host_a, ether_type = htons t\<rparr>"

definition ping :: sr_icmp_t08_hdr where
  "ping = \<lparr>icmp08_type = 8, icmp08_code = 0, icmp08_sum = htons 0xf7fd, icmp08_id = htons 1, icmp08_seq = htons 1\<rparr>"

definition ip_frame :: "u8 \<Rightarrow> u8 \<Rightarrow> u32 \<Rightarrow> u8 list" where
  "ip_frame ttl proto dst = enc_eth (eth_in ethertype_ip) @ enc_ip (hdr ttl proto dst) @ enc_icmp08 ping"

definition dst_b :: u32 where "dst_b = ip4 10 0 1 2"

definition bcast_arp :: "mac \<Rightarrow> u16 \<Rightarrow> u32 \<Rightarrow> mac \<Rightarrow> u32 \<Rightarrow> sr_arp_hdr" where
  "bcast_arp sha oper sip tha tip =
     \<lparr>ar_hrd = htons arp_hrd_ethernet, ar_pro = htons ethertype_ip, ar_hln = 6, ar_pln = 4,
      ar_op = htons oper, ar_sha = sha, ar_sip = sip, ar_tha = tha, ar_tip = tip\<rparr>"

text \<open>The answer of the host 10.0.1.2 to the router, and a question of 10.0.0.2 for the router.\<close>

definition answer_b :: sr_arp_hdr where
  "answer_b = bcast_arp host_b arp_op_reply dst_b (MAC 2 0 0 0 0 2) (ip4 10 0 1 1)"

definition question_a :: sr_arp_hdr where
  "question_a = bcast_arp host_a arp_op_request (ip4 10 0 0 2) (MAC 0 0 0 0 0 0) (ip4 10 0 0 1)"

definition arp_frame :: "sr_arp_hdr \<Rightarrow> u8 list" where
  "arp_frame a = enc_eth (eth_in ethertype_arp) @ enc_arp a"

section \<open>Facts about the example\<close>

lemma length_frames [simp]: "length (ip_frame t q d) = 42" "length (arp_frame a) = 42"
  by (simp_all add: ip_frame_def arp_frame_def eth.length_enc iph.length_enc icmp08.length_enc arp.length_enc)

lemma small_frames: "length (ip_frame t q d) < 2 ^ 31" "length (arp_frame a) < 2 ^ 31"
  by simp_all

lemma rtr_names [simp]: "names_ok rtr0" "names_ok rtr1"
  by code_simp+

lemma frame_eth [simp]:
  "ld_eth (ip_frame t q d) 0 = Some (eth_in ethertype_ip)" "ld_eth (arp_frame a) 0 = Some (eth_in ethertype_arp)"
  "ntohs (ether_type (eth_in ty)) = ty"
  by (simp_all add: ip_frame_def arp_frame_def ld_def load_def eth.length_enc eth.dec_enc)
    (simp add: eth_in_def)

lemma frame_arp [simp]: "ld_arp (arp_frame a) 14 = Some a"
  by (simp add: arp_frame_def ld_def load_def eth.length_enc arp.length_enc arp.dec_enc)

lemma frame_icmp [simp]: "ld_icmp08 (ip_frame t q d) 34 = Some ping"
  by (simp add: ip_frame_def ld_def load_def eth.length_enc iph.length_enc icmp08.length_enc icmp08.dec_enc)

lemma hdr_simps [simp]:
  "ip_dst (hdr t q d) = d" "ip_src (hdr t q d) = ip4 10 0 0 2" "ip_ttl (hdr t q d) = t" "ip_p (hdr t q d) = q"
  "hlen (hdr t q d) = 20" "tlen (hdr t q d) = 28"
  by (simp_all add: hdr_def hdr0_def)

lemma frame_valid [simp]: "ip_valid (ip_frame t q d) (hdr t q d)"
proof -
  have "ld_ip (ip_frame t q d) 14 = Some (hdr t q d)"
    by (simp add: ip_frame_def ld_def load_def eth.length_enc iph.length_enc iph.dec_enc)
  then have s: "ip_shape (ip_frame t q d) (hdr t q d)"
    by (simp add: ip_shape_def) (simp add: hdr_def hdr0_def)
  have z: "(hdr t q d)\<lparr>ip_sum := 0\<rparr> = hdr0 t q d" by (simp add: hdr_def hdr0_def)
  have "header_sum (ip_frame t q d) (hdr t q d) = cksum (enc_ip (hdr0 t q d))"
    using iph.slice_over_same [of 14 "ip_frame t q d" "hdr0 t q d"] unfolding header_sum_def z by simp
  with s show ?thesis by (simp add: ip_valid_def hdr_def)
qed

text \<open>What the three routers know.\<close>

lemma rtr0_facts:
  "route_to rtr0 dst_b = Some (eth1, dst_b)" "\<not> sr_is_router_ip rtr0 dst_b"
  "arp_mac (cache rtr0) dst_b = None" "pending (cache rtr0) dst_b = None"
  "\<not> table_full (cache rtr0) dst_b" "sr_get_interface rtr0 ''eth1'' = Some eth1"
  "sr_get_interface rtr0 ''eth0'' = Some eth0" "sr_is_router_ip rtr0 (ip4 10 0 1 1)"
  "sr_is_router_ip rtr0 (ip4 10 0 0 1)" "dst_b \<noteq> 0"
  by code_simp+

lemma config_facts:
  assumes "same_config rtr0 sr"
  shows "route_to sr dst_b = Some (eth1, dst_b)" "\<not> sr_is_router_ip sr dst_b"
    "sr_get_interface sr ''eth1'' = Some eth1" "sr_get_interface sr ''eth0'' = Some eth0"
    "sr_is_router_ip sr (ip4 10 0 1 1)" "sr_is_router_ip sr (ip4 10 0 0 1)"
proof -
  show "route_to sr dst_b = Some (eth1, dst_b)"
    using rtr0_facts(1) by (simp add: route_lookups_config(1) [OF assms])
qed (simp_all add: same_config_lookups [OF assms] rtr0_facts)

lemma rtr0_running: "running rtr0"
  using running_init [OF rtr_names(1)] by (simp add: sr_init_def rtr0_def)

lemma rtr1_running: "running rtr1"
proof -
  have inv: "cache_inv (cache rtr1)"
    using init_inv by (simp add: rtr1_def cache_inv_def cache_learn_def insert_table_inv insert_queue_inv)
  have "requests (cache rtr1) = []"
    by (simp add: rtr1_def cache_learn_def insert_requests sr_arpcache_init_def)
  with inv show ?thesis by (simp add: running_def router_inv_def queue_pkts_ok_def asked_def)
qed

text \<open>The router with one packet waiting for the address of 10.0.1.2.\<close>

definition waiting_pkt :: sr_packet where
  "waiting_pkt = queued_packet (resource (if_addr eth1)
     (forwarded (ip_frame 64 17 dst_b) (hdr 64 17 dst_b))) (if_name eth1)"

definition rtr2 :: sr_instance where
  "rtr2 = rtr0\<lparr>cache := open_request ideal_env (cache rtr0) dst_b waiting_pkt\<rparr>"

lemma rtr2_running: "running rtr2"
proof -
  have init: "cache rtr0 = sr_arpcache_init" by (simp add: rtr0_def)
  have "cache_inv (cache rtr2)"
    using init_inv
    by (simp add: rtr2_def init cache_inv_def open_request_def queue_inv_def) (simp add: sr_arpcache_init_def)
  moreover have "queue_pkts_ok (cache rtr2)"
    by (simp add: queue_pkts_ok_def rtr2_def open_request_def init sr_arpcache_init_def waiting_pkt_def
        queued_packet_def pkt_ok_def forwarded_def length_refreshed)
  moreover have "names_ok rtr2" using rtr_names(1) by (simp add: rtr2_def names_ok_def)
  moreover have "asked (cache rtr2)"
    by (simp add: asked_def rtr2_def open_request_def init sr_arpcache_init_def)
  ultimately show ?thesis by (simp add: running_def router_inv_def)
qed

lemma rtr12_config: "same_config rtr0 rtr1" "same_config rtr0 rtr2"
  by (simp_all add: rtr1_def rtr2_def)

lemmas rtr1_config = config_facts [OF rtr12_config(1)]
lemmas rtr2_config = config_facts [OF rtr12_config(2)]

lemma rtr1_knows: "arp_mac (cache rtr1) dst_b = Some host_b"
  by code_simp

lemma rtr2_knows:
  "arp_mac (cache rtr2) dst_b = None" "pending (cache rtr2) dst_b = Some [waiting_pkt]"
  "\<not> table_full (cache rtr2) dst_b"
proof -
  have "arp_mac (cache rtr2) ip = arp_mac (cache rtr0) ip" for ip
    by (rule arp_mac_cong) (simp add: rtr2_def open_request_def)
  then show "arp_mac (cache rtr2) dst_b = None" using rtr0_facts(3) by simp
  show "pending (cache rtr2) dst_b = Some [waiting_pkt]"
    by (simp add: rtr2_def pending_def open_request_def)
  show "\<not> table_full (cache rtr2) dst_b"
    using rtr0_facts(5) by (simp add: table_full_def rtr2_def open_request_def)
qed

lemma answer_simps [simp]:
  "ar_sip answer_b = dst_b" "ar_sha answer_b = host_b" "ntohs (ar_op answer_b) = arp_op_reply"
  "ar_tip answer_b = ip4 10 0 1 1"
  "ar_sip question_a = ip4 10 0 0 2" "ar_sha question_a = host_a" "ntohs (ar_op question_a) = arp_op_request"
  "ar_tip question_a = ip4 10 0 0 1"
  by (simp_all add: answer_b_def question_a_def bcast_arp_def)

text \<open>The router that knows the address of the sender, 10.0.0.2.\<close>

definition rtr3 :: sr_instance where
  "rtr3 = rtr0\<lparr>cache := cache_learn ideal_env sr_arpcache_init host_a (ip4 10 0 0 2)\<rparr>"

lemma rtr3_names: "names_ok rtr3"
  using rtr_names(1) by (simp add: rtr3_def names_ok_def)

lemma rtr3_same: "same_config rtr0 rtr3"
  by (simp add: rtr3_def)

lemmas rtr3_config = config_facts [OF rtr3_same]

lemma rtr3_knows:
  "sr_find_icmp_source_iface rtr3 (eth_in ethertype_ip) (ip4 10 0 0 2) = Some eth0"
  "route_to rtr3 (ip4 10 0 0 2) = Some (eth0, ip4 10 0 0 2)"
  "arp_mac (cache rtr3) (ip4 10 0 0 2) = Some host_a"
  "sr_find_lpm_route rtr3 (ip4 192 0 2 1) = None" "\<not> sr_is_router_ip rtr3 (ip4 192 0 2 1)"
  by code_simp+

lemma rtr3_running: "running rtr3"
proof -
  have "table_inv (cache rtr3)"
    using init_inv by (simp add: rtr3_def cache_inv_def cache_learn_def insert_table_inv)
  moreover have "requests (cache rtr3) = []"
    by (simp add: rtr3_def cache_learn_def insert_requests sr_arpcache_init_def)
  ultimately show ?thesis
    using rtr3_names by (simp add: running_def router_inv_def cache_inv_def queue_inv_def queue_pkts_ok_def asked_def)
qed

lemma frame_echo: "echo_request (ip_frame 64 1 (ip4 10 0 0 1)) (hdr 64 1 (ip4 10 0 0 1))"
  by code_simp

lemma ip4_10_0_0_2: "ip4 10 0 0 2 \<noteq> 0"
  by code_simp

text \<open>The one request of \<open>rtr2\<close>, and a router that has asked for 10.0.1.2 five times in vain.\<close>

definition rq2 :: sr_arpreq where
  "rq2 = \<lparr>req_self = 1, req_ip = dst_b, req_sent = 0, req_times_sent = 1, req_packets = [waiting_pkt]\<rparr>"

definition rq4 :: sr_arpreq where
  "rq4 = rq2\<lparr>req_times_sent := 5\<rparr>"

definition rtr4 :: sr_instance where
  "rtr4 = rtr3\<lparr>cache := (cache rtr3)\<lparr>requests := [rq4], next_addr := 2\<rparr>\<rparr>"

definition outs4 :: "(cstring \<times> u8 list) list" where
  "outs4 = map (\<lambda>q. the (error_frame rtr4 (pkt_buf q) 3 1)) [waiting_pkt]"

lemma rtr2_requests: "requests (cache rtr2) = [rq2]"
  by (simp add: rtr2_def open_request_def rq2_def rtr0_def sr_arpcache_init_def ideal_env_def)

lemma rtr2_request: "deref_req (cache rtr2) 1 = Some rq2"
  by (simp add: deref_req_def rtr2_requests) (simp add: rq2_def)

lemma waiting_iface: "pkt_iface waiting_pkt = ''eth1''"
  by (simp add: waiting_pkt_def queued_packet_def eth1_def strncpy_def sr_IFACE_NAMELEN_def)

lemma rq2_facts:
  "req_self rq2 = 1" "req_ip rq2 = dst_b" "req_sent rq2 = 0" "req_times_sent rq2 = 1"
  "req_packets rq2 = [waiting_pkt]" "pkt_iface waiting_pkt = ''eth1''"
  by (simp_all add: rq2_def waiting_iface)

lemma waiting_ok: "pkt_ok waiting_pkt"
  by (simp add: waiting_pkt_def queued_packet_def pkt_ok_def forwarded_def length_refreshed)

lemma rtr4_running: "running rtr4"
proof -
  have "table_inv (cache rtr4)"
    using init_inv
    by (simp add: rtr4_def rtr3_def table_inv_def [of "_\<lparr>requests := _\<rparr>"] cache_inv_def cache_learn_def)
      (simp add: insert_table_inv)
  then show ?thesis
    using rtr3_names waiting_ok
    by (simp add: running_def router_inv_def cache_inv_def rtr4_def queue_inv_def rq4_def rq2_def
        queue_pkts_ok_def asked_def names_ok_def)
qed

lemma rtr4_request: "deref_req (cache rtr4) 1 = Some rq4"
  by (simp add: deref_req_def rtr4_def) (simp add: rq4_def rq2_def)

lemma rq4_facts:
  "req_sent rq4 = 0" "req_times_sent rq4 = 5"
  "list_all2 (\<lambda>q nf. error_frame rtr4 (pkt_buf q) 3 1 = Some nf) (req_packets rq4) outs4"
proof -
  have "error_frame rtr4 (pkt_buf waiting_pkt) 3 1 \<noteq> None" by code_simp
  then show "list_all2 (\<lambda>q nf. error_frame rtr4 (pkt_buf q) 3 1 = Some nf) (req_packets rq4) outs4"
    by (auto simp: rq4_def rq2_def outs4_def)
qed (simp_all add: rq4_def rq2_def)

lemma rtr0_route: "sr_find_lpm_route rtr0 dst_b = Some (routes ! 1)"
  by code_simp

lemma rtr0_verified: "sr_verify_routing_table rtr0 = 0"
  by code_simp

lemma routes_masks: "\<forall>rt \<in> set (routing_table rtr0). ntohl (rt_mask rt) = prefix_mask 24"
proof -
  have "prefix_mask 24 = 0xffffff00" by (simp add: prefix_mask_def)
  moreover have "\<forall>rt \<in> set (routing_table rtr0). ntohl (rt_mask rt) = 0xffffff00" by code_simp
  ultimately show ?thesis by simp
qed

text \<open>A header that is correct although its checksum field is 0.\<close>

definition zero_hdr :: sr_ip_hdr where
  "zero_hdr = (hdr0 64 17 dst_b)\<lparr>ip_id := htons 26062\<rparr>"

definition zero_frame :: "u8 list" where
  "zero_frame = enc_eth (eth_in ethertype_ip) @ enc_ip zero_hdr @ enc_icmp08 ping"

lemma zero_frame_eth: "ld_eth zero_frame 0 = Some (eth_in ethertype_ip)"
  by (simp add: zero_frame_def ld_def load_def eth.length_enc eth.dec_enc)

lemma zero_frame_shape: "ip_shape zero_frame zero_hdr"
  by code_simp

lemma zero_hdr_facts:
  "ip_sum zero_hdr = 0" "word_sum (take (hlen zero_hdr) (drop 14 zero_frame)) mod 65535 = 0"
proof -
  have "word_sum (take (hlen zero_hdr) (drop 14 zero_frame)) = 65535"
    by (simp add: zero_frame_def zero_hdr_def hdr0_def eth.length_enc iph.length_enc enc_ip_def bytes16_def
        bytes32_def htons_def le16_def dst_b_def ip4_def le32_def)
  then show "word_sum (take (hlen zero_hdr) (drop 14 zero_frame)) mod 65535 = 0" by simp
qed (simp add: zero_hdr_def hdr0_def)

lemma reply_sent:
  "sr_send_packet ideal_env rtr0 (arp_reply_frame eth0 question_a) (length (arp_reply_frame eth0 question_a)) ''eth0'' =
    Some (0, emit ideal_env ''eth0'' (arp_reply_frame eth0 question_a) rtr0)"
proof -
  have "ld_eth (arp_reply_frame eth0 question_a) 0 = Some \<lparr>ether_dhost = ar_sha question_a,
      ether_shost = if_addr eth0, ether_type = htons ethertype_arp\<rparr>"
    by (simp add: arp_reply_frame_def ld_def load_def eth.length_enc eth.dec_enc)
  from sr_send_packet_ok [OF ideal_env_ok _ _ rtr0_facts(7) this] show ?thesis by simp
qed

end
