(* ===== verification/Sha1.thy ===== *)
theory Sha1
  imports Prelude
begin

text \<open>
  The SHA-1 implementation of \<^verbatim>\<open>src/sha1.c\<close>, and the hash as FIPS 180-1 defines it: padding,
  message schedule and compression over a whole message at once. The incremental code is
  shown to compute the latter, however its input is cut into portions.
\<close>

section \<open>Operations\<close>

record SHA1Context =
  Message_Digest :: "u32 list"
  Length_Low :: u32
  Length_High :: u32
  Message_Block :: "u8 list"
  Message_Block_Index :: nat
  Computed :: bool
  Corrupted :: bool

definition SHA1CircularShift :: "nat \<Rightarrow> u32 \<Rightarrow> u32" where
  "SHA1CircularShift bits w = (push_bit bits w AND 0xFFFFFFFF) OR drop_bit (32 - bits) w"

definition SHA1Reset :: "SHA1Context \<Rightarrow> SHA1Context" where
  "SHA1Reset context = context
     \<lparr>Length_Low := 0, Length_High := 0, Message_Block_Index := 0,
      Message_Digest := [0x67452301, 0xEFCDAB89, 0x98BADCFE, 0x10325476, 0xC3D2E1F0],
      Computed := False, Corrupted := False\<rparr>"

text \<open>The word sequence: 16 words from the block, then 64 from the words before.\<close>

definition block_word :: "u8 list \<Rightarrow> nat \<Rightarrow> u32" where
  "block_word b t =
     push_bit 24 (ucast (b ! (t * 4))) OR push_bit 16 (ucast (b ! (t * 4 + 1))) OR
     push_bit 8 (ucast (b ! (t * 4 + 2))) OR ucast (b ! (t * 4 + 3))"

fun W_loop :: "nat \<Rightarrow> u32 list \<Rightarrow> u32 list" where
  "W_loop 0 W = W"
| "W_loop (Suc n) W =
     (let t = length W in
      W_loop n (W @ [SHA1CircularShift 1
        (W ! (t - 3) XOR W ! (t - 8) XOR W ! (t - 14) XOR W ! (t - 16))]))"

type_synonym regs = "u32 \<times> u32 \<times> u32 \<times> u32 \<times> u32"

text \<open>One of the four loops of 20 rounds, from round \<open>t\<close> on.\<close>

fun round_loop :: "(u32 \<Rightarrow> u32 \<Rightarrow> u32 \<Rightarrow> u32) \<Rightarrow> u32 \<Rightarrow> u32 list \<Rightarrow> nat \<Rightarrow> nat \<Rightarrow> regs \<Rightarrow> regs" where
  "round_loop f k W t 0 r = r"
| "round_loop f k W t (Suc n) (A, B, C, D, E) =
     (let temp = (SHA1CircularShift 5 A + f B C D + E + W ! t + k) AND 0xFFFFFFFF in
      round_loop f k W (t + 1) n (temp, A, SHA1CircularShift 30 B, C, D))"

definition SHA1ProcessMessageBlock :: "SHA1Context \<Rightarrow> SHA1Context" where
  "SHA1ProcessMessageBlock context =
     (let W = W_loop 64 (map (block_word (Message_Block context)) [0..<16]);
          H = Message_Digest context;
          r = (H ! 0, H ! 1, H ! 2, H ! 3, H ! 4);
          r = round_loop (\<lambda>B C D. (B AND C) OR (NOT B AND D)) 0x5A827999 W 0 20 r;
          r = round_loop (\<lambda>B C D. B XOR C XOR D) 0x6ED9EBA1 W 20 20 r;
          r = round_loop (\<lambda>B C D. (B AND C) OR (B AND D) OR (C AND D)) 0x8F1BBCDC W 40 20 r;
          (A, B, C, D, E) = round_loop (\<lambda>B C D. B XOR C XOR D) 0xCA62C1D6 W 60 20 r
      in context\<lparr>Message_Digest :=
           [(H ! 0 + A) AND 0xFFFFFFFF, (H ! 1 + B) AND 0xFFFFFFFF, (H ! 2 + C) AND 0xFFFFFFFF,
            (H ! 3 + D) AND 0xFFFFFFFF, (H ! 4 + E) AND 0xFFFFFFFF],
         Message_Block_Index := 0\<rparr>)"

text \<open>\<^verbatim>\<open>Message_Block[Message_Block_Index++] = b\<close>; outside the array is a fault.\<close>

definition put_byte :: "SHA1Context \<Rightarrow> u8 \<Rightarrow> SHA1Context option" where
  "put_byte context b =
     (if Message_Block_Index context < length (Message_Block context)
      then Some (context\<lparr>Message_Block := (Message_Block context)[Message_Block_Index context := b],
             Message_Block_Index := Message_Block_Index context + 1\<rparr>)
      else None)"

text \<open>The two halves of the message length, in bits; 2^64 bits are too many.\<close>

definition count_byte :: "SHA1Context \<Rightarrow> SHA1Context" where
  "count_byte context =
     (let context = context\<lparr>Length_Low := (Length_Low context + 8) AND 0xFFFFFFFF\<rparr>
      in if Length_Low context = 0
         then let context = context\<lparr>Length_High := (Length_High context + 1) AND 0xFFFFFFFF\<rparr>
              in if Length_High context = 0 then context\<lparr>Corrupted := True\<rparr> else context
         else context)"

text \<open>
  The loop \<^verbatim>\<open>while (length-- && !Corrupted)\<close> with what is left of the array; a count that goes beyond
  the end of the array makes it read there.
\<close>

fun input_loop :: "SHA1Context \<Rightarrow> u8 list \<Rightarrow> nat \<Rightarrow> SHA1Context option" where
  "input_loop context message_array 0 = Some context"
| "input_loop context message_array (Suc n) =
     (if Corrupted context then Some context
      else
        (case message_array of
           [] \<Rightarrow> None
         | b # rest \<Rightarrow>
             do {
               context \<leftarrow> put_byte context (b AND 0xFF);
               let context = count_byte context;
               let context =
                 (if Message_Block_Index context = 64 then SHA1ProcessMessageBlock context else context);
               input_loop context rest n }))"

definition SHA1Input :: "SHA1Context \<Rightarrow> u8 list \<Rightarrow> u32 \<Rightarrow> SHA1Context option" where
  "SHA1Input context message_array n =
     (if n = 0 then Some context
      else if Computed context \<or> Corrupted context then Some (context\<lparr>Corrupted := True\<rparr>)
      else input_loop context message_array (unat n))"

text \<open>The padding loops \<^verbatim>\<open>while (Message_Block_Index < limit)\<close>.\<close>

function pad_loop :: "nat \<Rightarrow> SHA1Context \<Rightarrow> SHA1Context option" where
  "pad_loop limit context =
     (if Message_Block_Index context < limit
      then (case put_byte context 0 of None \<Rightarrow> None | Some context \<Rightarrow> pad_loop limit context)
      else Some context)"
  by pat_completeness auto
termination
  by (relation "measure (\<lambda>(limit, context). limit - Message_Block_Index context)")
    (auto simp: put_byte_def split: if_splits)

declare pad_loop.simps [simp del]

definition store_length :: "SHA1Context \<Rightarrow> SHA1Context option" where
  "store_length context =
     map_option (\<lambda>b. context\<lparr>Message_Block := b\<rparr>)
       (store (Message_Block context) 56
          [ucast (drop_bit 24 (Length_High context) AND 0xFF),
           ucast (drop_bit 16 (Length_High context) AND 0xFF),
           ucast (drop_bit 8 (Length_High context) AND 0xFF),
           ucast (Length_High context AND 0xFF),
           ucast (drop_bit 24 (Length_Low context) AND 0xFF),
           ucast (drop_bit 16 (Length_Low context) AND 0xFF),
           ucast (drop_bit 8 (Length_Low context) AND 0xFF),
           ucast (Length_Low context AND 0xFF)])"

definition SHA1PadMessage :: "SHA1Context \<Rightarrow> SHA1Context option" where
  "SHA1PadMessage context =
     do { context \<leftarrow>
            (if Message_Block_Index context > 55
             then do { context \<leftarrow> put_byte context 0x80;
                       context \<leftarrow> pad_loop 64 context;
                       pad_loop 56 (SHA1ProcessMessageBlock context) }
             else do { context \<leftarrow> put_byte context 0x80; pad_loop 56 context });
          context \<leftarrow> store_length context;
          Some (SHA1ProcessMessageBlock context) }"

definition SHA1Result :: "SHA1Context \<Rightarrow> (int \<times> SHA1Context) option" where
  "SHA1Result context =
     (if Corrupted context then Some (0, context)
      else if \<not> Computed context
      then do { context \<leftarrow> SHA1PadMessage context; Some (1, context\<lparr>Computed := True\<rparr>) }
      else Some (1, context))"

section \<open>The standard\<close>

text \<open>FIPS 180-1: functions and constants of round \<open>t\<close>, schedule, compression, padding, hash.\<close>

definition fips_f :: "nat \<Rightarrow> u32 \<Rightarrow> u32 \<Rightarrow> u32 \<Rightarrow> u32" where
  "fips_f t B C D =
     (if t < 20 then (B AND C) OR (NOT B AND D)
      else if t < 40 then B XOR C XOR D
      else if t < 60 then (B AND C) OR (B AND D) OR (C AND D)
      else B XOR C XOR D)"

definition fips_K :: "nat \<Rightarrow> u32" where
  "fips_K t = (if t < 20 then 0x5A827999 else if t < 40 then 0x6ED9EBA1
               else if t < 60 then 0x8F1BBCDC else 0xCA62C1D6)"

text \<open>A big-endian word, and the 64-bit length of a message in bits, as bytes.\<close>

definition be_word :: "u8 \<Rightarrow> u8 \<Rightarrow> u8 \<Rightarrow> u8 \<Rightarrow> u32" where
  "be_word a b c d = of_nat (unat a * 2 ^ 24 + unat b * 2 ^ 16 + unat c * 2 ^ 8 + unat d)"

definition be_length :: "nat \<Rightarrow> u8 list" where
  "be_length n = map (\<lambda>k. of_nat (n div 256 ^ k)) [7, 6, 5, 4, 3, 2, 1, 0]"

fun fips_W :: "u8 list \<Rightarrow> nat \<Rightarrow> u32" where
  "fips_W M t =
     (if t < 16 then be_word (M ! (4 * t)) (M ! (4 * t + 1)) (M ! (4 * t + 2)) (M ! (4 * t + 3))
      else word_rotl 1 (fips_W M (t - 3) XOR fips_W M (t - 8) XOR fips_W M (t - 14) XOR fips_W M (t - 16)))"

declare fips_W.simps [simp del]

definition fips_round :: "u8 list \<Rightarrow> nat \<Rightarrow> regs \<Rightarrow> regs" where
  "fips_round M t = (\<lambda>(A, B, C, D, E).
     (word_rotl 5 A + fips_f t B C D + E + fips_W M t + fips_K t, A, word_rotl 30 B, C, D))"

definition fips_compress :: "u32 list \<Rightarrow> u8 list \<Rightarrow> u32 list" where
  "fips_compress H M =
     (let (A, B, C, D, E) = fold (fips_round M) [0..<80] (H ! 0, H ! 1, H ! 2, H ! 3, H ! 4)
      in [H ! 0 + A, H ! 1 + B, H ! 2 + C, H ! 3 + D, H ! 4 + E])"

function hash_blocks :: "u32 list \<Rightarrow> u8 list \<Rightarrow> u32 list" where
  "hash_blocks H M = (if length M < 64 then H else hash_blocks (fips_compress H (take 64 M)) (drop 64 M))"
  by pat_completeness auto
termination by (relation "measure (\<lambda>(H, M). length M)") auto

declare hash_blocks.simps [simp del]

definition fips_pad :: "u8 list \<Rightarrow> u8 list" where
  "fips_pad M = M @ [0x80] @ replicate ((119 - length M mod 64) mod 64) 0 @
     be_length (8 * length M)"

definition H0 :: "u32 list" where
  "H0 = [0x67452301, 0xEFCDAB89, 0x98BADCFE, 0x10325476, 0xC3D2E1F0]"

definition fips_sha1 :: "u8 list \<Rightarrow> u32 list" where
  "fips_sha1 M = hash_blocks H0 (fips_pad M)"


section \<open>The compression function\<close>

lemma and_0xFFFFFFFF [simp]: "(x :: u32) AND 0xFFFFFFFF = x"
proof -
  have "(0xFFFFFFFF :: u32) = - 1" by simp
  then show ?thesis by (simp only: and.right_neutral)
qed

lemma and_0xFF [simp]: "(x :: u8) AND 0xFF = x"
proof -
  have "(0xFF :: u8) = - 1" by simp
  then show ?thesis by (simp only: and.right_neutral)
qed

lemma SHA1CircularShift_rotl: "n < 32 \<Longrightarrow> SHA1CircularShift n w = word_rotl n w"
proof (rule bit_word_eqI)
  fix m assume n: "n < 32" and "m < LENGTH(32)"
  then have m: "m < 32" by simp
  show "bit (SHA1CircularShift n w) m = bit (word_rotl n w) m"
  proof (cases "m < n")
    case True
    then have "(m + 32 - n) mod 32 = 32 - n + m" using n m by simp
    then show ?thesis using n m True by (simp add: SHA1CircularShift_def bit_simps)
  next
    case False
    then have "(m + 32 - n) mod 32 = m - n" using n m by (simp add: mod_if)
    moreover have "\<not> bit w (32 + m - n)" using bit_imp_le_length [of w "32 + m - n"] False by auto
    ultimately show ?thesis using n m False by (simp add: SHA1CircularShift_def bit_simps)
  qed
qed

lemma be_word_or:
  "be_word a b c d =
     push_bit 24 (ucast a) OR push_bit 16 (ucast b) OR push_bit 8 (ucast c) OR ucast d"
proof -
  have 1: "push_bit 24 (ucast a) OR push_bit 16 (ucast b) OR push_bit 8 (ucast c) OR ucast d =
      push_bit 24 (ucast a) + (push_bit 16 (ucast b) OR push_bit 8 (ucast c) OR (ucast d :: u32))"
    by (rule disjunctive_add_eq_or [symmetric], rule bit_word_eqI)
      (auto simp: bit_simps dest: bit_imp_le_length)
  have 2: "push_bit 16 (ucast b) OR push_bit 8 (ucast c) OR (ucast d :: u32) =
      push_bit 16 (ucast b) + (push_bit 8 (ucast c) OR ucast d)"
    by (rule disjunctive_add_eq_or [symmetric], rule bit_word_eqI)
      (auto simp: bit_simps dest: bit_imp_le_length)
  have 3: "push_bit 8 (ucast c) OR (ucast d :: u32) = push_bit 8 (ucast c) + ucast d"
    by (rule disjunctive_add_eq_or [symmetric], rule bit_word_eqI)
      (auto simp: bit_simps dest: bit_imp_le_length)
  show ?thesis unfolding 1 unfolding 2 unfolding 3 by (simp add: be_word_def push_bit_eq_mult add.assoc)
qed

lemma block_word_be:
  "block_word b t = be_word (b ! (4 * t)) (b ! (4 * t + 1)) (b ! (4 * t + 2)) (b ! (4 * t + 3))"
  by (simp add: block_word_def be_word_or mult.commute)

lemma W_loop_fips:
  "16 \<le> t \<Longrightarrow> W_loop n (map (fips_W M) [0..<t]) = map (fips_W M) [0..<t + n]"
proof (induction n arbitrary: t)
  case (Suc n)
  then show ?case using Suc.IH [of "Suc t"]
    by (simp add: Let_def SHA1CircularShift_rotl fips_W.simps [of M t])
qed simp

lemma W_loop_schedule: "W_loop 64 (map (block_word M) [0..<16]) = map (fips_W M) [0..<80]"
proof -
  have "map (block_word M) [0..<16] = map (fips_W M) [0..<16]"
    by (simp add: fips_W.simps block_word_be)
  then show ?thesis using W_loop_fips [of 16 64 M] by (simp only: add.commute) simp
qed

lemma round_loop_fips:
  assumes "\<And>i. t \<le> i \<Longrightarrow> i < t + n \<Longrightarrow> f = fips_f i \<and> k = fips_K i" and "t + n \<le> 80"
  shows "round_loop f k (map (fips_W M) [0..<80]) t n r = fold (fips_round M) [t..<t + n] r"
  using assms
proof (induction n arbitrary: t r)
  case (Suc n)
  obtain A B C D E where r: "r = (A, B, C, D, E)" by (cases r) auto
  have u: "[t..<t + Suc n] = t # [Suc t..<Suc t + n]" by (simp add: upt_rec)
  have fk: "f = fips_f t" "k = fips_K t" using Suc.prems(1) [of t] by auto
  have "round_loop f k (map (fips_W M) [0..<80]) (Suc t) n r' =
      fold (fips_round M) [Suc t..<Suc t + n] r'" for r'
    by (rule Suc.IH) (use Suc.prems in auto)
  then show ?case unfolding u using Suc.prems(2)
    by (simp add: r SHA1CircularShift_rotl Let_def fips_round_def [of M t] fk del: upt_Suc)
qed simp

lemma SHA1ProcessMessageBlock_fips:
  "SHA1ProcessMessageBlock context = context
     \<lparr>Message_Digest := fips_compress (Message_Digest context) (Message_Block context),
      Message_Block_Index := 0\<rparr>"
proof -
  let ?W = "map (fips_W (Message_Block context)) [0..<80]"
  let ?g = "fips_round (Message_Block context)"
  have split: "fold ?g [0..<80] r =
      fold ?g [60..<60 + 20] (fold ?g [40..<40 + 20] (fold ?g [20..<20 + 20] (fold ?g [0..<0 + 20] r)))" for r
  proof -
    have "[0..<80] = [0..<0 + 20] @ [20..<20 + 20] @ [40..<40 + 20] @ [60..<(60::nat) + 20]"
      by code_simp
    then show ?thesis by (simp only: fold_append o_apply)
  qed
  have rounds:
    "round_loop (\<lambda>B C D. (B AND C) OR (NOT B AND D)) 0x5A827999 ?W 0 20 r = fold ?g [0..<0 + 20] r"
    "round_loop (\<lambda>B C D. B XOR C XOR D) 0x6ED9EBA1 ?W 20 20 r = fold ?g [20..<20 + 20] r"
    "round_loop (\<lambda>B C D. (B AND C) OR (B AND D) OR (C AND D)) 0x8F1BBCDC ?W 40 20 r =
       fold ?g [40..<40 + 20] r"
    "round_loop (\<lambda>B C D. B XOR C XOR D) 0xCA62C1D6 ?W 60 20 r = fold ?g [60..<60 + 20] r" for r
    by (rule round_loop_fips; auto simp: fips_f_def fips_K_def fun_eq_iff)+
  show ?thesis
    unfolding SHA1ProcessMessageBlock_def fips_compress_def Let_def W_loop_schedule rounds split
    by (simp only: and_0xFFFFFFFF split_beta)
qed

section \<open>The hash of a sequence of blocks\<close>

lemma hash_blocks_short: "length M < 64 \<Longrightarrow> hash_blocks H M = H"
  by (simp add: hash_blocks.simps)

lemma hash_blocks_one: "length M = 64 \<Longrightarrow> hash_blocks H M = fips_compress H M"
  by (simp add: hash_blocks.simps)

lemma hash_blocks_append:
  "64 dvd length A \<Longrightarrow> hash_blocks H (A @ B) = hash_blocks (hash_blocks H A) B"
proof (induction H A rule: hash_blocks.induct)
  case (1 H A)
  show ?case
  proof (cases "length A < 64")
    case True
    with 1(2) have "A = []" by (auto dest: dvd_imp_le)
    then show ?thesis by (simp add: hash_blocks.simps [of _ "[]"])
  next
    case False
    then have "hash_blocks H (A @ B) = hash_blocks (fips_compress H (take 64 A)) (drop 64 A @ B)"
      by (subst hash_blocks.simps) simp
    also have "\<dots> = hash_blocks (hash_blocks (fips_compress H (take 64 A)) (drop 64 A)) B"
      by (rule 1(1) [OF False]) (use 1(2) False in \<open>auto simp: dvd_diff_nat\<close>)
    also have "hash_blocks (fips_compress H (take 64 A)) (drop 64 A) = hash_blocks H A"
      using False by (subst (2) hash_blocks.simps) simp
    finally show ?thesis .
  qed
qed

lemma hash_blocks_two:
  "\<lbrakk>64 dvd length A; length B = 64; length C = 64\<rbrakk> \<Longrightarrow>
   hash_blocks H (A @ B @ C) = fips_compress (fips_compress (hash_blocks H A) B) C"
  by (simp add: hash_blocks_append hash_blocks_one)

section \<open>Absorbing a message\<close>

text \<open>
  The context between two calls: \<open>full\<close> is the part of the message already hashed, in whole
  blocks, and \<open>part\<close> the bytes waiting in the block.
\<close>

definition absorbing :: "SHA1Context \<Rightarrow> u8 list \<Rightarrow> u8 list \<Rightarrow> bool" where
  "absorbing context full part \<longleftrightarrow>
     64 dvd length full \<and> length part < 64 \<and> length (Message_Block context) = 64 \<and>
     Message_Block_Index context = length part \<and>
     take (length part) (Message_Block context) = part \<and>
     Message_Digest context = hash_blocks H0 full \<and>
     Length_Low context = of_nat (8 * length (full @ part)) \<and>
     Length_High context = of_nat (length (full @ part) div 2 ^ 29) \<and>
     \<not> Computed context \<and> \<not> Corrupted context"

lemma absorbing_SHA1Reset:
  "length (Message_Block context) = 64 \<Longrightarrow> absorbing (SHA1Reset context) [] []"
  by (simp add: absorbing_def SHA1Reset_def hash_blocks_short H0_def)

lemma put_byte_next:
  "Message_Block_Index context < length (Message_Block context) \<Longrightarrow>
   put_byte context b = Some (context
     \<lparr>Message_Block := (Message_Block context)[Message_Block_Index context := b],
      Message_Block_Index := Message_Block_Index context + 1\<rparr>)"
  by (simp add: put_byte_def)

text \<open>The two 32-bit counters together count the bits of the message.\<close>

lemma length_low_zero:
  "(of_nat (8 * Suc n) :: u32) = 0 \<longleftrightarrow> Suc n mod 2 ^ 29 = 0"
proof -
  have "(of_nat (8 * Suc n) :: u32) = 0 \<longleftrightarrow> 8 * 2 ^ 29 dvd 8 * Suc n"
    by (simp only: word_of_nat_eq_0_iff) simp
  also have "\<dots> \<longleftrightarrow> 2 ^ 29 dvd Suc n" by (simp only: nat_mult_dvd_cancel1 zero_less_numeral)
  finally show ?thesis by (simp only: dvd_eq_mod_eq_0)
qed

lemma length_high_carry:
  assumes "Suc n < 2 ^ 61" and "Suc n mod 2 ^ 29 = 0"
  shows "(of_nat (n div 2 ^ 29) + 1 :: u32) = of_nat (Suc n div 2 ^ 29)"
    and "(of_nat (Suc n div 2 ^ 29) :: u32) \<noteq> 0"
proof -
  have s: "Suc n div 2 ^ 29 = Suc (n div 2 ^ 29)" using assms(2) by (simp only: div_Suc if_True refl)
  then show "(of_nat (n div 2 ^ 29) + 1 :: u32) = of_nat (Suc n div 2 ^ 29)" by simp
  have "Suc n div 2 ^ 29 < 2 ^ 32"
    using assms(1) by (simp add: less_mult_imp_div_less)
  then have "\<not> 2 ^ 32 dvd Suc n div 2 ^ 29" using s by (auto dest: dvd_imp_le)
  then show "(of_nat (Suc n div 2 ^ 29) :: u32) \<noteq> 0" by (simp add: word_of_nat_eq_0_iff)
qed

lemma count_byte_counts:
  assumes "Length_Low context = of_nat (8 * n)" and "Length_High context = of_nat (n div 2 ^ 29)"
    and "Suc n < 2 ^ 61"
  shows "count_byte context = context
     \<lparr>Length_Low := of_nat (8 * Suc n), Length_High := of_nat (Suc n div 2 ^ 29)\<rparr>"
proof -
  have low: "Length_Low context + 8 = of_nat (8 * Suc n)" by (simp add: assms(1))
  show ?thesis
  proof (cases "Suc n mod 2 ^ 29 = 0")
    case True
    show ?thesis
      using length_low_zero [of n] True length_high_carry [OF assms(3) True]
      unfolding count_byte_def Let_def and_0xFFFFFFFF low by (simp add: assms(2) del: of_nat_mult of_nat_Suc)
  next
    case False
    then have "Suc n div 2 ^ 29 = n div 2 ^ 29" by (simp only: div_Suc if_False)
    then show ?thesis
      using length_low_zero [of n] False
      unfolding count_byte_def Let_def and_0xFFFFFFFF low by (simp add: assms(2) del: of_nat_mult of_nat_Suc)
  qed
qed

lemma input_loop_Cons:
  "\<lbrakk>\<not> Corrupted context; put_byte context b = Some c; count_byte c = c'\<rbrakk> \<Longrightarrow>
   input_loop context (b # rest) (Suc n) =
     input_loop (if Message_Block_Index c' = 64 then SHA1ProcessMessageBlock c' else c') rest n"
  by (simp add: Let_def)

text \<open>One byte moves the boundary between the two parts of the message.\<close>

lemma input_loop_step:
  assumes a: "absorbing context full part" and n: "Suc (length (full @ part)) < 2 ^ 61"
  obtains context' full' part' where "input_loop context (b # rest) (Suc m) = input_loop context' rest m"
    and "absorbing context' full' part'" and "full' @ part' = (full @ part) @ [b]"
proof -
  let ?n = "length (full @ part)" and ?i = "length part"
  let ?c = "context\<lparr>Message_Block := (Message_Block context)[?i := b], Message_Block_Index := ?i + 1,
    Length_Low := of_nat (8 * Suc ?n), Length_High := of_nat (Suc ?n div 2 ^ 29)\<rparr>"
  note f = a [unfolded absorbing_def]
  have i: "?i < length (Message_Block context)" using f by simp
  have c: "count_byte (context\<lparr>Message_Block := (Message_Block context)[?i := b],
      Message_Block_Index := ?i + 1\<rparr>) = ?c"
    using f n by (subst count_byte_counts [where n = ?n]) (auto simp del: of_nat_mult of_nat_Suc)
  have p: "take (Suc ?i) ((Message_Block context)[?i := b]) = part @ [b]"
    using f i by (simp add: take_Suc_conv_app_nth)
  have step: "input_loop context (b # rest) (Suc m) =
      input_loop (if Message_Block_Index ?c = 64 then SHA1ProcessMessageBlock ?c else ?c) rest m"
  proof -
    have put: "put_byte context b = Some (context
        \<lparr>Message_Block := (Message_Block context)[?i := b], Message_Block_Index := ?i + 1\<rparr>)"
      using f i by (simp add: put_byte_next)
    have "\<not> Corrupted context" using f by simp
    from this put c show ?thesis by (rule input_loop_Cons)
  qed
  show ?thesis
  proof (cases "?i + 1 = 64")
    case False
    have "absorbing ?c full (part @ [b])"
      using f p False by (auto simp: absorbing_def simp del: of_nat_mult of_nat_Suc)
    with step False show ?thesis by (intro that [of ?c full "part @ [b]"]) auto
  next
    case True
    have block: "(Message_Block context)[?i := b] = part @ [b]"
      using p True f by simp
    have "absorbing (SHA1ProcessMessageBlock ?c) (full @ part @ [b]) []"
      using f True block
      by (auto simp: absorbing_def SHA1ProcessMessageBlock_fips hash_blocks_append hash_blocks_one
          add.commute simp del: of_nat_mult of_nat_Suc)
    with step True show ?thesis by (intro that [of "SHA1ProcessMessageBlock ?c" "full @ part @ [b]" "[]"]) auto
  qed
qed

lemma input_loop_absorbs:
  assumes "absorbing context full part" and "length (full @ part @ bs) < 2 ^ 61"
  shows "\<exists>context' full' part'. input_loop context (bs @ tail) (length bs) = Some context' \<and>
    absorbing context' full' part' \<and> full' @ part' = (full @ part) @ bs"
  using assms
proof (induction bs arbitrary: "context" full part)
  case Nil
  then show ?case by auto
next
  case (Cons b bs)
  from Cons.prems have "Suc (length (full @ part)) < 2 ^ 61" by simp
  from input_loop_step [OF Cons.prems(1) this] obtain c f p
    where s: "input_loop context (b # bs @ tail) (Suc (length bs)) = input_loop c (bs @ tail) (length bs)"
      "absorbing c f p" "f @ p = (full @ part) @ [b]" .
  have "length (f @ p @ bs) < 2 ^ 61" using arg_cong [OF s(3), of length] Cons.prems(2) by simp
  from Cons.IH [OF s(2) this] obtain c' f' p' where "input_loop c (bs @ tail) (length bs) = Some c'"
    "absorbing c' f' p'" "f' @ p' = (f @ p) @ bs" by blast
  with s show ?case by auto
qed

lemma SHA1Input_absorbs:
  assumes "absorbing context full part" and "length (full @ part @ bs) < 2 ^ 61" and "length bs < 2 ^ 32"
  shows "\<exists>context' full' part'. SHA1Input context (bs @ tail) (of_nat (length bs)) = Some context' \<and>
    absorbing context' full' part' \<and> full' @ part' = (full @ part) @ bs"
proof -
  have n: "unat (of_nat (length bs) :: u32) = length bs"
    using assms(3) by (simp add: unat_of_nat take_bit_nat_eq_self)
  have "(of_nat (length bs) :: u32) = 0 \<longleftrightarrow> bs = []"
    using unat_eq_zero [of "of_nat (length bs) :: u32"] unfolding n by auto
  with n input_loop_absorbs [OF assms(1,2), of tail] assms(1) show ?thesis
    by (auto simp: SHA1Input_def absorbing_def)
qed

section \<open>Padding\<close>

lemma pad_loop_fills:
  assumes "Message_Block_Index context \<le> limit" and "limit \<le> length (Message_Block context)"
  shows "pad_loop limit context = Some (context
    \<lparr>Message_Block := overwrite (Message_Block context) (Message_Block_Index context)
        (replicate (limit - Message_Block_Index context) 0),
     Message_Block_Index := limit\<rparr>)"
  using assms
proof (induction limit "context" rule: pad_loop.induct)
  case (1 limit "context")
  show ?case
  proof (cases "Message_Block_Index context < limit")
    case False
    with 1(2) show ?thesis by (subst pad_loop.simps) (simp add: overwrite_def)
  next
    case True
    let ?c = "context\<lparr>Message_Block := (Message_Block context)[Message_Block_Index context := 0],
      Message_Block_Index := Message_Block_Index context + 1\<rparr>"
    have put: "put_byte context 0 = Some ?c" using True 1(3) by (simp add: put_byte_next)
    have "overwrite ((Message_Block context)[Message_Block_Index context := 0])
          (Suc (Message_Block_Index context)) (replicate (limit - Suc (Message_Block_Index context)) 0) =
        overwrite (Message_Block context) (Message_Block_Index context)
          (replicate (limit - Message_Block_Index context) 0)"
      using True 1(3)
      by (simp add: overwrite_def take_Suc_conv_app_nth Suc_diff_Suc flip: replicate_Suc)
    then show ?thesis using 1(1) [OF True put] True 1(3)
      by (subst pad_loop.simps) (simp add: put)
  qed
qed

lemma ucast_and_0xFF [simp]: "(ucast ((x :: u32) AND 0xFF) :: u8) = ucast x"
proof -
  have "(0xFF :: u32) = mask 8" by (simp add: mask_eq_exp_minus_1)
  then have "bit (0xFF :: u32) k \<longleftrightarrow> k < 8" if "k < 32" for k
    using that by (simp only: bit_mask_iff possible_bit_word) simp
  then show ?thesis by (intro bit_word_eqI) (simp add: bit_simps)
qed

lemma store_length_stores:
  assumes "length (Message_Block context) = 64"
    and "Length_Low context = of_nat (8 * n)" and "Length_High context = of_nat (n div 2 ^ 29)"
  shows "store_length context = Some (context
    \<lparr>Message_Block := take 56 (Message_Block context) @ be_length (8 * n)\<rparr>)"
proof -
  have high: "n div 2 ^ 29 = drop_bit 32 (8 * n)"
    by (simp add: drop_bit_eq_div div_mult2_eq [of "8 * n" 8 "2 ^ 29", simplified])
  have p: "(256 :: nat) ^ j = 2 ^ (8 * j)" for j by (simp add: power_mult)
  have b: "(ucast (drop_bit k (of_nat (drop_bit 32 m) :: u32)) :: u8) = of_nat (m div 256 ^ j)"
    if "k = 8 * (j - 4)" "4 \<le> j" "j < 8" for j k m
  proof -
    have "m div 256 ^ j = drop_bit (32 + k) m"
      using that by (simp add: drop_bit_eq_div diff_mult_distrib2 p)
    moreover have "k \<le> 24" using that by auto
    ultimately show ?thesis by (intro bit_word_eqI) (simp add: bit_simps add.assoc)
  qed
  have b': "(ucast (drop_bit k (of_nat m :: u32)) :: u8) = of_nat (m div 256 ^ j)"
    if "k = 8 * j" "j < 4" for j k m
  proof -
    have "m div 256 ^ j = drop_bit k m"
      using that by (simp add: drop_bit_eq_div p)
    then show ?thesis using that by (intro bit_word_eqI) (simp add: bit_simps add.assoc)
  qed
  have u: "(ucast (of_nat m :: u32) :: u8) = of_nat m" for m
    by (intro bit_word_eqI) (simp add: bit_simps)
  show ?thesis
    using assms(1)
    by (simp add: u store_length_def store_def overwrite_def assms(2,3) be_length_def high
      b [where j = 7] b [where j = 6] b [where j = 5] b [where j = 4]
      b' [where j = 3] b' [where j = 2] b' [where j = 1] b' [where j = 0]
      del: of_nat_mult flip: div_mult2_eq)
qed

lemma take_padded:
  "\<lbrakk>i < l; l \<le> length b\<rbrakk> \<Longrightarrow>
   take l (overwrite (b[i := x]) (Suc i) (replicate (l - Suc i) y)) =
     take i b @ x # replicate (l - Suc i) y"
  by (cases "l - i") (auto simp: overwrite_def take_Suc_conv_app_nth Suc_diff_Suc)

lemma take_overwrite_start:
  "length bs \<le> length b \<Longrightarrow> take (length bs) (overwrite b 0 bs) = bs"
  by (simp add: overwrite_def)

lemma length_be_length [simp]: "length (be_length n) = 8"
  by (simp add: be_length_def)

lemma SHA1PadMessage_pads:
  assumes "absorbing context full part"
  shows "\<exists>context'. SHA1PadMessage context = Some context' \<and>
    Message_Digest context' = hash_blocks H0 (fips_pad (full @ part)) \<and> \<not> Corrupted context'"
proof -
  let ?n = "length (full @ part)" and ?i = "length part"
  note f = assms [unfolded absorbing_def]
  have i: "?i < 64" "length (Message_Block context) = 64" using f by auto
  have n: "?n mod 64 = ?i" using f by (auto simp: mod_add_left_eq [symmetric])
  have part: "take ?i (Message_Block context) = part" using f by simp
  show ?thesis
  proof (cases "?i > 55")
    case False
    have z: "(119 - ?n mod 64) mod 64 = 55 - ?i" using False unfolding n by (simp add: mod_if)
    have "fips_pad (full @ part) = full @ (part @ [0x80] @ replicate (55 - ?i) 0 @ be_length (8 * ?n))"
      unfolding fips_pad_def z by simp
    then have "hash_blocks H0 (fips_pad (full @ part)) = fips_compress (hash_blocks H0 full)
        (part @ [0x80] @ replicate (55 - ?i) 0 @ be_length (8 * ?n))"
      using f False by (simp only:) (subst hash_blocks_append; simp add: hash_blocks_one)
    then show ?thesis
      using f False i part take_padded [where i = ?i and l = 56 and b = "Message_Block context" and x = "0x80" and y = 0]
      by (simp add: SHA1PadMessage_def put_byte_next pad_loop_fills store_length_stores [where n = ?n]
        SHA1ProcessMessageBlock_fips del: of_nat_mult)
  next
    case True
    have z: "(119 - ?n mod 64) mod 64 = (63 - ?i) + 56" using True i unfolding n by (simp add: mod_if)
    have "fips_pad (full @ part) = full @ (part @ [0x80] @ replicate (63 - ?i) 0) @
        (replicate 56 0 @ be_length (8 * ?n))"
      unfolding fips_pad_def z by (simp add: replicate_add)
    then have "hash_blocks H0 (fips_pad (full @ part)) = fips_compress (fips_compress (hash_blocks H0 full)
        (part @ [0x80] @ replicate (63 - ?i) 0)) (replicate 56 0 @ be_length (8 * ?n))"
      using f True by (simp only:) (rule hash_blocks_two; simp)
    then show ?thesis
      using f True i part take_padded [where i = ?i and l = 64 and b = "Message_Block context" and x = "0x80" and y = 0]
        take_overwrite_start [of "replicate 56 (0 :: u8)" "part @ 0x80 # replicate (63 - ?i) 0"]
      by (simp add: SHA1PadMessage_def put_byte_next pad_loop_fills store_length_stores [where n = ?n]
        SHA1ProcessMessageBlock_fips del: of_nat_mult)
  qed
qed

section \<open>Whole runs\<close>

text \<open>
  What a user of the hash relies on: the input can be handed over in portions, and the result is
  the hash of all of them together, however often it is asked for. \<open>absorbed c M\<close> says that the context
  has taken in the message \<open>M\<close>.
\<close>

locale stream_hash =
  fixes input :: "'c \<Rightarrow> u8 list \<Rightarrow> 'c option"
    and result :: "'c \<Rightarrow> (int \<times> 'c) option"
    and digest :: "'c \<Rightarrow> 'd"
    and absorbed :: "'c \<Rightarrow> u8 list \<Rightarrow> bool"
    and finished :: "'c \<Rightarrow> bool"
    and hash :: "u8 list \<Rightarrow> 'd"
    and limit piece :: nat
  assumes input_absorbs: "absorbed c M \<Longrightarrow> length (M @ p) < limit \<Longrightarrow> length p < piece \<Longrightarrow>
      \<exists>c'. input c p = Some c' \<and> absorbed c' (M @ p)"
    and result_hash: "absorbed c M \<Longrightarrow> \<exists>d. result c = Some (1, d) \<and> digest d = hash M \<and> finished d"
    and result_again: "finished d \<Longrightarrow> result d = Some (1, d)"
begin

fun portions :: "'c \<Rightarrow> u8 list list \<Rightarrow> 'c option" where
  "portions c [] = Some c"
| "portions c (p # ps) = input c p \<bind> (\<lambda>c. portions c ps)"

lemma portions_absorb:
  "absorbed c M \<Longrightarrow> length (M @ concat ps) < limit \<Longrightarrow> \<forall>p \<in> set ps. length p < piece \<Longrightarrow>
   \<exists>c'. portions c ps = Some c' \<and> absorbed c' (M @ concat ps)"
proof (induction ps arbitrary: c M)
  case (Cons p ps)
  then have "length (M @ p) < limit" "length p < piece" by simp_all
  from input_absorbs [OF Cons.prems(1) this] obtain c1 where
    c1: "input c p = Some c1" "absorbed c1 (M @ p)" by blast
  from Cons.IH [OF c1(2)] Cons.prems(2,3) c1(1) show ?case by simp
qed simp

lemma portions_hash:
  assumes "absorbed c []" and "length (concat ps) < limit" and "\<forall>p \<in> set ps. length p < piece"
  shows "\<exists>c' d. portions c ps = Some c' \<and> result c' = Some (1, d) \<and> digest d = hash (concat ps) \<and>
    result d = Some (1, d)"
  using portions_absorb [OF assms(1) _ assms(3)] assms(2) result_hash result_again by fastforce

text \<open>The salted hash of two pieces, as an authentication uses it.\<close>

lemma two_pieces:
  assumes "absorbed c []" and "length (p @ q) < limit" and "length p < piece" "length q < piece"
  obtains c1 c2 d where "input c p = Some c1" "input c1 q = Some c2" "result c2 = Some (1, d)"
    "digest d = hash (p @ q)"
proof -
  obtain c1 where c1: "input c p = Some c1" "absorbed c1 p"
    using input_absorbs [OF assms(1), of p] assms(2,3) by auto
  obtain c2 where "input c1 q = Some c2" "absorbed c2 (p @ q)"
    using input_absorbs [OF c1(2) assms(2,4)] by blast
  with result_hash [of c2 "p @ q"] c1(1) that show thesis by blast
qed

end

definition SHA1_absorbed :: "SHA1Context \<Rightarrow> u8 list \<Rightarrow> bool" where
  "SHA1_absorbed context M \<longleftrightarrow> (\<exists>full part. absorbing context full part \<and> full @ part = M)"

definition SHA1_finished :: "SHA1Context \<Rightarrow> bool" where
  "SHA1_finished context \<longleftrightarrow> Computed context \<and> \<not> Corrupted context"

lemma SHA1Result_absorbing:
  assumes "absorbing context full part"
  shows "\<exists>d. SHA1Result context = Some (1, d) \<and> Message_Digest d = fips_sha1 (full @ part) \<and>
    Computed d \<and> \<not> Corrupted d"
  using SHA1PadMessage_pads [OF assms] assms
  by (auto simp: SHA1Result_def absorbing_def fips_sha1_def)

interpretation sha: stream_hash "\<lambda>c p. SHA1Input c p (of_nat (length p))" SHA1Result Message_Digest
  SHA1_absorbed SHA1_finished fips_sha1 "2 ^ 61" "2 ^ 32"
proof unfold_locales
  fix c :: SHA1Context and M p :: "u8 list"
  assume p: "length p < 2 ^ 32" and "SHA1_absorbed c M" "length (M @ p) < 2 ^ 61"
  then obtain full part where "absorbing c full part" "full @ part = M" "length (full @ part @ p) < 2 ^ 61"
    by (auto simp: SHA1_absorbed_def)
  from SHA1Input_absorbs [OF this(1,3) p, of "[]"] this(2)
  show "\<exists>c'. SHA1Input c p (of_nat (length p)) = Some c' \<and> SHA1_absorbed c' (M @ p)"
    unfolding SHA1_absorbed_def by auto
next
  fix c :: SHA1Context and M :: "u8 list"
  assume "SHA1_absorbed c M"
  then obtain full part where "absorbing c full part" "full @ part = M" by (auto simp: SHA1_absorbed_def)
  from SHA1Result_absorbing [OF this(1)] this(2)
  show "\<exists>d. SHA1Result c = Some (1, d) \<and> Message_Digest d = fips_sha1 M \<and> SHA1_finished d"
    by (simp add: SHA1_finished_def)
qed (simp add: SHA1_finished_def SHA1Result_def)

lemma SHA1Reset_absorbed: "length (Message_Block context) = 64 \<Longrightarrow> SHA1_absorbed (SHA1Reset context) []"
  using absorbing_SHA1Reset by (auto simp: SHA1_absorbed_def)

text \<open>Input after the result has been taken is refused, and so is every later result.\<close>

lemma SHA1Input_after_Result:
  "Computed c \<Longrightarrow> n \<noteq> 0 \<Longrightarrow> \<exists>d. SHA1Input c p n = Some d \<and> SHA1Result d = Some (0, d)"
  by (simp add: SHA1Input_def SHA1Result_def)

text \<open>Only the counted bytes of the array matter.\<close>

lemma input_loop_take: "n \<le> length bs \<Longrightarrow> input_loop context bs n = input_loop context (take n bs) n"
proof (induction n arbitrary: "context" bs)
  case (Suc n)
  then obtain b rest where bs: "bs = b # rest" "n \<le> length rest" by (cases bs) auto
  have "input_loop c rest n = input_loop c (take n rest) n" for c by (rule Suc.IH [OF bs(2)])
  then have "(\<lambda>c. input_loop c rest n) = (\<lambda>c. input_loop c (take n rest) n)" by blast
  then show ?case unfolding bs(1) input_loop.simps(2) take_Suc_Cons list.case Let_def by metis
qed simp

lemma SHA1Input_take:
  "unat n \<le> length bs \<Longrightarrow> SHA1Input context bs n = SHA1Input context (take (unat n) bs) n"
  unfolding SHA1Input_def by (subst input_loop_take) simp_all

text \<open>The message in portions, one call of \<open>SHA1Input\<close> each.\<close>

fun SHA1_portions :: "SHA1Context \<Rightarrow> u8 list list \<Rightarrow> SHA1Context option" where
  "SHA1_portions context [] = Some context"
| "SHA1_portions context (p # ps) =
     do { context \<leftarrow> SHA1Input context p (of_nat (length p)); SHA1_portions context ps }"

lemma SHA1_portions_locale: "SHA1_portions context ps = sha.portions context ps"
  by (induction ps arbitrary: "context") (simp_all cong: Option.bind_cong)

definition blank :: SHA1Context where
  "blank = \<lparr>Message_Digest = replicate 5 0, Length_Low = 0, Length_High = 0,
     Message_Block = replicate 64 0, Message_Block_Index = 0, Computed = False, Corrupted = False\<rparr>"

section \<open>The message "abc"\<close>

text \<open>
  The first example of the standard, computed step by step: it pins down the reference
  definitions as much as the code.
\<close>

definition abc_W :: "u32 list" where
  "abc_W = [
    0x61626380, 0, 0, 0, 0, 0, 0, 0,
    0, 0, 0, 0, 0, 0, 0, 0x00000018,
    0xC2C4C700, 0, 0x00000030, 0x85898E01, 0, 0x00000060, 0x0B131C03, 0x00000030,
    0x85898EC1, 0x16263806, 0, 0x00000180, 0x2C4C700C, 0x000000F0, 0x93AFB507, 0x5898E048,
    0x8E9A9202, 0x00000600, 0xB131C0F0, 0x16263BC6, 0x4EBED41E, 0x626380A1, 0x16263806, 0x000018C0,
    0xD2E138C4, 0x00000F00, 0x3AFB5079, 0x898E04E5, 0xE2BA3C2B, 0x000060C0, 0x053A37CD, 0x74458547,
    0xDA9415ED, 0x26380A16, 0x626383A1, 0x4EBF54DE, 0x3835B44B, 0x0000F600, 0x1E84C7A3, 0x98E04D98,
    0x651D16A0, 0x62658CA1, 0x458544D6, 0x44584CB7, 0x7BA06619, 0x6380AEA2, 0x0AE55269, 0x627B49A1,
    0x7CD45C9D, 0x000F0000, 0xFB50753A, 0xEC6765E8, 0xBA3C2BE2, 0x0060C000, 0x3A37CD05, 0x458546F4,
    0xB8599DD6, 0x380A1A26, 0x01E02203, 0xE7CC3456, 0xE6E60B69, 0x00F60A00, 0x5795EF4F, 0x822E0879]"

lemma W_loop_numeral:
  "W_loop (numeral n) W = W_loop (pred_numeral n) (W @ [SHA1CircularShift 1
     (W ! (length W - 3) XOR W ! (length W - 8) XOR W ! (length W - 14) XOR W ! (length W - 16))])"
  by (simp add: numeral_eq_Suc Let_def)

lemma W_loop_1:
  "W_loop (Suc 0) W = W @ [SHA1CircularShift 1
     (W ! (length W - 3) XOR W ! (length W - 8) XOR W ! (length W - 14) XOR W ! (length W - 16))]"
  by (simp add: Let_def)

lemma round_loop_numeral:
  "round_loop f k W t (numeral n) (A, B, C, D, E) = round_loop f k W (t + 1) (pred_numeral n)
     ((SHA1CircularShift 5 A + f B C D + E + W ! t + k) AND 0xFFFFFFFF, A, SHA1CircularShift 30 B, C, D)"
  by (simp add: numeral_eq_Suc Let_def del: and_0xFFFFFFFF)

lemma abc_schedule: "W_loop 64 (take 16 abc_W) = abc_W"
  by (simp add: abc_W_def W_loop_numeral W_loop_1 SHA1CircularShift_def
      del: and_0xFFFFFFFF W_loop.simps(2))

lemma abc_rounds_1:
  "round_loop (\<lambda>B C D. (B AND C) OR (NOT B AND D)) 0x5A827999 abc_W 0 20
     (0x67452301, 0xEFCDAB89, 0x98BADCFE, 0x10325476, 0xC3D2E1F0) =
     (0xFD9E1D7D, 0xDC64901D, 0x20AA99CA, 0xD3A49608, 0xC82F758B)"
  by (simp add: abc_W_def round_loop_numeral SHA1CircularShift_def del: and_0xFFFFFFFF)

lemma abc_rounds_2:
  "round_loop (\<lambda>B C D. B XOR C XOR D) 0x6ED9EBA1 abc_W 20 20
     (0xFD9E1D7D, 0xDC64901D, 0x20AA99CA, 0xD3A49608, 0xC82F758B) =
     (0x32DE1CBA, 0x4C986405, 0xF718E5CF, 0x03D447F6, 0xF72EEC32)"
  by (simp add: abc_W_def round_loop_numeral SHA1CircularShift_def del: and_0xFFFFFFFF)

lemma abc_rounds_3:
  "round_loop (\<lambda>B C D. (B AND C) OR (B AND D) OR (C AND D)) 0x8F1BBCDC abc_W 40 20
     (0x32DE1CBA, 0x4C986405, 0xF718E5CF, 0x03D447F6, 0xF72EEC32) =
     (0x3F52DE5A, 0x09D785FD, 0x3498BFD4, 0xF211824F, 0xD79915AB)"
  by (simp add: abc_W_def round_loop_numeral SHA1CircularShift_def del: and_0xFFFFFFFF)

lemma abc_rounds_4:
  "round_loop (\<lambda>B C D. B XOR C XOR D) 0xCA62C1D6 abc_W 60 20
     (0x3F52DE5A, 0x09D785FD, 0x3498BFD4, 0xF211824F, 0xD79915AB) =
     (0x42541B35, 0x5738D5E1, 0x21834873, 0x681E6DF6, 0xD8FDF6AD)"
  by (simp add: abc_W_def round_loop_numeral SHA1CircularShift_def del: and_0xFFFFFFFF)

definition abc_block :: "u8 list" where
  "abc_block = [0x61, 0x62, 0x63, 0x80] @ replicate 59 0 @ [0x18]"

lemma abc_block_words: "map (block_word abc_block) [0..<16] = take 16 abc_W"
proof -
  have "[0..<16] = [0, 1, 2, 3, 4, 5, 6, 7, 8, 9, 10, 11, 12, 13, 14, 15 :: nat]" by code_simp
  then show ?thesis by (simp add: abc_block_def abc_W_def block_word_def nth_append nth_Cons')
qed

lemma abc_digest:
  "Message_Digest (SHA1ProcessMessageBlock (blank\<lparr>Message_Block := abc_block, Message_Digest := H0\<rparr>)) =
     [0xA9993E36, 0x4706816A, 0xBA3E2571, 0x7850C26C, 0x9CD0D89D]"
proof -
  have H: "H0 ! 0 = 0x67452301" "H0 ! 1 = 0xEFCDAB89" "H0 ! 2 = 0x98BADCFE" "H0 ! 3 = 0x10325476"
    "H0 ! 4 = 0xC3D2E1F0" by (simp_all add: H0_def)
  have c: "Message_Block (blank\<lparr>Message_Block := abc_block, Message_Digest := H0\<rparr>) = abc_block"
    "Message_Digest (blank\<lparr>Message_Block := abc_block, Message_Digest := H0\<rparr>) = H0" by simp_all
  show ?thesis
    unfolding SHA1ProcessMessageBlock_def Let_def c abc_block_words abc_schedule H
      abc_rounds_1 abc_rounds_2 abc_rounds_3 abc_rounds_4 prod.case
    by (simp del: and_0xFFFFFFFF)
qed

lemma fips_sha1_abc:
  "fips_sha1 [0x61, 0x62, 0x63] = [0xA9993E36, 0x4706816A, 0xBA3E2571, 0x7850C26C, 0x9CD0D89D]"
proof -
  have pad: "fips_pad [0x61, 0x62, 0x63] = abc_block"
    by (simp add: fips_pad_def be_length_def abc_block_def) (simp add: numeral_eq_Suc)
  have "length abc_block = 64" by (simp add: abc_block_def)
  moreover have "fips_compress H0 abc_block = [0xA9993E36, 0x4706816A, 0xBA3E2571, 0x7850C26C, 0x9CD0D89D]"
    using abc_digest by (simp add: SHA1ProcessMessageBlock_fips)
  ultimately show ?thesis unfolding fips_sha1_def pad by (simp add: hash_blocks_one)
qed

end
