(* ===== verification/Text_Output.thy ===== *)
theory Text_Output
  imports State
begin

text \<open>
  What \<^verbatim>\<open>printf\<close> and \<^verbatim>\<open>inet_ntoa\<close> make of numbers and addresses, and the interface list as
  \<^verbatim>\<open>src/sr_if.c\<close> prints it through the \<^verbatim>\<open>Debug\<close> macros of \<^verbatim>\<open>src/sr_router.h\<close>, which the Makefile turns
  on. The name of an interface is an array of 32 characters that \<^verbatim>\<open>strncpy\<close> leaves without a
  terminator when the name is as long as the array; printing it with \<^verbatim>\<open>%s\<close> then runs past its end.
\<close>

section \<open>Numbers and addresses\<close>

definition digit_char :: "nat \<Rightarrow> char" where
  "digit_char d = char_of (48 + d)"

text \<open>\<^verbatim>\<open>%d\<close> on a number that is not negative, \<^verbatim>\<open>inet_ntoa\<close>, and the line for one route.\<close>

fun show_nat :: "nat \<Rightarrow> string" where
  "show_nat n = (if n < 10 then [digit_char n] else show_nat (n div 10) @ [digit_char (n mod 10)])"

declare show_nat.simps [simp del]

definition inet_ntoa :: "u32 \<Rightarrow> string" where
  "inet_ntoa a =
     (let b = map (\<lambda>b. show_nat (unat b)) (bytes32 a)
      in b ! 0 @ ''.'' @ b ! 1 @ ''.'' @ b ! 2 @ ''.'' @ b ! 3)"

definition tab :: char where "tab = CHR 0x09"
definition newline :: char where "newline = CHR 0x0A"

text \<open>The digits of \<^verbatim>\<open>%X\<close> (counted from \<open>A\<close>) and \<^verbatim>\<open>%x\<close> (counted from \<open>a\<close>), and padding with zeros.\<close>

definition hex_digit :: "nat \<Rightarrow> nat \<Rightarrow> char" where
  "hex_digit a d = (if d < 10 then digit_char d else char_of (a + (d - 10)))"

fun show_hex :: "nat \<Rightarrow> nat \<Rightarrow> string" where
  "show_hex a n = (if n < 16 then [hex_digit a n] else show_hex a (n div 16) @ [hex_digit a (n mod 16)])"

declare show_hex.simps [simp del]

definition padded :: "nat \<Rightarrow> string \<Rightarrow> string" where
  "padded w s = replicate (w - length s) (CHR ''0'') @ s"

definition upper :: nat where "upper = 65"
definition lower :: nat where "lower = 97"

abbreviation show_word :: "'a::len word \<Rightarrow> string" where
  "show_word x \<equiv> show_nat (unat x)"

fun separated :: "string \<Rightarrow> string list \<Rightarrow> string" where
  "separated sep [] = []"
| "separated sep [s] = s"
| "separated sep (s # ss) = s @ sep @ separated sep ss"

section \<open>The interface list\<close>

definition DebugMAC :: "mac \<Rightarrow> string" where
  "DebugMAC addr = separated '':'' (map (\<lambda>b. padded 2 (show_hex lower (unat b))) (mac_bytes addr))"

definition sr_print_if :: "sr_if \<Rightarrow> string option" where
  "sr_print_if iface =
     (if length (if_name iface) \<ge> sr_IFACE_NAMELEN then None
      else Some (if_name iface @ [tab] @ ''HWaddr'' @ DebugMAC (if_addr iface) @ [newline] @
        [tab] @ ''inet addr '' @ inet_ntoa (if_ip iface) @ [newline]))"

fun print_if_walk :: "sr_if list \<Rightarrow> string option" where
  "print_if_walk [] = Some []"
| "print_if_walk (if_walker # rest) =
     do { s \<leftarrow> sr_print_if if_walker; t \<leftarrow> print_if_walk rest; Some (s @ t) }"

definition sr_print_if_list :: "sr_instance \<Rightarrow> string option" where
  "sr_print_if_list sr =
     (if if_list sr = [] then Some ('' Interface list empty '' @ [newline])
      else print_if_walk (if_list sr))"

text \<open>The names that can be printed: those the arrays hold with their terminators.\<close>

definition printable :: "sr_if list \<Rightarrow> bool" where
  "printable l \<longleftrightarrow> (\<forall>i \<in> set l. length (if_name i) < sr_IFACE_NAMELEN)"

lemma printable_simps [simp]:
  "printable []" "printable (i # l) \<longleftrightarrow> length (if_name i) < sr_IFACE_NAMELEN \<and> printable l"
  "printable (l @ m) \<longleftrightarrow> printable l \<and> printable m"
  by (auto simp: printable_def)

lemma print_if_walk_Some: "(\<exists>s. print_if_walk l = Some s) \<longleftrightarrow> printable l"
  by (induction l) (auto simp: sr_print_if_def not_le bind_eq_Some_conv)

lemma print_if_list_Some: "(\<exists>s. sr_print_if_list sr = Some s) \<longleftrightarrow> printable (if_list sr)"
  using print_if_walk_Some [of "if_list sr"] by (cases "if_list sr") (auto simp: sr_print_if_list_def)

lemma print_if_list_None: "sr_print_if_list sr = None \<longleftrightarrow> \<not> printable (if_list sr)"
  using print_if_list_Some [of sr] by (cases "sr_print_if_list sr") simp_all

end
