(* ===== verification/Vns_Comm.thy ===== *)
theory Vns_Comm
  imports System Sha1 Text_Output
begin

text \<open>
  The receiving half of \<^verbatim>\<open>src/sr_vns_comm.c\<close>: reading commands from the server's byte stream,
  authentication, hardware information, the downloaded routing table, packets, and the
  opening of the session.
\<close>

section \<open>The outside world\<close>

text \<open>
  What one \<^verbatim>\<open>recv\<close> or \<^verbatim>\<open>read\<close> on the socket finds: bytes that have arrived (none, when the peer
  has closed the connection), a signal, or an error. A list of events is what has happened so
  far; a call for which the list is too short is still waiting.
\<close>

datatype recv_event = Bytes "u8 list" | Interrupted | Failed

datatype 'a wait = Waiting | Returned 'a

text \<open>
  \<open>files\<close> are the files of the working directory, \<open>os\<close> what the rest of the system answers.
  \<open>key_junk\<close> and \<open>sha_junk\<close> are the uninitialised locals of \<^verbatim>\<open>sr_handle_auth_request\<close>,
  \<open>if_junk n\<close> the heap contents of the node allocated for entry \<open>n\<close>; \<open>host_found\<close>, \<open>socket_fd\<close> and
  \<open>connect_ret\<close> are the results of \<^verbatim>\<open>gethostbyname\<close>, \<^verbatim>\<open>socket\<close> and \<^verbatim>\<open>connect\<close>,
  \<open>pw_name\<close> the login name \<^verbatim>\<open>getpwuid\<close> finds.
\<close>

record session =
  router :: sr_instance
  sock_in :: "recv_event list"
  sock_closed :: bool
  files :: "cstring \<Rightarrow> u8 list option"

record os =
  base :: env
  send_ret :: "nat \<Rightarrow> int"
  can_write :: "cstring \<Rightarrow> bool"
  key_junk :: "u8 list"
  sha_junk :: SHA1Context
  if_junk :: "nat \<Rightarrow> sr_if"
  host_found :: bool
  socket_fd :: int
  connect_ret :: int
  pw_name :: "cstring option"

section \<open>Messages in memory\<close>

definition VNSOPEN :: u32 where "VNSOPEN = 1"
definition VNSCLOSE :: u32 where "VNSCLOSE = 2"
definition VNSBANNER :: u32 where "VNSBANNER = 8"
definition VNSHWINFO :: u32 where "VNSHWINFO = 16"
definition VNS_RTABLE :: u32 where "VNS_RTABLE = 32"
definition VNS_OPEN_TEMPLATE :: u32 where "VNS_OPEN_TEMPLATE = 64"
definition VNS_AUTH_REQUEST :: u32 where "VNS_AUTH_REQUEST = 128"
definition VNS_AUTH_REPLY :: u32 where "VNS_AUTH_REPLY = 256"
definition VNS_AUTH_STATUS :: u32 where "VNS_AUTH_STATUS = 512"
definition IDSIZE :: nat where "IDSIZE = 32"

definition HWINTERFACE :: u32 where "HWINTERFACE = 1"
definition HWSPEED :: u32 where "HWSPEED = 2"
definition HWSUBNET :: u32 where "HWSUBNET = 4"
definition HWINUSE :: u32 where "HWINUSE = 8"
definition HWFIXEDIP :: u32 where "HWFIXEDIP = 16"
definition HWETHER :: u32 where "HWETHER = 32"
definition HWETHIP :: u32 where "HWETHIP = 64"
definition HWMASK :: u32 where "HWMASK = 128"

lemmas vns_types = VNSOPEN_def VNSCLOSE_def VNSPACKET_def VNSBANNER_def VNSHWINFO_def VNS_RTABLE_def
  VNS_OPEN_TEMPLATE_def VNS_AUTH_REQUEST_def VNS_AUTH_REPLY_def VNS_AUTH_STATUS_def

definition byte_char :: "u8 \<Rightarrow> char" where
  "byte_char b = char_of (unat b)"

text \<open>A \<^verbatim>\<open>uint32_t\<close> in a buffer.\<close>

definition ld_u32 :: "u8 list \<Rightarrow> nat \<Rightarrow> u32 option" where
  "ld_u32 buf off = map_option (\<lambda>b. le32 (b ! 0) (b ! 1) (b ! 2) (b ! 3)) (load buf off 4)"

text \<open>
  A string in a buffer, and one of which at most \<open>n\<close> characters are looked at. A string that
  runs past the end of the buffer is a fault.
\<close>

definition ld_cstr :: "u8 list \<Rightarrow> nat \<Rightarrow> cstring option" where
  "ld_cstr buf off =
     (let s = takeWhile (\<lambda>b. b \<noteq> 0) (drop off buf)
      in if off + length s < length buf then Some (map byte_char s) else None)"

definition ld_strn :: "nat \<Rightarrow> u8 list \<Rightarrow> nat \<Rightarrow> cstring option" where
  "ld_strn n buf off =
     (let s = takeWhile (\<lambda>b. b \<noteq> 0) (take n (drop off buf))
      in if length s = n \<or> off + length s < length buf then Some (map byte_char s) else None)"

section \<open>Reading from the socket\<close>

text \<open>The outcome of the loops that read until \<open>want\<close> more bytes have come.\<close>

datatype read_result = Got "u8 list" "recv_event list" | Broken "recv_event list" | Blocked

fun put_before :: "u8 list \<Rightarrow> read_result \<Rightarrow> read_result" where
  "put_before bs (Got cs es) = Got (bs @ cs) es"
| "put_before bs r = r"

fun recv_loop :: "nat \<Rightarrow> recv_event list \<Rightarrow> read_result" where
  "recv_loop want evs =
     (if want = 0 then Got [] evs
      else case evs of
          [] \<Rightarrow> Blocked
        | Interrupted # es \<Rightarrow> recv_loop want es
        | Failed # es \<Rightarrow> Broken es
        | Bytes bs # es \<Rightarrow>
            if length bs \<le> want then put_before bs (recv_loop (want - length bs) es)
            else Got (take want bs) (Bytes (drop want bs) # es))"

declare recv_loop.simps [simp del]

section \<open>The handlers\<close>

definition sr_arp_req_not_for_us :: "sr_instance \<Rightarrow> u8 list \<Rightarrow> nat \<Rightarrow> cstring \<Rightarrow> bool option" where
  "sr_arp_req_not_for_us sr packet len interface =
     (let iface = sr_get_interface sr interface in
      if len < 14 + 28 then Some False
      else do {
        iface \<leftarrow> iface;
        e_hdr \<leftarrow> ld_eth packet 0;
        a_hdr \<leftarrow> ld_arp packet 14;
        if ether_type e_hdr = htons ethertype_arp \<and> ar_op a_hdr = htons arp_op_request \<and>
           ar_tip a_hdr \<noteq> if_ip iface
        then Some True else Some False })"

definition sizeof_c_hw_entry :: nat where "sizeof_c_hw_entry = 36"

definition hw_entry :: "env \<Rightarrow> sr_if \<Rightarrow> u8 list \<Rightarrow> nat \<Rightarrow> sr_instance \<Rightarrow> sr_instance option" where
  "hw_entry e junk hwinfo off sr =
     do { key \<leftarrow> ld_u32 hwinfo off;
          if ntohl key = HWINTERFACE
          then do { name \<leftarrow> ld_strn sr_IFACE_NAMELEN hwinfo (off + 4); sr_add_interface e junk sr name }
          else if ntohl key = HWETHIP
          then do { ip \<leftarrow> ld_u32 hwinfo (off + 4); sr_set_ether_ip sr ip }
          else if ntohl key = HWETHER
          then do { m \<leftarrow> load hwinfo (off + 4) 6; sr_set_ether_addr sr (bytes_mac m) }
          else Some sr }"

text \<open>\<open>n\<close> entries from entry \<open>i\<close> on.\<close>

fun hwinfo_loop :: "os \<Rightarrow> u8 list \<Rightarrow> nat \<Rightarrow> nat \<Rightarrow> sr_instance \<Rightarrow> sr_instance option" where
  "hwinfo_loop v hwinfo i 0 sr = Some sr"
| "hwinfo_loop v hwinfo i (Suc n) sr =
     do { sr \<leftarrow> hw_entry (base v) (if_junk v i) hwinfo (8 + sizeof_c_hw_entry * i) sr;
          hwinfo_loop v hwinfo (i + 1) n sr }"

text \<open>The text it prints is theory \<open>Printing\<close>'s matter; here it matters that printing can fault.\<close>

definition sr_handle_hwinfo :: "os \<Rightarrow> sr_instance \<Rightarrow> u8 list \<Rightarrow> (int \<times> sr_instance) option" where
  "sr_handle_hwinfo v sr hwinfo =
     do { mLen \<leftarrow> ld_u32 hwinfo 0;
          let num_entries = sint (of_nat (unat (ucast (ntohl mLen) - 8 :: 64 word) div sizeof_c_hw_entry) :: u32);
          sr \<leftarrow> hwinfo_loop v hwinfo 0 (nat num_entries) sr;
          _ \<leftarrow> sr_print_if_list sr;
          Some (num_entries, sr) }"

definition sr_handle_rtable :: "os \<Rightarrow> session \<Rightarrow> u8 list \<Rightarrow> (int \<times> session) option" where
  "sr_handle_rtable v ss rtable =
     do { vid \<leftarrow> ld_cstr rtable 8;
          let fn = ''rtable.'' @ vid;
          if 7 + IDSIZE + 1 < length fn + 1 then None
          else if \<not> can_write v fn then Some (0, ss)
          else do {
            mLen \<leftarrow> ld_u32 rtable 0;
            contents \<leftarrow> load rtable (8 + IDSIZE) (unat (ntohl mLen - 8 - of_nat IDSIZE));
            Some (1, ss\<lparr>files := (files ss)(fn \<mapsto> contents)\<rparr>) }}"

definition AUTH_KEY_LEN :: nat where "AUTH_KEY_LEN = 64"
definition SHA1_LEN :: nat where "SHA1_LEN = 20"

text \<open>\<^verbatim>\<open>fgets\<close>: the characters up to and with the first newline, at most \<open>n - 1\<close> of them.\<close>

fun upto_newline :: "u8 list \<Rightarrow> u8 list" where
  "upto_newline [] = []"
| "upto_newline (b # bs) = (if b = 10 then [b] else b # upto_newline bs)"

definition fgets :: "nat \<Rightarrow> u8 list \<Rightarrow> u8 list" where
  "fgets n content = take (n - 1) (upto_newline content)"

definition auth_reply :: "cstring \<Rightarrow> u32 list \<Rightarrow> u8 list" where
  "auth_reply username digest =
     bytes32 (htonl (of_nat (12 + length username + SHA1_LEN))) @ bytes32 (htonl VNS_AUTH_REPLY) @
     bytes32 (htonl (of_nat (length username))) @ map char_byte username @
     concat (map (\<lambda>d. bytes32 (htonl d)) digest)"

definition sr_handle_auth_request :: "os \<Rightarrow> session \<Rightarrow> u8 list \<Rightarrow> (int \<times> session) option" where
  "sr_handle_auth_request v ss req =
     (case files ss ''auth_key'' of
        None \<Rightarrow> Some (0, ss)
      | Some content \<Rightarrow>
          (let line = fgets (AUTH_KEY_LEN + 1) content in
           if line = [] then Some (0, ss)
           else do {
             auth_key \<leftarrow> store (key_junk v) 0 (line @ [0]);
             mLen \<leftarrow> ld_u32 req 0;
             sha1 \<leftarrow> SHA1Input (SHA1Reset (sha_junk v)) (drop 8 req) (ntohl mLen - 8);
             sha1 \<leftarrow> SHA1Input sha1 auth_key (of_nat AUTH_KEY_LEN);
             (ok, sha1) \<leftarrow> SHA1Result sha1;
             if ok = 0 then Some (0, ss)
             else if 32 \<le> length (user (router ss)) then None
             else
               let len_username = length (user (router ss)); len = 12 + len_username + SHA1_LEN in
               if \<not> malloc_ok (base v) len then Some (0, ss)
               else
                 let buf = auth_reply (user (router ss)) (Message_Digest sha1);
                     n = send_ret v len;
                     ss = ss\<lparr>router := (router ss)
                       \<lparr>sock_out := sock_out (router ss) @ [take (nat n) buf]\<rparr>\<rparr>
                 in Some (if n \<noteq> int len then 0 else 1, ss) }))"

definition sr_handle_auth_status :: "u8 list \<Rightarrow> int option" where
  "sr_handle_auth_status status =
     do { ok \<leftarrow> load status 8 1;
          if ok \<noteq> [0] then Some (uint (hd ok))
          else do { msg \<leftarrow> ld_cstr status 9; Some 0 } }"

text \<open>The switch on the command; the result is the \<^verbatim>\<open>ret\<close> of the C code.\<close>

definition vns_command :: "os \<Rightarrow> session \<Rightarrow> u8 list \<Rightarrow> nat \<Rightarrow> u32 \<Rightarrow> (int \<times> session) option" where
  "vns_command v ss buf len command =
     (if command = VNSPACKET then do {
        let plen = unat (of_nat len - 38 + 14 :: u32);
        let packet = drop sizeof_c_packet_header buf;
        interface \<leftarrow> ld_strn sr_IFACE_NAMELEN buf 8;
        foreign \<leftarrow> sr_arp_req_not_for_us (router ss) packet plen interface;
        if foreign then Some (1, ss)
        else do {
          mLen \<leftarrow> ld_u32 buf 0;
          sr \<leftarrow> sr_log_packet (base v) (router ss) packet (sint (ntohl mLen - 24));
          sr \<leftarrow> sr_handlepacket (base v) sr packet plen interface;
          Some (1, ss\<lparr>router := sr\<rparr>) }}
      else if command = VNSCLOSE then do { reason \<leftarrow> ld_cstr buf 8; Some (0, ss) }
      else if command = VNSBANNER then do { banner \<leftarrow> ld_cstr buf 8; Some (1, ss) }
      else if command = VNSHWINFO then do {
        (num_entries, sr) \<leftarrow> sr_handle_hwinfo v (router ss) buf;
        let ss = ss\<lparr>router := sr\<rparr>;
        if sr_verify_routing_table sr \<noteq> 0 then Some (- 1, ss) else Some (1, ss) }
      else if command = VNS_RTABLE then do {
        (ok, ss) \<leftarrow> sr_handle_rtable v ss buf;
        Some (if ok = 0 then - 1 else 1, ss) }
      else if command = VNS_AUTH_REQUEST then do {
        (ok, ss) \<leftarrow> sr_handle_auth_request v ss buf;
        Some (if ok = 0 then - 1 else 1, ss) }
      else if command = VNS_AUTH_STATUS then do {
        ok \<leftarrow> sr_handle_auth_status buf;
        Some (if ok = 0 then - 1 else 1, ss) }
      else Some (1, ss))"

text \<open>
  \<^verbatim>\<open>sr_read_from_server_expect\<close>, first up to the switch. The length is written into the first
  four bytes of a buffer of just that length, so a length below 4 is a fault, and so is one
  below 8 when the command is read.
\<close>

datatype reading = Bail int session | Command session "u8 list" nat u32

definition read_command :: "os \<Rightarrow> session \<Rightarrow> u32 \<Rightarrow> reading wait option" where
  "read_command v ss expected_cmd =
     (case recv_loop 4 (sock_in ss) of
        Blocked \<Rightarrow> Some Waiting
      | Broken es \<Rightarrow> Some (Returned (Bail (- 1) (ss\<lparr>sock_in := es\<rparr>)))
      | Got h es \<Rightarrow>
          let len = sint (ntohl (le32 (h ! 0) (h ! 1) (h ! 2) (h ! 3))) in
          if len > 10000 \<or> len < 0
          then Some (Returned (Bail (- 1) (ss\<lparr>sock_in := es, sock_closed := True\<rparr>)))
          else if \<not> malloc_ok (base v) (nat len) then Some (Returned (Bail (- 1) (ss\<lparr>sock_in := es\<rparr>)))
          else if len < 4 then None
          else case recv_loop (nat (len - 4)) es of
              Blocked \<Rightarrow> Some Waiting
            | Broken es \<Rightarrow> Some (Returned (Bail (- 1) (ss\<lparr>sock_in := es, sock_closed := True\<rparr>)))
            | Got body es \<Rightarrow> do {
                let ss = ss\<lparr>sock_in := es\<rparr>;
                let buf = bytes32 (htonl (word_of_int len)) @ body;
                mType \<leftarrow> ld_u32 buf 4;
                let command = ntohl mType;
                buf \<leftarrow> store buf 4 (bytes32 command);
                if expected_cmd \<noteq> 0 \<and> command \<noteq> expected_cmd \<and> command \<noteq> VNSCLOSE
                then Some (Returned (Bail (- 1) ss))
                else Some (Returned (Command ss buf (nat len) command)) })"

definition sr_read_from_server_expect ::
  "os \<Rightarrow> session \<Rightarrow> u32 \<Rightarrow> (int \<times> session) wait option" where
  "sr_read_from_server_expect v ss expected_cmd =
     do { r \<leftarrow> read_command v ss expected_cmd;
          case r of
            Waiting \<Rightarrow> Some Waiting
          | Returned (Bail ret ss) \<Rightarrow> Some (Returned (ret, ss))
          | Returned (Command ss buf len command) \<Rightarrow>
              map_option Returned (vns_command v ss buf len command) }"

definition sr_read_from_server :: "os \<Rightarrow> session \<Rightarrow> (int \<times> session) wait option" where
  "sr_read_from_server v ss = sr_read_from_server_expect v ss 0"

section \<open>Opening the session\<close>

definition c_open :: "sr_instance \<Rightarrow> u8 list" where
  "c_open sr =
     bytes32 (htonl 108) @ bytes32 (htonl VNSOPEN) @ bytes16 (htons (topo_id sr)) @ bytes16 0 @
     strncpy_field IDSIZE (host sr) @ strncpy_field IDSIZE (user sr) @ replicate IDSIZE 0"

definition c_open_template :: "sr_instance \<Rightarrow> u8 list" where
  "c_open_template sr =
     bytes32 (htonl 70) @ bytes32 (htonl VNS_OPEN_TEMPLATE) @
     strncpy_field 30 (template sr) @ strncpy_field IDSIZE (host sr)"

text \<open>One of several reads in a row: go on only if it returned 1.\<close>

definition expect_then ::
  "os \<Rightarrow> u32 \<Rightarrow> (session \<Rightarrow> (int \<times> session) wait option) \<Rightarrow> session \<Rightarrow> (int \<times> session) wait option" where
  "expect_then v cmd k ss =
     do { r \<leftarrow> sr_read_from_server_expect v ss cmd;
          case r of
            Waiting \<Rightarrow> Some Waiting
          | Returned (ret, ss) \<Rightarrow> if ret \<noteq> 1 then Some (Returned (- 1, ss)) else k ss }"

definition sr_open_session :: "os \<Rightarrow> session \<Rightarrow> (int \<times> session) wait option" where
  "sr_open_session v ss =
     (let sr = router ss in
      if 30 \<le> length (template sr) then None
      else
        let buf = (if 0 < length (template sr) then c_open_template sr else c_open sr);
            n = send_ret v (length buf);
            ss = ss\<lparr>router := sr\<lparr>sock_out := sock_out sr @ [take (nat n) buf]\<rparr>\<rparr>
        in if n \<noteq> int (length buf) then Some (Returned (- 1, ss))
           else if 0 < length (template sr)
           then expect_then v VNS_RTABLE (\<lambda>ss. Some (Returned (0, ss))) ss
           else Some (Returned (0, ss)))"

definition sr_connect_to_server :: "os \<Rightarrow> session \<Rightarrow> (int \<times> session) wait option" where
  "sr_connect_to_server v ss =
     (if \<not> host_found v then Some (Returned (- 1, ss))
      else
        let ss = ss\<lparr>router := (router ss)\<lparr>sockfd := socket_fd v\<rparr>\<rparr> in
        if socket_fd v < 0 then Some (Returned (- 1, ss))
        else if connect_ret v < 0 then Some (Returned (- 1, ss\<lparr>sock_closed := True\<rparr>))
        else expect_then v VNS_AUTH_REQUEST (expect_then v VNS_AUTH_STATUS (sr_open_session v)) ss)"

section \<open>A message read from any stream that carries it\<close>

text \<open>The bytes of a list of events, however they are portioned.\<close>

definition stream_data :: "recv_event list \<Rightarrow> u8 list" where
  "stream_data es = concat (map (\<lambda>ev. case ev of Bytes bs \<Rightarrow> bs | _ \<Rightarrow> []) es)"

lemma stream_data_simps [simp]:
  "stream_data [] = []"
  "stream_data (Bytes bs # es) = bs @ stream_data es"
  "stream_data (Interrupted # es) = stream_data es"
  "stream_data (Failed # es) = stream_data es"
  by (simp_all add: stream_data_def)

lemma recv_loop_got:
  "\<lbrakk>Failed \<notin> set es; want \<le> length (stream_data es)\<rbrakk> \<Longrightarrow>
   \<exists>es'. recv_loop want es = Got (take want (stream_data es)) es' \<and> Failed \<notin> set es' \<and>
     stream_data es' = drop want (stream_data es)"
proof (induction want es rule: recv_loop.induct)
  case (1 want es)
  show ?case
  proof (cases "want = 0")
    case True
    with 1(3) show ?thesis by (simp add: recv_loop.simps)
  next
    case False
    with 1(4) obtain ev rest where es: "es = ev # rest" by (cases es) auto
    show ?thesis
    proof (cases ev)
      case (Bytes bs)
      show ?thesis
      proof (cases "length bs \<le> want")
        case True
        have "want - length bs \<le> length (stream_data rest)" using 1(4) by (simp add: es Bytes)
        then obtain es' where "recv_loop (want - length bs) rest =
            Got (take (want - length bs) (stream_data rest)) es'" "Failed \<notin> set es'"
            "stream_data es' = drop (want - length bs) (stream_data rest)"
          using 1(1) [OF False es Bytes True] 1(3) by (auto simp: es Bytes)
        then show ?thesis using False True by (subst recv_loop.simps) (simp add: es Bytes)
      next
        case False': False
        then show ?thesis using False 1(3) by (subst recv_loop.simps) (simp add: es Bytes)
      qed
    next
      case Interrupted
      with 1(2) [OF False es Interrupted] 1(3,4) False show ?thesis
        by (subst recv_loop.simps) (simp add: es)
    next
      case Failed
      with 1(3) show ?thesis by (simp add: es)
    qed
  qed
qed

lemma recv_loop_blocked:
  "\<lbrakk>Failed \<notin> set es; length (stream_data es) < want\<rbrakk> \<Longrightarrow> recv_loop want es = Blocked"
proof (induction want es rule: recv_loop.induct)
  case (1 want es)
  show ?case
  proof (cases es)
    case Nil
    with 1(4) show ?thesis by (simp add: recv_loop.simps)
  next
    case (Cons ev rest)
    with 1 show ?thesis by (subst recv_loop.simps) (cases ev, auto)
  qed
qed

text \<open>A message on the wire, and the same message in the buffer when the switch is reached.\<close>

definition vns_msg :: "u32 \<Rightarrow> u8 list \<Rightarrow> u8 list" where
  "vns_msg ty payload = bytes32 (htonl (of_nat (8 + length payload))) @ bytes32 (htonl ty) @ payload"

definition host_msg :: "u32 \<Rightarrow> u8 list \<Rightarrow> u8 list" where
  "host_msg ty payload = bytes32 (htonl (of_nat (8 + length payload))) @ bytes32 ty @ payload"

lemma length_msg [simp]: "length (vns_msg ty p) = 8 + length p" "length (host_msg ty p) = 8 + length p"
  by (simp_all add: vns_msg_def host_msg_def)

lemma le32_of_bytes32: "le32 (bytes32 x ! 0) (bytes32 x ! 1) (bytes32 x ! 2) (bytes32 x ! 3) = x"
  by (simp add: bytes32_def le32_bytes)

lemma ld_u32_at: "drop off buf = bytes32 x @ rest \<Longrightarrow> ld_u32 buf off = Some x"
proof -
  assume d: "drop off buf = bytes32 x @ rest"
  then have "length (drop off buf) = 4 + length rest" by simp
  then have "off + 4 \<le> length buf" by simp
  moreover have "take 4 (drop off buf) = bytes32 x" by (simp add: d)
  ultimately show "ld_u32 buf off = Some x" by (simp only: ld_u32_def load_def if_True option.map le32_of_bytes32)
qed

lemma read_command_message:
  assumes "Failed \<notin> set (sock_in ss)" and "stream_data (sock_in ss) = vns_msg ty p @ rest"
    and "length p \<le> 9992" and "malloc_ok (base v) (8 + length p)"
  obtains es where "Failed \<notin> set es" and "stream_data es = rest"
    and "read_command v ss x =
      Some (Returned (if x \<noteq> 0 \<and> ty \<noteq> x \<and> ty \<noteq> VNSCLOSE then Bail (- 1) (ss\<lparr>sock_in := es\<rparr>)
        else Command (ss\<lparr>sock_in := es\<rparr>) (host_msg ty p) (8 + length p) ty))"
proof -
  let ?len = "of_nat (8 + length p) :: u32"
  obtain es1 where r1: "recv_loop 4 (sock_in ss) = Got (bytes32 (htonl ?len)) es1" "Failed \<notin> set es1"
    "stream_data es1 = bytes32 (htonl ty) @ p @ rest"
    using recv_loop_got [OF assms(1), of 4] by (auto simp: assms(2) vns_msg_def)
  have len: "sint ?len = int (8 + length p)" using assms(3) by (intro sint_of_nat_len) simp
  have n: "nat (int (8 + length p) - 4) = 4 + length p" by simp
  obtain es where r2: "recv_loop (4 + length p) es1 = Got (bytes32 (htonl ty) @ p) es"
    "Failed \<notin> set es" "stream_data es = rest"
    using recv_loop_got [OF r1(2), of "4 + length p"] by (auto simp: r1(3))
  have l: "ld_u32 (bytes32 (htonl ?len) @ bytes32 (htonl ty) @ p) 4 = Some (htonl ty)"
    by (rule ld_u32_at) simp
  have st: "store (bytes32 (htonl ?len) @ bytes32 (htonl ty) @ p) 4 (bytes32 ty) = Some (host_msg ty p)"
    by (simp add: store_def overwrite_def host_msg_def)
  have w: "(word_of_int (int (8 + length p)) :: u32) = ?len" by simp
  have "read_command v ss x =
      Some (Returned (if x \<noteq> 0 \<and> ty \<noteq> x \<and> ty \<noteq> VNSCLOSE then Bail (- 1) (ss\<lparr>sock_in := es\<rparr>)
        else Command (ss\<lparr>sock_in := es\<rparr>) (host_msg ty p) (8 + length p) ty))"
    using assms(3,4)
    unfolding read_command_def r1(1) read_result.case le32_of_bytes32 order32.swap_swap
      len Let_def nat_int n r2(1) w
    by (auto simp: l st simp del: of_nat_add)
  then show ?thesis using that r2(2,3) by blast
qed

lemma read_message:
  assumes "Failed \<notin> set (sock_in ss)" and "stream_data (sock_in ss) = vns_msg ty p @ rest"
    and "length p \<le> 9992" and "malloc_ok (base v) (8 + length p)"
  obtains es where "Failed \<notin> set es" and "stream_data es = rest"
    and "sr_read_from_server_expect v ss x =
      (if x \<noteq> 0 \<and> ty \<noteq> x \<and> ty \<noteq> VNSCLOSE then Some (Returned (- 1, ss\<lparr>sock_in := es\<rparr>))
       else map_option Returned (vns_command v (ss\<lparr>sock_in := es\<rparr>) (host_msg ty p) (8 + length p) ty))"
proof -
  obtain es where es: "Failed \<notin> set es" "stream_data es = rest"
    "read_command v ss x =
      Some (Returned (if x \<noteq> 0 \<and> ty \<noteq> x \<and> ty \<noteq> VNSCLOSE then Bail (- 1) (ss\<lparr>sock_in := es\<rparr>)
        else Command (ss\<lparr>sock_in := es\<rparr>) (host_msg ty p) (8 + length p) ty))"
    by (rule read_command_message [OF assms])
  have "sr_read_from_server_expect v ss x =
      (if x \<noteq> 0 \<and> ty \<noteq> x \<and> ty \<noteq> VNSCLOSE then Some (Returned (- 1, ss\<lparr>sock_in := es\<rparr>))
       else map_option Returned (vns_command v (ss\<lparr>sock_in := es\<rparr>) (host_msg ty p) (8 + length p) ty))"
    unfolding sr_read_from_server_expect_def es(3) by simp
  with es(1,2) show ?thesis by (rule that)
qed

end
