(* ===== verification/Session.thy ===== *)
theory Session
  imports Vns_Comm
begin

text \<open>
  What the receiving half does with the messages of a session: packets reach the router as they
  were sent, hardware information becomes the interface list, an authentication request is
  answered with the salted hash, and the main loop is a run of the router.
\<close>

text \<open>Updates of a session in the order of its fields.\<close>

lemma session_update_order [simp]:
  "(ss :: session)\<lparr>router := r, sock_in := es\<rparr> = ss\<lparr>sock_in := es, router := r\<rparr>"
  "ss\<lparr>files := f, sock_in := es\<rparr> = ss\<lparr>sock_in := es, files := f\<rparr>"
  "ss\<lparr>files := f, router := r\<rparr> = ss\<lparr>router := r, files := f\<rparr>"
  by simp_all

section \<open>Strings in messages\<close>

lemma byte_char_char_byte [simp]: "byte_char (char_byte c) = c"
proof -
  have "unat (of_nat (of_char c) :: u8) = of_char c"
    by (simp add: unat_of_nat)
  then show ?thesis by (simp add: byte_char_def char_byte_def)
qed

lemma map_byte_char [simp]: "map (byte_char \<circ> char_byte) s = s"
  by (simp add: map_idI)

lemma byte_char_0: "byte_char 0 = CHR 0x00"
  by code_simp

lemma char_byte_eq_0 [simp]: "char_byte c = 0 \<longleftrightarrow> c = CHR 0x00"
proof
  assume "char_byte c = 0"
  then show "c = CHR 0x00" using byte_char_char_byte [of c] byte_char_0 by (simp del: byte_char_char_byte)
qed (simp add: char_byte_def)

lemma takeWhile_c_str:
  "c_str s \<Longrightarrow> takeWhile (\<lambda>b. b \<noteq> 0) (map char_byte s @ 0 # rest) = map char_byte s"
  by (auto simp: c_str_def takeWhile_append2 takeWhile_tail)

lemma ld_cstr_at:
  assumes "drop off buf = map char_byte s @ 0 # rest" and "c_str s"
  shows "ld_cstr buf off = Some s"
proof -
  have "length (drop off buf) = length s + Suc (length rest)" by (simp add: assms(1))
  then have "off + length s < length buf" by simp
  then show ?thesis by (simp add: ld_cstr_def assms takeWhile_c_str)
qed

lemma ld_strn_at:
  assumes "drop off buf = map char_byte s @ 0 # rest" and "c_str s" and "length s < n"
  shows "ld_strn n buf off = Some s"
proof -
  have "length (drop off buf) = length s + Suc (length rest)" by (simp add: assms(1))
  then have "off + length s < length buf" by simp
  moreover have "take n (drop off buf) = map char_byte s @ 0 # take (n - Suc (length s)) rest"
    using assms(3) by (simp add: assms(1)) (metis Suc_diff_Suc take_Suc_Cons)
  ultimately show ?thesis by (simp add: ld_strn_def assms(2) takeWhile_c_str)
qed

lemma ld_strn_full:
  assumes "take n (drop off buf) = strncpy_field n s" and "c_str s" and "0 < n"
  shows "ld_strn n buf off = Some (take n s)"
proof (cases "length s < n")
  case True
  then obtain k where k: "n - length s = Suc k" by (metis Suc_diff_Suc)
  have "length (take n (drop off buf)) = n" by (simp add: assms(1))
  then have "off + length s < length buf" using True by simp
  moreover have "strncpy_field n s = map char_byte s @ 0 # replicate k 0"
    using True by (simp add: strncpy_field_def k)
  ultimately show ?thesis using True by (simp add: ld_strn_def assms(1,2) takeWhile_c_str)
next
  case False
  have "\<forall>b \<in> set (map char_byte (take n s)). b \<noteq> 0"
    using assms(2) by (auto simp: c_str_def dest: in_set_takeD)
  then have t: "takeWhile (\<lambda>b. b \<noteq> 0) (map char_byte (take n s)) = map char_byte (take n s)"
    by (simp only: takeWhile_eq_all_conv)
  show ?thesis using False by (simp add: ld_strn_def assms(1) strncpy_field_def t)
qed

section \<open>Packets\<close>

text \<open>What the session hands to the router for one frame, and what it filters.\<close>

definition foreign_arp :: "sr_if \<Rightarrow> u8 list \<Rightarrow> bool" where
  "foreign_arp i fr \<longleftrightarrow> 42 \<le> length fr \<and>
     (\<exists>eh ah. ld_eth fr 0 = Some eh \<and> ld_arp fr 14 = Some ah \<and> ntohs (ether_type eh) = ethertype_arp \<and>
        ntohs (ar_op ah) = arp_op_request \<and> ar_tip ah \<noteq> if_ip i)"

lemma arp_req_not_for_us:
  "sr_get_interface sr name = Some i \<Longrightarrow>
   sr_arp_req_not_for_us sr fr (length fr) name = Some (foreign_arp i fr)"
  by (auto simp: sr_arp_req_not_for_us_def foreign_arp_def eth.ld_in_bounds arp.ld_in_bounds
      order16.swap_eq_iff)

definition deliver :: "env \<Rightarrow> sr_instance \<Rightarrow> u8 list \<Rightarrow> cstring \<Rightarrow> sr_instance option" where
  "deliver e sr fr name =
     (case sr_get_interface sr name of
        None \<Rightarrow> None
      | Some i \<Rightarrow>
          if foreign_arp i fr then Some sr
          else sr_handlepacket e (sr\<lparr>logfile := log_frame e fr (logfile sr)\<rparr>) fr (length fr) name)"

lemma packet_fields:
  assumes "c_str name" and "length name < 16" and "length fr \<le> 9976"
  shows "ld_strn sr_IFACE_NAMELEN (host_msg VNSPACKET (strncpy_field 16 name @ fr)) 8 = Some name"
    and "unat (of_nat (24 + length fr) - 38 + 14 :: u32) = length fr"
    and "drop sizeof_c_packet_header (host_msg VNSPACKET (strncpy_field 16 name @ fr)) = fr"
    and "ld_u32 (host_msg VNSPACKET (strncpy_field 16 name @ fr)) 0 = Some (htonl (of_nat (24 + length fr)))"
    and "sint (ntohl (htonl (of_nat (24 + length fr))) - 24 :: u32) = int (length fr)"
proof -
  obtain k where "16 - length name = Suc k" using assms(2) by (metis Suc_diff_Suc)
  then show "ld_strn sr_IFACE_NAMELEN (host_msg VNSPACKET (strncpy_field 16 name @ fr)) 8 = Some name"
    using assms(1,2)
    by (intro ld_strn_at [where rest = "replicate k 0 @ fr"])
      (simp_all add: host_msg_def strncpy_field_def sr_IFACE_NAMELEN_def)
  show "unat (of_nat (24 + length fr) - 38 + 14 :: u32) = length fr"
    using assms(3) by (simp add: unat_of_nat)
  show "drop sizeof_c_packet_header (host_msg VNSPACKET (strncpy_field 16 name @ fr)) = fr"
    by (simp add: sizeof_c_packet_header_def host_msg_def)
  show "ld_u32 (host_msg VNSPACKET (strncpy_field 16 name @ fr)) 0 = Some (htonl (of_nat (24 + length fr)))"
    by (rule ld_u32_at) (simp add: host_msg_def)
  show "sint (ntohl (htonl (of_nat (24 + length fr))) - 24 :: u32) = int (length fr)"
    using assms(3) sint_of_nat_len [of "length fr"] by simp
qed

lemma vns_command_packet:
  assumes "c_str name" and "length name < 16" and "length fr \<le> 9976"
    and "sr_get_interface (router ss) name = Some i"
  shows "vns_command v ss (host_msg VNSPACKET (strncpy_field 16 name @ fr)) (24 + length fr) VNSPACKET =
    map_option (\<lambda>sr. (1, ss\<lparr>router := sr\<rparr>)) (deliver (base v) (router ss) fr name)"
  using packet_fields [OF assms(1-3)] arp_req_not_for_us [OF assms(4), of fr] assms(4)
  unfolding vns_command_def deliver_def Let_def
  by (auto simp: sr_log_packet_eq map_option_case split: option.split)

text \<open>A frame another router has sent with \<open>sr_send_packet\<close> is such a message.\<close>

lemma vns_packet_msg: "vns_packet name fr = vns_msg VNSPACKET (strncpy_field 16 name @ fr)"
  by (simp add: vns_packet_def vns_msg_def sizeof_c_packet_header_def add.commute)

lemma running_logfile [simp]: "running (sr\<lparr>logfile := lf\<rparr>) = running sr"
  by (simp add: running_def router_inv_def names_ok_def)

lemma same_config_logfile [simp]: "same_config (sr\<lparr>logfile := lf\<rparr>) sr' = same_config sr sr'"
  by (simp add: same_config_def)

lemma deliver_running:
  assumes "env_ok e" and "running sr" and "length fr \<le> 9976" and "sr_get_interface sr name = Some i"
  shows "\<exists>sr'. deliver e sr fr name = Some sr' \<and> same_config sr sr' \<and> running sr'"
proof (cases "foreign_arp i fr")
  case True
  then show ?thesis using assms by (simp add: deliver_def)
next
  case False
  have "length fr < 2 ^ 31" using assms(3) by simp
  then show ?thesis
    using handlepacket_running [OF assms(1), of "sr\<lparr>logfile := log_frame e fr (logfile sr)\<rparr>" fr name]
      assms(2,4) False
    by (auto simp: deliver_def)
qed

section \<open>Lengths that are not those of a message\<close>

text \<open>
  Once the peer has closed the connection, \<^verbatim>\<open>recv\<close> returns 0 for ever; the loops do not look at
  that, so the call never returns.
\<close>

lemma closed_connection_never_returns:
  assumes "Failed \<notin> set es" and "length (stream_data es) < 4"
  shows "sr_read_from_server v (ss\<lparr>sock_in := es @ replicate k (Bytes [])\<rparr>) = Some Waiting"
proof -
  have "stream_data (es @ replicate k (Bytes [])) = stream_data es"
    by (induction k) (simp_all add: stream_data_def)
  moreover have "Failed \<notin> set (es @ replicate k (Bytes []))" using assms(1) by auto
  ultimately have "recv_loop 4 (es @ replicate k (Bytes [])) = Blocked"
    using assms(2) by (intro recv_loop_blocked) simp_all
  then show ?thesis by (simp add: sr_read_from_server_def sr_read_from_server_expect_def read_command_def)
qed

lemma read_header:
  assumes "Failed \<notin> set (sock_in ss)" and "stream_data (sock_in ss) = bytes32 (htonl n) @ rest"
  obtains es where "recv_loop 4 (sock_in ss) = Got (bytes32 (htonl n)) es" and "Failed \<notin> set es"
    and "stream_data es = rest"
  using recv_loop_got [OF assms(1), of 4] assms(2) by auto

lemma length_too_big:
  assumes "Failed \<notin> set (sock_in ss)" and "stream_data (sock_in ss) = bytes32 (htonl n) @ rest"
    and "sint n > 10000 \<or> sint n < 0"
  shows "\<exists>es. sr_read_from_server v ss = Some (Returned (- 1, ss\<lparr>sock_in := es, sock_closed := True\<rparr>)) \<and>
    stream_data es = rest"
proof -
  obtain es where es: "recv_loop 4 (sock_in ss) = Got (bytes32 (htonl n)) es" "stream_data es = rest"
    using read_header [OF assms(1,2)] by blast
  show ?thesis
    unfolding sr_read_from_server_def sr_read_from_server_expect_def read_command_def es(1) read_result.case le32_of_bytes32
      order32.swap_swap Let_def if_P [OF assms(3)]
    using es(2) by (intro exI [of _ es]) simp
qed

lemma length_too_small:
  assumes "Failed \<notin> set (sock_in ss)" and "stream_data (sock_in ss) = bytes32 (htonl (of_nat n)) @ rest"
    and "n < 8" and "n \<le> 4 + length rest" and "malloc_ok (base v) n"
  shows "sr_read_from_server v ss = None"
proof -
  obtain es where es: "recv_loop 4 (sock_in ss) = Got (bytes32 (htonl (of_nat n))) es" "Failed \<notin> set es"
    "stream_data es = rest"
    using read_header [OF assms(1,2)] by blast
  have len: "sint (of_nat n :: u32) = int n" using assms(3) by (intro sint_of_nat_len) simp
  have n: "nat (int n - 4) = n - 4" by simp
  have "n - 4 \<le> length (stream_data es)" using es(3) assms(4) by simp
  from recv_loop_got [OF es(2) this] obtain es' where body: "recv_loop (n - 4) es = Got (take (n - 4) rest) es'"
    using es(3) by auto
  have "ld_u32 (bytes32 (htonl (of_nat n)) @ take (n - 4) rest) 4 = None"
  proof -
    have "n - 4 < 4" using assms(3) by linarith
    then show ?thesis by (simp add: ld_u32_def load_def)
  qed
  then show ?thesis
    using assms(3,5)
    unfolding sr_read_from_server_def sr_read_from_server_expect_def read_command_def es(1) read_result.case le32_of_bytes32
      order32.swap_swap Let_def len nat_int n body
    by simp
qed

section \<open>The main loop\<close>

text \<open>
  \<^verbatim>\<open>while (sr_read_from_server(&sr) == 1);\<close> with one \<open>os\<close> for each round. The loop is still
  going when a round waits for input or the list of rounds is used up.
\<close>

datatype loop_result = Still_running session | Stopped session

fun main_loop :: "os list \<Rightarrow> session \<Rightarrow> loop_result option" where
  "main_loop [] ss = Some (Still_running ss)"
| "main_loop (v # vs) ss =
     do { r \<leftarrow> sr_read_from_server v ss;
          case r of
            Waiting \<Rightarrow> Some (Still_running ss)
          | Returned (ret, ss) \<Rightarrow> if ret = 1 then main_loop vs ss else Some (Stopped ss) }"

type_synonym packet_event = "os \<times> cstring \<times> u8 list"

definition packet_msg :: "packet_event \<Rightarrow> u8 list" where
  "packet_msg = (\<lambda>(v, name, fr). vns_msg VNSPACKET (strncpy_field 16 name @ fr))"

fun deliver_all :: "packet_event list \<Rightarrow> sr_instance \<Rightarrow> sr_instance option" where
  "deliver_all [] sr = Some sr"
| "deliver_all ((v, name, fr) # ps) sr = do { sr \<leftarrow> deliver (base v) sr fr name; deliver_all ps sr }"

definition packet_ok :: "sr_instance \<Rightarrow> packet_event \<Rightarrow> bool" where
  "packet_ok sr = (\<lambda>(v, name, fr). env_ok (base v) \<and> c_str name \<and> length name < 16 \<and>
     length fr \<le> 9976 \<and> sr_get_interface sr name \<noteq> None)"

lemma packet_ok_config: "same_config sr sr' \<Longrightarrow> packet_ok sr' = packet_ok sr"
  by (simp add: packet_ok_def same_config_lookups)

lemma read_packet:
  assumes "Failed \<notin> set (sock_in ss)" and "stream_data (sock_in ss) = packet_msg p @ rest"
    and p: "p = (v, name, fr)" and ok: "packet_ok (router ss) p" and run: "running (router ss)"
  obtains es sr where "Failed \<notin> set es" and "stream_data es = rest"
    and "sr_read_from_server v ss = Some (Returned (1, ss\<lparr>sock_in := es, router := sr\<rparr>))"
    and "deliver (base v) (router ss) fr name = Some sr" and "same_config (router ss) sr" and "running sr"
proof -
  let ?pl = "strncpy_field 16 name @ fr"
  obtain i where o: "env_ok (base v)" "c_str name" "length name < 16" "length fr \<le> 9976"
    "sr_get_interface (router ss) name = Some i"
    using ok by (auto simp: packet_ok_def p)
  obtain es where es: "Failed \<notin> set es" "stream_data es = rest"
    "sr_read_from_server v ss = map_option Returned
      (vns_command v (ss\<lparr>sock_in := es\<rparr>) (host_msg VNSPACKET ?pl) (8 + length ?pl) VNSPACKET)"
    using read_message [OF assms(1), of VNSPACKET ?pl rest v 0] assms(2) o
    by (auto simp: packet_msg_def p sr_read_from_server_def)
  obtain sr where sr: "deliver (base v) (router ss) fr name = Some sr" "same_config (router ss) sr" "running sr"
    using deliver_running [OF o(1) run o(4,5)] by blast
  have "sr_read_from_server v ss = Some (Returned (1, ss\<lparr>sock_in := es, router := sr\<rparr>))"
    using es(3) vns_command_packet [OF o(2,3,4), of "ss\<lparr>sock_in := es\<rparr>" i v] o(5) sr(1) by simp
  with es sr show ?thesis using that by blast
qed

lemma main_loop_packets:
  assumes "Failed \<notin> set (sock_in ss)" and "stream_data (sock_in ss) = concat (map packet_msg ps) @ rest"
    and "\<forall>p \<in> set ps. packet_ok (router ss) p" and "running (router ss)"
  shows "\<exists>es sr. main_loop (map fst ps) ss = Some (Still_running (ss\<lparr>sock_in := es, router := sr\<rparr>)) \<and>
    stream_data es = rest \<and> deliver_all ps (router ss) = Some sr \<and> same_config (router ss) sr \<and> running sr"
  using assms
proof (induction ps arbitrary: ss)
  case Nil
  then show ?case by (intro exI [of _ "sock_in ss"] exI [of _ "router ss"]) simp
next
  case (Cons p ps)
  obtain v name fr where p: "p = (v, name, fr)" by (cases p) auto
  obtain es sr where r: "Failed \<notin> set es" "stream_data es = concat (map packet_msg ps) @ rest"
    "sr_read_from_server v ss = Some (Returned (1, ss\<lparr>sock_in := es, router := sr\<rparr>))"
    "deliver (base v) (router ss) fr name = Some sr" "same_config (router ss) sr" "running sr"
    using read_packet [of ss p "concat (map packet_msg ps) @ rest" v name fr] Cons.prems p by auto
  have "\<forall>p \<in> set ps. packet_ok sr p"
    using Cons.prems(3) packet_ok_config [OF r(5)] by simp
  then obtain es' sr' where "main_loop (map fst ps) (ss\<lparr>sock_in := es, router := sr\<rparr>) =
      Some (Still_running (ss\<lparr>sock_in := es', router := sr'\<rparr>))" "stream_data es' = rest"
    "deliver_all ps sr = Some sr'" "same_config sr sr'" "running sr'"
    using Cons.IH [of "ss\<lparr>sock_in := es, router := sr\<rparr>"] r by auto
  with r p show ?case by (auto dest: same_config_trans)
qed

section \<open>Authentication\<close>

lemma ld_u32_msg_len: "ld_u32 (host_msg ty p) 0 = Some (htonl (of_nat (8 + length p)))"
  by (rule ld_u32_at) (simp add: host_msg_def)

lemma drop_msg: "drop 8 (host_msg ty p) = p"
  by (simp add: host_msg_def)

text \<open>The 64 bytes of \<^verbatim>\<open>auth_key\<close> that are hashed: a short first line leaves old stack contents in it.\<close>

definition auth_key_bytes :: "os \<Rightarrow> u8 list \<Rightarrow> u8 list" where
  "auth_key_bytes v content =
     (let line = fgets 65 content in take 64 (line @ [0] @ drop (length line + 1) (key_junk v)))"

lemma auth_key_bytes_full: "length (fgets 65 content) = 64 \<Longrightarrow> auth_key_bytes v content = fgets 65 content"
  by (simp add: auth_key_bytes_def)

text \<open>The locals have their declared sizes, and neither \<^verbatim>\<open>malloc\<close> nor \<^verbatim>\<open>send\<close> fails.\<close>

definition os_ok :: "os \<Rightarrow> bool" where
  "os_ok v \<longleftrightarrow> env_ok (base v) \<and> send_ret v = int \<and> length (key_junk v) = 65 \<and>
     length (Message_Block (sha_junk v)) = 64"

lemma length_fgets: "length (fgets 65 content) \<le> 64"
  by (simp add: fgets_def)

lemma length_auth_reply [simp]:
  "length digest = 5 \<Longrightarrow> length (auth_reply username digest) = 12 + length username + SHA1_LEN"
  by (auto simp: auth_reply_def SHA1_LEN_def length_concat comp_def sum_list_triv)

lemma length_fips_compress [simp]: "length (fips_compress H M) = 5"
  by (simp add: fips_compress_def split: prod.split)

lemma length_hash_blocks: "length H = 5 \<Longrightarrow> length (hash_blocks H M) = 5"
proof (induction H M rule: hash_blocks.induct)
  case (1 H M)
  then show ?case by (subst hash_blocks.simps) simp
qed

lemma length_fips_sha1 [simp]: "length (fips_sha1 M) = 5"
  by (simp add: fips_sha1_def length_hash_blocks H0_def)

lemma auth_request_answered:
  assumes v: "os_ok v" and f: "files ss ''auth_key'' = Some content" and c: "content \<noteq> []"
    and u: "length (user (router ss)) < 32" and p: "length salt \<le> 9992"
  shows "sr_handle_auth_request v ss (host_msg ty salt) = Some (1, ss\<lparr>router := (router ss)
    \<lparr>sock_out := sock_out (router ss) @
      [auth_reply (user (router ss)) (fips_sha1 (salt @ auth_key_bytes v content))]\<rparr>\<rparr>)"
proof -
  let ?line = "fgets 65 content"
  have line: "?line \<noteq> []" using c by (cases content) (auto simp: fgets_def)
  have st: "store (key_junk v) 0 (?line @ [0]) = Some (?line @ 0 # drop (Suc (length ?line)) (key_junk v))"
    using v length_fgets [of content] by (simp add: store_def overwrite_def os_ok_def)
  let ?key = "?line @ 0 # drop (Suc (length ?line)) (key_junk v)" and ?k = "auth_key_bytes v content"
  have key: "take 64 ?key = ?k" "64 \<le> length ?key" "length ?k = 64"
    using v length_fgets [of content] by (simp_all add: auth_key_bytes_def Let_def os_ok_def)
  have n: "(of_nat (8 + length salt) - 8 :: u32) = of_nat (length salt)" by simp
  have "length salt < 2 ^ 32" "length ?k < 2 ^ 32" "length (salt @ ?k) < 2 ^ 61" using p key(3) by simp_all
  moreover have "SHA1_absorbed (SHA1Reset (sha_junk v)) []"
    using v by (simp add: SHA1Reset_absorbed os_ok_def)
  ultimately obtain c1 c d where sha1: "SHA1Input (SHA1Reset (sha_junk v)) salt (of_nat (length salt)) = Some c1"
    "SHA1Input c1 ?k (of_nat (length ?k)) = Some c"
    and sha: "SHA1Result c = Some (1, d)" "Message_Digest d = fips_sha1 (salt @ ?k)"
    using sha.two_pieces by metis
  have "SHA1Input c1 ?key 64 = Some c"
    using sha1(2) SHA1Input_take [of 64 ?key c1] key by simp
  then show ?thesis
    using v u line
    unfolding sr_handle_auth_request_def f option.case Let_def
    by (simp add: AUTH_KEY_LEN_def st sha1(1) n sha ld_u32_msg_len os_ok_def drop_msg del: of_nat_add)
qed

lemma auth_status_ok:
  "ok \<noteq> 0 \<Longrightarrow> sr_handle_auth_status (host_msg ty (ok # msg)) = Some (uint ok)"
  by (simp add: sr_handle_auth_status_def load_def drop_msg)

lemma handle_rtable_saves:
  assumes "c_str vid" and "length vid < 32" and "can_write v (''rtable.'' @ vid)"
    and "length text \<le> 9960"
  shows "sr_handle_rtable v ss (host_msg ty (strncpy_field 32 vid @ text)) =
    Some (1, ss\<lparr>files := (files ss)(''rtable.'' @ vid \<mapsto> text)\<rparr>)"
proof -
  let ?p = "strncpy_field 32 vid @ text"
  obtain k where "32 - length vid = Suc k" using assms(2) by (metis Suc_diff_Suc)
  then have vid: "ld_cstr (host_msg ty ?p) 8 = Some vid"
    using assms(1) by (intro ld_cstr_at [where rest = "replicate k 0 @ text"])
      (simp_all add: drop_msg strncpy_field_def)
  have "unat (of_nat (8 + length ?p) - 8 - of_nat IDSIZE :: u32) = length text"
    using assms(4) by (simp add: unat_of_nat IDSIZE_def)
  moreover have "drop (8 + IDSIZE) (host_msg ty ?p) = text"
    by (simp add: IDSIZE_def host_msg_def)
  ultimately have contents: "load (host_msg ty ?p) (8 + IDSIZE)
      (unat (of_nat (8 + length ?p) - 8 - of_nat IDSIZE :: u32)) = Some text"
    by (simp add: load_def IDSIZE_def)
  have "\<not> 7 + IDSIZE + 1 < length (''rtable.'' @ vid) + 1" using assms(2) by (simp add: IDSIZE_def)
  then show ?thesis
    unfolding sr_handle_rtable_def vid ld_u32_msg_len
    using assms(3) contents by (simp add: Let_def del: of_nat_add length_append)
qed

section \<open>Opening the session\<close>

lemma expect_then_msg:
  assumes "Failed \<notin> set (sock_in ss)" and "stream_data (sock_in ss) = vns_msg ty p @ rest"
    and "length p \<le> 9992" and "malloc_ok (base v) (8 + length p)"
    and step: "\<And>es. vns_command v (ss\<lparr>sock_in := es\<rparr>) (host_msg ty p) (8 + length p) ty =
      Some (1, f (ss\<lparr>sock_in := es\<rparr>))"
  obtains es where "Failed \<notin> set es" and "stream_data es = rest"
    and "expect_then v ty k ss = k (f (ss\<lparr>sock_in := es\<rparr>))"
proof -
  obtain es where "Failed \<notin> set es" "stream_data es = rest"
    "sr_read_from_server_expect v ss ty = Some (Returned (1, f (ss\<lparr>sock_in := es\<rparr>)))"
    by (rule read_message [OF assms(1-4), of ty]) (simp add: step)
  then show ?thesis using that by (simp add: expect_then_def)
qed

text \<open>What a successful authentication leaves: the reply has gone out.\<close>

definition authenticated :: "os \<Rightarrow> u8 list \<Rightarrow> u8 list \<Rightarrow> sr_instance \<Rightarrow> sr_instance" where
  "authenticated v content salt sr = sr\<lparr>sock_out := sock_out sr @
     [auth_reply (user sr) (fips_sha1 (salt @ auth_key_bytes v content))]\<rparr>"

lemma vns_command_auth:
  assumes "os_ok v" and "files ss ''auth_key'' = Some content" and "content \<noteq> []"
    and "length (user (router ss)) < 32" and "length salt \<le> 9992"
  shows "vns_command v ss (host_msg VNS_AUTH_REQUEST salt) (8 + length salt) VNS_AUTH_REQUEST =
    Some (1, ss\<lparr>router := authenticated v content salt (router ss)\<rparr>)"
  using auth_request_answered [OF assms, of VNS_AUTH_REQUEST]
  by (simp add: vns_command_def vns_types authenticated_def)

lemma vns_command_status:
  "ok \<noteq> 0 \<Longrightarrow> vns_command v ss (host_msg VNS_AUTH_STATUS (ok # msg)) (8 + length (ok # msg)) VNS_AUTH_STATUS =
     Some (1, ss)"
  using auth_status_ok [of ok VNS_AUTH_STATUS msg] by (simp add: vns_command_def vns_types unsigned_eq_0_iff)

lemma vns_command_rtable:
  assumes "c_str vid" and "length vid < 32" and "can_write v (''rtable.'' @ vid)" and "length text \<le> 9960"
  shows "vns_command v ss (host_msg VNS_RTABLE (strncpy_field 32 vid @ text)) (8 + length (strncpy_field 32 vid @ text))
      VNS_RTABLE =
    Some (1, ss\<lparr>files := (files ss)(''rtable.'' @ vid \<mapsto> text)\<rparr>)"
  using handle_rtable_saves [OF assms, of ss VNS_RTABLE] by (simp add: vns_command_def vns_types unsigned_eq_0_iff)

lemma length_c_open [simp]: "length (c_open sr) = 108" "length (c_open_template sr) = 70"
  by (simp_all add: c_open_def c_open_template_def IDSIZE_def)

text \<open>The server's side of a successful handshake.\<close>

definition handshake :: "u8 list \<Rightarrow> u8 \<Rightarrow> u8 list \<Rightarrow> u8 list" where
  "handshake salt ok msg = vns_msg VNS_AUTH_REQUEST salt @ vns_msg VNS_AUTH_STATUS (ok # msg)"

definition opened :: "os \<Rightarrow> u8 list \<Rightarrow> u8 list \<Rightarrow> sr_instance \<Rightarrow> sr_instance" where
  "opened v content salt sr =
     (let sr = authenticated v content salt (sr\<lparr>sockfd := socket_fd v\<rparr>)
      in sr\<lparr>sock_out := sock_out sr @ [if template sr = [] then c_open sr else c_open_template sr]\<rparr>)"

lemma connect_reaches_open:
  assumes v: "os_ok v" and net: "host_found v" "0 \<le> socket_fd v" "0 \<le> connect_ret v"
    and s: "Failed \<notin> set (sock_in ss)" "stream_data (sock_in ss) = handshake salt ok msg @ rest" "ok \<noteq> 0"
    and l: "length salt \<le> 9992" "length msg \<le> 9991"
    and f: "files ss ''auth_key'' = Some content" "content \<noteq> []" "length (user (router ss)) < 32"
  obtains es where "Failed \<notin> set es" and "stream_data es = rest"
    and "sr_connect_to_server v ss = sr_open_session v (ss\<lparr>sock_in := es,
      router := authenticated v content salt ((router ss)\<lparr>sockfd := socket_fd v\<rparr>)\<rparr>)"
proof -
  let ?ss = "ss\<lparr>router := (router ss)\<lparr>sockfd := socket_fd v\<rparr>\<rparr>"
  have m: "malloc_ok (base v) n" for n using v by (simp add: os_ok_def)
  obtain es1 where e1: "Failed \<notin> set es1" "stream_data es1 = vns_msg VNS_AUTH_STATUS (ok # msg) @ rest"
    "expect_then v VNS_AUTH_REQUEST (expect_then v VNS_AUTH_STATUS (sr_open_session v)) ?ss =
     expect_then v VNS_AUTH_STATUS (sr_open_session v) (ss\<lparr>sock_in := es1,
       router := authenticated v content salt ((router ss)\<lparr>sockfd := socket_fd v\<rparr>)\<rparr>)"
  proof (rule expect_then_msg [of ?ss VNS_AUTH_REQUEST salt "vns_msg VNS_AUTH_STATUS (ok # msg) @ rest" v
        "\<lambda>ss. ss\<lparr>router := authenticated v content salt (router ss)\<rparr>" "expect_then v VNS_AUTH_STATUS (sr_open_session v)"])
    show "vns_command v (?ss\<lparr>sock_in := es\<rparr>) (host_msg VNS_AUTH_REQUEST salt) (8 + length salt) VNS_AUTH_REQUEST =
      Some (1, ?ss\<lparr>sock_in := es, router := authenticated v content salt (router (?ss\<lparr>sock_in := es\<rparr>))\<rparr>)" for es
      by (rule vns_command_auth) (use v f l in simp_all)
  qed (use s l m in \<open>simp_all add: handshake_def\<close>)
  let ?s1 = "ss\<lparr>sock_in := es1, router := authenticated v content salt ((router ss)\<lparr>sockfd := socket_fd v\<rparr>)\<rparr>"
  obtain es where e: "Failed \<notin> set es" "stream_data es = rest"
    "expect_then v VNS_AUTH_STATUS (sr_open_session v) ?s1 = sr_open_session v (?s1\<lparr>sock_in := es\<rparr>)"
  proof (rule expect_then_msg [of ?s1 VNS_AUTH_STATUS "ok # msg" rest v "\<lambda>ss. ss" "sr_open_session v"])
    show "vns_command v (?s1\<lparr>sock_in := es\<rparr>) (host_msg VNS_AUTH_STATUS (ok # msg)) (8 + length (ok # msg))
      VNS_AUTH_STATUS = Some (1, ?s1\<lparr>sock_in := es\<rparr>)" for es
      by (rule vns_command_status) (rule s(3))
  qed (use e1 l m in simp_all)
  have "sr_connect_to_server v ss = sr_open_session v (?s1\<lparr>sock_in := es\<rparr>)"
    using net by (simp add: sr_connect_to_server_def e1(3) e(3))
  with e show ?thesis using that by simp
qed

lemma authenticated_simps [simp]:
  "template (authenticated v content salt sr) = template sr"
  "host (authenticated v content salt sr) = host sr"
  by (simp_all add: authenticated_def)

lemma connect_opens:
  assumes "os_ok v" and "host_found v" "0 \<le> socket_fd v" "0 \<le> connect_ret v"
    and "Failed \<notin> set (sock_in ss)" "stream_data (sock_in ss) = handshake salt ok msg @ rest" "ok \<noteq> 0"
    and "length salt \<le> 9992" "length msg \<le> 9991"
    and "files ss ''auth_key'' = Some content" "content \<noteq> []" "length (user (router ss)) < 32"
    and "template (router ss) = []"
  shows "\<exists>es. sr_connect_to_server v ss = Some (Returned (0, ss\<lparr>sock_in := es,
      router := opened v content salt (router ss)\<rparr>)) \<and> stream_data es = rest"
proof -
  obtain es where es: "stream_data es = rest"
    "sr_connect_to_server v ss = sr_open_session v (ss\<lparr>sock_in := es,
      router := authenticated v content salt ((router ss)\<lparr>sockfd := socket_fd v\<rparr>)\<rparr>)"
    using connect_reaches_open [OF assms(1-12)] .
  then show ?thesis
    using assms(1,13) by (auto simp: sr_open_session_def opened_def Let_def os_ok_def)
qed

lemma connect_opens_template:
  assumes "os_ok v" and "host_found v" "0 \<le> socket_fd v" "0 \<le> connect_ret v"
    and "Failed \<notin> set (sock_in ss)"
    and "stream_data (sock_in ss) = handshake salt ok msg @ vns_msg VNS_RTABLE (strncpy_field 32 vid @ text) @ rest"
    and "ok \<noteq> 0" and "length salt \<le> 9992" "length msg \<le> 9991"
    and "files ss ''auth_key'' = Some content" "content \<noteq> []" "length (user (router ss)) < 32"
    and t: "template (router ss) \<noteq> []" "length (template (router ss)) < 30"
    and r: "c_str vid" "length vid < 32" "can_write v (''rtable.'' @ vid)" "length text \<le> 9960"
  shows "\<exists>es. sr_connect_to_server v ss = Some (Returned (0, ss\<lparr>sock_in := es,
      router := opened v content salt (router ss), files := (files ss)(''rtable.'' @ vid \<mapsto> text)\<rparr>)) \<and>
    Failed \<notin> set es \<and> stream_data es = rest"
proof -
  obtain es where es: "Failed \<notin> set es" "stream_data es = vns_msg VNS_RTABLE (strncpy_field 32 vid @ text) @ rest"
    "sr_connect_to_server v ss = sr_open_session v (ss\<lparr>sock_in := es,
      router := authenticated v content salt ((router ss)\<lparr>sockfd := socket_fd v\<rparr>)\<rparr>)"
    using connect_reaches_open [OF assms(1-12)] .
  let ?ss = "ss\<lparr>sock_in := es, router := opened v content salt (router ss)\<rparr>"
  have m: "malloc_ok (base v) n" for n using assms(1) by (simp add: os_ok_def)
  obtain es' where es': "Failed \<notin> set es'" "stream_data es' = rest"
    "expect_then v VNS_RTABLE (\<lambda>ss. Some (Returned (0, ss))) ?ss =
     Some (Returned (0, ?ss\<lparr>sock_in := es', files := (files ss)(''rtable.'' @ vid \<mapsto> text)\<rparr>))"
  proof (rule expect_then_msg [of ?ss VNS_RTABLE "strncpy_field 32 vid @ text" rest v
        "\<lambda>ss. ss\<lparr>files := (files ss)(''rtable.'' @ vid \<mapsto> text)\<rparr>" "\<lambda>ss. Some (Returned (0, ss))"])
    show "vns_command v (?ss\<lparr>sock_in := es\<rparr>) (host_msg VNS_RTABLE (strncpy_field 32 vid @ text))
        (8 + length (strncpy_field 32 vid @ text)) VNS_RTABLE =
      Some (1, ?ss\<lparr>sock_in := es, files := (files (?ss\<lparr>sock_in := es\<rparr>))(''rtable.'' @ vid \<mapsto> text)\<rparr>)" for es
      by (rule vns_command_rtable [OF r])
  qed (use es m r(4) in simp_all)
  have "sr_open_session v (ss\<lparr>sock_in := es,
      router := authenticated v content salt ((router ss)\<lparr>sockfd := socket_fd v\<rparr>)\<rparr>) =
    expect_then v VNS_RTABLE (\<lambda>ss. Some (Returned (0, ss))) ?ss"
    using assms(1) t by (simp add: sr_open_session_def opened_def Let_def os_ok_def)
  with es es' show ?thesis by auto
qed

end
