(* ===== verification/Hwinfo.thy ===== *)
theory Hwinfo
  imports Session
begin

text \<open>
  \<^verbatim>\<open>sr_handle_hwinfo\<close> of \<^verbatim>\<open>src/sr_vns_comm.c\<close>: the interfaces a hardware-information message
  describes are the interfaces the router has afterwards.
\<close>

section \<open>Entries of the message\<close>

text \<open>
  What the server announces: interfaces, each with its addresses, and entries the router reads
  over.
\<close>

datatype hw_info = Announce cstring mac u32 | Other u32 "u8 list"

definition enc_hw :: "u32 \<Rightarrow> u8 list \<Rightarrow> u8 list" where
  "enc_hw key val = bytes32 (htonl key) @ val"

fun hw_bytes :: "hw_info \<Rightarrow> u8 list" where
  "hw_bytes (Announce name m ip) =
     enc_hw HWINTERFACE (strncpy_field 32 name) @ enc_hw HWETHER (mac_bytes m @ replicate 26 0) @
     enc_hw HWETHIP (bytes32 ip @ replicate 28 0)"
| "hw_bytes (Other key val) = enc_hw key val"

fun hw_size :: "hw_info \<Rightarrow> nat" where
  "hw_size (Announce name m ip) = 3"
| "hw_size (Other key val) = 1"

fun hw_ok :: "hw_info \<Rightarrow> bool" where
  "hw_ok (Announce name m ip) \<longleftrightarrow> c_str name"
| "hw_ok (Other key val) \<longleftrightarrow> length val = 32 \<and> key \<noteq> HWINTERFACE \<and> key \<noteq> HWETHER \<and> key \<noteq> HWETHIP"

text \<open>The interfaces that result, entry \<open>i\<close> being the next.\<close>

fun hw_ifaces :: "os \<Rightarrow> nat \<Rightarrow> hw_info list \<Rightarrow> sr_if list" where
  "hw_ifaces v i [] = []"
| "hw_ifaces v i (Announce name m ip # rest) =
     (if_junk v i)\<lparr>if_name := take 32 name, if_addr := m, if_ip := ip\<rparr> # hw_ifaces v (i + 3) rest"
| "hw_ifaces v i (Other key val # rest) = hw_ifaces v (i + 1) rest"

definition add_ifaces :: "sr_if list \<Rightarrow> sr_instance \<Rightarrow> sr_instance" where
  "add_ifaces l sr = sr\<lparr>if_list := if_list sr @ l\<rparr>"

lemma length_hw_bytes [simp]: "hw_ok x \<Longrightarrow> length (hw_bytes x) = 36 * hw_size x"
  by (cases x) (simp_all add: enc_hw_def)

lemma length_hw_all: "\<forall>x \<in> set xs. hw_ok x \<Longrightarrow>
  length (concat (map hw_bytes xs)) = 36 * sum_list (map hw_size xs)"
  by (induction xs) (simp_all add: algebra_simps)

section \<open>One entry\<close>

lemma hw_entry_at:
  assumes "drop off buf = enc_hw key val @ rest" and "length val = 32"
  shows "ld_u32 buf off = Some (htonl key)" and "drop (off + 4) buf = val @ rest"
    and "off + 36 \<le> length buf"
proof -
  show "ld_u32 buf off = Some (htonl key)" by (rule ld_u32_at) (simp add: assms enc_hw_def)
  have "drop (off + 4) buf = drop 4 (drop off buf)" by (simp add: add.commute)
  then show "drop (off + 4) buf = val @ rest" by (simp add: assms(1) enc_hw_def)
  have "length (drop off buf) = 36 + length rest" by (simp add: assms enc_hw_def)
  then show "off + 36 \<le> length buf" by simp
qed

lemma hw_entry_interface:
  assumes "drop off buf = enc_hw HWINTERFACE (strncpy_field 32 name) @ rest" and "c_str name"
    and "malloc_ok e sizeof_sr_if"
  shows "hw_entry e junk buf off sr = Some (sr\<lparr>if_list := if_list sr @ [junk\<lparr>if_name := take 32 name\<rparr>]\<rparr>)"
proof -
  have "ld_strn 32 buf (off + 4) = Some (take 32 name)"
    using hw_entry_at(2) [OF assms(1)] by (intro ld_strn_full) (simp_all add: assms(2))
  then show ?thesis
    using hw_entry_at(1) [OF assms(1)] assms(3)
    by (simp add: hw_entry_def sr_IFACE_NAMELEN_def sr_add_interface_def strncpy_def)
qed

lemma hw_entry_ether:
  assumes "drop off buf = enc_hw HWETHER (mac_bytes m @ replicate 26 0) @ rest"
  shows "hw_entry e junk buf off sr = sr_set_ether_addr sr m"
proof -
  have "load buf (off + 4) 6 = Some (mac_bytes m)"
    using hw_entry_at(2,3) [OF assms] by (simp add: load_def)
  then show ?thesis
    using hw_entry_at(1) [OF assms]
    by (simp add: hw_entry_def HWETHER_def HWINTERFACE_def HWETHIP_def bytes_mac_bytes)
qed

lemma hw_entry_ethip:
  assumes "drop off buf = enc_hw HWETHIP (bytes32 ip @ replicate 28 0) @ rest"
  shows "hw_entry e junk buf off sr = sr_set_ether_ip sr ip"
proof -
  have "ld_u32 buf (off + 4) = Some ip"
    using hw_entry_at(2) [OF assms] by (intro ld_u32_at) simp
  then show ?thesis
    using hw_entry_at(1) [OF assms] by (simp add: hw_entry_def HWINTERFACE_def HWETHIP_def)
qed

lemma hw_entry_other:
  assumes "drop off buf = enc_hw key val @ rest" and "hw_ok (Other key val)"
  shows "hw_entry e junk buf off sr = Some sr"
  using hw_entry_at(1) [OF assms(1)] assms(2) by (simp add: hw_entry_def)

section \<open>The whole message\<close>

lemma hwinfo_loop_append:
  "hwinfo_loop v buf i (n + k) sr = do { sr \<leftarrow> hwinfo_loop v buf i n sr; hwinfo_loop v buf (i + n) k sr }"
  by (induction n arbitrary: i sr) (simp_all cong: Option.bind_cong)

lemma drop_entry: "drop (8 + 36 * i) buf = a @ rest \<Longrightarrow> length a = 36 * k \<Longrightarrow> drop (8 + 36 * (i + k)) buf = rest"
proof -
  assume a: "drop (8 + 36 * i) buf = a @ rest" "length a = 36 * k"
  have "drop (8 + 36 * (i + k)) buf = drop (36 * k) (drop (8 + 36 * i) buf)"
    by (simp add: algebra_simps)
  with a show ?thesis by simp
qed

lemma hwinfo_loop_item:
  assumes "malloc_ok (base v) sizeof_sr_if" and "hw_ok x" and "drop (8 + 36 * i) buf = hw_bytes x @ rest"
  shows "hwinfo_loop v buf i (hw_size x) sr = Some (add_ifaces (hw_ifaces v i [x]) sr)"
proof (cases x)
  case (Other key val)
  have "drop (8 + 36 * i) buf = enc_hw key val @ rest" using assms(3) by (simp add: Other)
  from hw_entry_other [OF this] assms(2) show ?thesis
    by (simp add: Other sizeof_c_hw_entry_def add_ifaces_def)
next
  case (Announce name m ip)
  let ?a = "enc_hw HWINTERFACE (strncpy_field 32 name)" and ?b = "enc_hw HWETHER (mac_bytes m @ replicate 26 0)"
    and ?c = "enc_hw HWETHIP (bytes32 ip @ replicate 28 0)"
  have a: "drop (8 + 36 * i) buf = ?a @ ?b @ ?c @ rest" using assms(3) by (simp add: Announce)
  have b: "drop (8 + 36 * (i + 1)) buf = ?b @ ?c @ rest" by (rule drop_entry [OF a]) (simp add: enc_hw_def)
  have c: "drop (8 + 36 * (i + 1 + 1)) buf = ?c @ rest" by (rule drop_entry [OF b]) (simp add: enc_hw_def)
  have "c_str name" using assms(2) by (simp add: Announce)
  note steps = hw_entry_interface [OF a this assms(1)] hw_entry_ether [OF b] hw_entry_ethip [OF c]
  have three: "hw_size x = Suc (Suc (Suc 0))" by (simp add: Announce)
  show ?thesis
    unfolding three hwinfo_loop.simps sizeof_c_hw_entry_def steps Option.bind.bind_lunit
    by (simp add: Announce sr_set_ether_addr_def sr_set_ether_ip_def update_last_eq add_ifaces_def)
qed

lemma hw_ifaces_Cons: "hw_ifaces v i (x # xs) = hw_ifaces v i [x] @ hw_ifaces v (i + hw_size x) xs"
  by (cases x) simp_all

lemma hwinfo_loop_items:
  assumes "malloc_ok (base v) sizeof_sr_if" and "\<forall>x \<in> set xs. hw_ok x"
    and "drop (8 + 36 * i) buf = concat (map hw_bytes xs)"
  shows "hwinfo_loop v buf i (sum_list (map hw_size xs)) sr = Some (add_ifaces (hw_ifaces v i xs) sr)"
  using assms(2,3)
proof (induction xs arbitrary: i sr)
  case Nil
  then show ?case by (simp add: add_ifaces_def)
next
  case (Cons x xs)
  have x: "drop (8 + 36 * i) buf = hw_bytes x @ concat (map hw_bytes xs)" using Cons.prems by simp
  from drop_entry [OF x, of "hw_size x"] Cons.prems
  have "drop (8 + 36 * (i + hw_size x)) buf = concat (map hw_bytes xs)" by simp
  with Cons.IH [of "i + hw_size x"] hwinfo_loop_item [OF assms(1) _ x] Cons.prems(1)
  show ?case by (subst hw_ifaces_Cons) (simp add: hwinfo_loop_append add_ifaces_def)
qed

text \<open>The number of entries as \<^verbatim>\<open>sr_handle_hwinfo\<close> computes it, for the lengths it can be called with.\<close>

lemma entry_count:
  assumes "8 \<le> len" and "len \<le> 10000"
  shows "sint (of_nat (unat (ucast (of_nat len :: u32) - 8 :: 64 word) div sizeof_c_hw_entry) :: u32) =
    int ((len - 8) div sizeof_c_hw_entry)"
proof -
  have "ucast (of_nat len :: u32) = (of_nat len :: 64 word)"
    using assms by (simp add: unsigned_of_nat take_bit_nat_eq_self)
  moreover obtain k where k: "len = 8 + k" using assms(1) le_Suc_ex by blast
  ultimately have "unat (ucast (of_nat len :: u32) - 8 :: 64 word) = unat (of_nat k :: 64 word)" by simp
  also have "\<dots> = len - 8" using assms(2) k by (simp add: unat_of_nat)
  finally have n: "unat (ucast (of_nat len :: u32) - 8 :: 64 word) = len - 8" .
  have "(len - 8) div sizeof_c_hw_entry < 2 ^ 31"
    using assms(2) by (simp add: sizeof_c_hw_entry_def)
  then show ?thesis unfolding n by (rule sint_of_nat_len)
qed

text \<open>
  The message is handled without a fault exactly if all names, the old ones and the announced ones,
  can be printed: \<^verbatim>\<open>sr_print_if_list\<close> prints the whole list.
\<close>

lemma handle_hwinfo:
  assumes "malloc_ok (base v) sizeof_sr_if" and "\<forall>x \<in> set xs. hw_ok x"
    and "length (concat (map hw_bytes xs)) \<le> 9992"
  shows "sr_handle_hwinfo v sr (host_msg VNSHWINFO (concat (map hw_bytes xs))) =
    (if printable (if_list sr @ hw_ifaces v 0 xs)
     then Some (int (sum_list (map hw_size xs)), add_ifaces (hw_ifaces v 0 xs) sr) else None)"
proof -
  let ?p = "concat (map hw_bytes xs)" and ?n = "sum_list (map hw_size xs)"
  have n: "length ?p = 36 * ?n" by (rule length_hw_all [OF assms(2)])
  then have "sint (of_nat (unat (ucast (of_nat (8 + length ?p) :: u32) - 8 :: 64 word) div sizeof_c_hw_entry) :: u32) =
      int ?n"
    using entry_count [of "8 + length ?p"] assms(3) by (simp add: sizeof_c_hw_entry_def)
  moreover have "sr_print_if_list (add_ifaces (hw_ifaces v 0 xs) sr) = None \<longleftrightarrow>
      \<not> printable (if_list sr @ hw_ifaces v 0 xs)"
    unfolding print_if_list_None by (simp add: add_ifaces_def)
  ultimately show ?thesis
    using hwinfo_loop_items [OF assms(1,2), of 0 "host_msg VNSHWINFO ?p" sr]
    unfolding sr_handle_hwinfo_def ld_u32_msg_len
    by (cases "sr_print_if_list (add_ifaces (hw_ifaces v 0 xs) sr)")
      (simp_all add: drop_msg Let_def del: of_nat_add printable_simps)
qed

text \<open>Which announced names those are.\<close>

lemma printable_hw_ifaces:
  "printable (hw_ifaces v i xs) \<longleftrightarrow> (\<forall>name m ip. Announce name m ip \<in> set xs \<longrightarrow> length name < sr_IFACE_NAMELEN)"
  by (induction v i xs rule: hw_ifaces.induct) (auto simp: sr_IFACE_NAMELEN_def)

lemma read_hwinfo:
  assumes "env_ok (base v)" and "Failed \<notin> set (sock_in ss)"
    and "stream_data (sock_in ss) = vns_msg VNSHWINFO (concat (map hw_bytes xs)) @ rest"
    and "\<forall>x \<in> set xs. hw_ok x" and "length (concat (map hw_bytes xs)) \<le> 9992"
    and names: "printable (if_list (router ss) @ hw_ifaces v 0 xs)"
  obtains es where "Failed \<notin> set es" and "stream_data es = rest"
    and "sr_read_from_server v ss = Some (Returned
      (if sr_verify_routing_table (add_ifaces (hw_ifaces v 0 xs) (router ss)) = 0 then 1 else - 1,
       ss\<lparr>sock_in := es, router := add_ifaces (hw_ifaces v 0 xs) (router ss)\<rparr>))"
proof -
  have m: "malloc_ok (base v) n" for n using assms(1) by simp
  have h: "sr_handle_hwinfo v (router ss) (host_msg 16 (concat (map hw_bytes xs))) =
      Some (int (sum_list (map hw_size xs)), add_ifaces (hw_ifaces v 0 xs) (router ss))"
    using handle_hwinfo [OF m assms(4,5)] names by (simp add: VNSHWINFO_def)
  obtain es where "Failed \<notin> set es" "stream_data es = rest"
    "sr_read_from_server v ss = map_option Returned (vns_command v (ss\<lparr>sock_in := es\<rparr>)
      (host_msg VNSHWINFO (concat (map hw_bytes xs))) (8 + length (concat (map hw_bytes xs))) VNSHWINFO)"
    using read_message [OF assms(2,3,5) m, of 0] by (auto simp: sr_read_from_server_def)
  then show ?thesis using that by (simp add: vns_command_def vns_types h)
qed

text \<open>A name that fills its array makes the router read past it.\<close>

lemma read_hwinfo_fault:
  assumes "env_ok (base v)" and "Failed \<notin> set (sock_in ss)"
    and "stream_data (sock_in ss) = vns_msg VNSHWINFO (concat (map hw_bytes xs)) @ rest"
    and "\<forall>x \<in> set xs. hw_ok x" and "length (concat (map hw_bytes xs)) \<le> 9992"
    and names: "\<not> printable (if_list (router ss) @ hw_ifaces v 0 xs)"
  shows "sr_read_from_server v ss = None"
proof -
  have m: "malloc_ok (base v) n" for n using assms(1) by simp
  have h: "sr_handle_hwinfo v (router ss) (host_msg 16 (concat (map hw_bytes xs))) = None"
    using handle_hwinfo [OF m assms(4,5)] names by (simp add: VNSHWINFO_def)
  obtain es where "sr_read_from_server v ss = map_option Returned (vns_command v (ss\<lparr>sock_in := es\<rparr>)
      (host_msg VNSHWINFO (concat (map hw_bytes xs))) (8 + length (concat (map hw_bytes xs))) VNSHWINFO)"
    using read_message [OF assms(2,3,5) m, of 0] by (auto simp: sr_read_from_server_def)
  then show ?thesis by (simp add: vns_command_def vns_types h)
qed

end
