(* ===== verification/Rt_File.thy ===== *)
theory Rt_File
  imports Session
begin

text \<open>
  Reading the routing table from a file, \<^verbatim>\<open>sr_load_rt\<close> of \<^verbatim>\<open>src/sr_rt.c\<close>, with what it uses of
  the C library: \<^verbatim>\<open>fgets\<close>, \<^verbatim>\<open>sscanf\<close> with \<^verbatim>\<open>%s\<close>, and \<^verbatim>\<open>inet_aton\<close> as inet(3) documents it. The
  lines \<^verbatim>\<open>sr_print_routing_entry\<close> prints load back.
\<close>

section \<open>The C library\<close>

definition isspace :: "char \<Rightarrow> bool" where
  "isspace c \<longleftrightarrow> (let n = of_char c :: nat in n = 32 \<or> (9 \<le> n \<and> n \<le> 13))"

text \<open>The value of a digit in bases up to 16.\<close>

definition digit_val :: "char \<Rightarrow> nat option" where
  "digit_val c =
     (let n = of_char c :: nat in
      if 48 \<le> n \<and> n \<le> 57 then Some (n - 48)
      else if 97 \<le> n \<and> n \<le> 102 then Some (n - 87)
      else if 65 \<le> n \<and> n \<le> 70 then Some (n - 55)
      else None)"

definition is_digit :: "nat \<Rightarrow> char \<Rightarrow> bool" where
  "is_digit b c \<longleftrightarrow> (case digit_val c of None \<Rightarrow> False | Some d \<Rightarrow> d < b)"

fun number :: "nat \<Rightarrow> nat \<Rightarrow> string \<Rightarrow> nat \<times> string" where
  "number b acc [] = (acc, [])"
| "number b acc (c # cs) =
     (case digit_val c of
        None \<Rightarrow> (acc, c # cs)
      | Some d \<Rightarrow> if d < b then number b (acc * b + d) cs else (acc, c # cs))"

text \<open>\<^verbatim>\<open>strtoul(s, &end, 0)\<close> on a string that starts with a digit: hexadecimal, octal or decimal.\<close>

definition strtoul0 :: "string \<Rightarrow> nat \<times> string" where
  "strtoul0 s =
     (if hd s = CHR ''0'' then
        (case tl s of
           x # h # t \<Rightarrow>
             if (x = CHR ''x'' \<or> x = CHR ''X'') \<and> is_digit 16 h then number 16 0 (h # t)
             else number 8 0 s
         | _ \<Rightarrow> number 8 0 s)
      else number 10 0 s)"

text \<open>Up to three dotted byte values, then the last number, which fills the remaining bytes.\<close>

fun aton_loop :: "nat \<Rightarrow> nat list \<Rightarrow> string \<Rightarrow> (nat list \<times> nat) option" where
  "aton_loop dots bs s =
     (if s = [] \<or> \<not> is_digit 10 (hd s) then None
      else
        let (n, rest) = strtoul0 s in
        if n > 0xFFFFFFFF then None
        else if rest \<noteq> [] \<and> hd rest = CHR ''.'' then
          (case dots of
             0 \<Rightarrow> None
           | Suc dots \<Rightarrow> if n > 0xFF then None else aton_loop dots (bs @ [n]) (tl rest))
        else if rest \<noteq> [] \<and> \<not> isspace (hd rest) then None
        else Some (bs, n))"

declare aton_loop.simps [simp del]

definition inet_aton :: "cstring \<Rightarrow> u32 option" where
  "inet_aton s =
     (case aton_loop 3 [] s of
        None \<Rightarrow> None
      | Some (bs, n) \<Rightarrow>
          if n \<ge> 256 ^ (4 - length bs) then None
          else
            let b = map of_nat bs @ replicate (4 - length bs) 0
            in Some (le32 (b ! 0) (b ! 1) (b ! 2) (b ! 3) OR htonl (of_nat n)))"

text \<open>The words of a line, in the order in which \<^verbatim>\<open>%s\<close> finds them.\<close>

fun split_words :: "string \<Rightarrow> string \<Rightarrow> string list" where
  "split_words cur [] = (if cur = [] then [] else [cur])"
| "split_words cur (c # cs) =
     (if isspace c then (if cur = [] then split_words [] cs else cur # split_words [] cs)
      else split_words (cur @ [c]) cs)"

text \<open>
  \<^verbatim>\<open>sscanf(line, "%s %s %s %s", ...)\<close> into arrays of 32 characters: arrays for which the line has
  no word keep their contents; a word that does not fit is written past the end of its array.
\<close>

definition sscanf_words :: "string \<Rightarrow> cstring list \<Rightarrow> cstring list option" where
  "sscanf_words line bufs =
     (let ws = take 4 (split_words [] line)
      in if list_ex (\<lambda>w. 32 \<le> length w) ws then None else Some (ws @ drop (length ws) bufs))"

definition BUFSIZ :: nat where "BUFSIZ = 8192"

definition c_string :: "u8 list \<Rightarrow> cstring" where
  "c_string bs = map byte_char (takeWhile (\<lambda>b. b \<noteq> 0) bs)"

section \<open>Loading\<close>

lemma length_fgets_pos: "content \<noteq> [] \<Longrightarrow> 1 < n \<Longrightarrow> 0 < length (fgets n content)"
  by (cases content) (auto simp: fgets_def)

function load_loop ::
  "env \<Rightarrow> sr_instance \<Rightarrow> cstring list \<Rightarrow> bool \<Rightarrow> u8 list \<Rightarrow> (int \<times> sr_instance) option" where
  "load_loop e sr bufs clear_routing_table content =
     (let line = fgets BUFSIZ content in
      if line = [] then Some (0, sr)
      else
        case sscanf_words (c_string line) bufs of
          None \<Rightarrow> None
        | Some bufs \<Rightarrow>
            (case inet_aton (bufs ! 0) of
               None \<Rightarrow> Some (- 1, sr)
             | Some dest_addr \<Rightarrow>
                 (case inet_aton (bufs ! 1) of
                    None \<Rightarrow> Some (- 1, sr)
                  | Some gw_addr \<Rightarrow>
                      (case inet_aton (bufs ! 2) of
                         None \<Rightarrow> Some (- 1, sr)
                       | Some mask_addr \<Rightarrow>
                           let sr = (if \<not> clear_routing_table then sr\<lparr>routing_table := []\<rparr> else sr) in
                           (case sr_add_rt_entry e sr dest_addr gw_addr mask_addr (bufs ! 3) of
                              None \<Rightarrow> None
                            | Some sr \<Rightarrow> load_loop e sr bufs True (drop (length line) content))))))"
  by pat_completeness auto
termination
proof (relation "measure (\<lambda>(e, sr, bufs, clr, content). length content)", goal_cases)
  case (2 e sr bufs clr content line)
  then show ?case by (cases content) (auto simp: fgets_def)
qed simp

declare load_loop.simps [simp del]

text \<open>
  \<open>bufs\<close> are the four uninitialised arrays \<^verbatim>\<open>dest\<close>, \<^verbatim>\<open>gw\<close>, \<^verbatim>\<open>mask\<close> and \<^verbatim>\<open>iface\<close>.
\<close>

definition sr_load_rt ::
  "env \<Rightarrow> cstring list \<Rightarrow> (cstring \<Rightarrow> u8 list option) \<Rightarrow> sr_instance \<Rightarrow> cstring \<Rightarrow> (int \<times> sr_instance) option" where
  "sr_load_rt e bufs fs sr filename =
     (case fs filename of
        None \<Rightarrow> Some (- 1, sr)
      | Some content \<Rightarrow> load_loop e sr bufs False content)"

section \<open>Printing\<close>

text \<open>
  The interface name is printed with \<^verbatim>\<open>%s\<close>; it is terminated, because loading a word that fills its array
  has been a fault before (\<open>sscanf_words\<close>).
\<close>

definition sr_print_routing_entry :: "sr_rt \<Rightarrow> string" where
  "sr_print_routing_entry entry =
     inet_ntoa (rt_dest entry) @ [tab, tab] @ inet_ntoa (rt_gw entry) @ [tab] @
     inet_ntoa (rt_mask entry) @ [tab] @ rt_interface entry @ [newline]"

section \<open>Numbers and addresses\<close>

lemma of_char_digit_char: "d < 10 \<Longrightarrow> (of_char (digit_char d) :: nat) = 48 + d"
  by (simp add: digit_char_def)

lemma digit_char_facts:
  assumes "d < 10"
  shows "digit_val (digit_char d) = Some d" and "\<not> isspace (digit_char d)" and "digit_char d \<noteq> CHR 0x00"
    and "digit_char d = CHR ''0'' \<longleftrightarrow> d = 0"
proof -
  note n = of_char_digit_char [OF assms]
  show "digit_val (digit_char d) = Some d" "\<not> isspace (digit_char d)"
    using assms by (simp_all add: digit_val_def isspace_def n)
  show "digit_char d \<noteq> CHR 0x00" using n by auto
  have "digit_char d = CHR ''0'' \<longleftrightarrow> (of_char (digit_char d) :: nat) = of_char (CHR ''0'')"
    by (rule of_char_eq_iff [symmetric])
  also have "(of_char (CHR ''0'') :: nat) = 48" by simp
  finally show "digit_char d = CHR ''0'' \<longleftrightarrow> d = 0" by (simp add: n)
qed

lemma number_append:
  "\<exists>k. \<forall>acc rest. number 10 acc (show_nat n @ rest) = number 10 (acc * 10 ^ k + n) rest"
proof (induction n rule: show_nat.induct)
  case (1 n)
  show ?case
  proof (cases "n < 10")
    case True
    then show ?thesis
      by (intro exI [of _ 1]) (simp add: show_nat.simps [of n] digit_char_facts)
  next
    case False
    with 1 obtain k where k: "\<And>acc rest. number 10 acc (show_nat (n div 10) @ rest) =
        number 10 (acc * 10 ^ k + n div 10) rest" by blast
    have "number 10 acc (show_nat n @ rest) = number 10 (acc * 10 ^ Suc k + n) rest" for acc rest
    proof -
      have "(acc * 10 ^ k + n div 10) * 10 + n mod 10 = acc * 10 ^ Suc k + n" by (simp add: algebra_simps)
      then show ?thesis
        using False by (simp add: show_nat.simps [of n] k digit_char_facts ac_simps)
    qed
    then show ?thesis by blast
  qed
qed

lemma number_show: "number 10 0 (show_nat n @ rest) = number 10 n rest"
  using number_append [of n] by auto

lemma show_nat_hd: "\<exists>d t. show_nat n = digit_char d # t \<and> d < 10 \<and> (d = 0 \<longrightarrow> n = 0 \<and> t = [])"
proof (induction n rule: show_nat.induct)
  case (1 n)
  show ?case
  proof (cases "n < 10")
    case True
    then show ?thesis by (subst show_nat.simps) auto
  next
    case False
    with 1 obtain d t where d: "show_nat (n div 10) = digit_char d # t" "d < 10" "d = 0 \<longrightarrow> n div 10 = 0" by blast
    with False have "d \<noteq> 0" by auto
    with d False show ?thesis by (subst show_nat.simps) auto
  qed
qed

lemma show_nat_chars: "c \<in> set (show_nat n) \<Longrightarrow> \<exists>d < 10. c = digit_char d"
proof (induction n rule: show_nat.induct)
  case (1 n)
  show ?case
  proof (cases "n < 10")
    case True
    with 1(2) show ?thesis by (auto simp: show_nat.simps [of n])
  next
    case False
    with 1(2) have "c \<in> set (show_nat (n div 10)) \<or> c = digit_char (n mod 10)"
      by (auto simp: show_nat.simps [of n])
    then show ?thesis using 1(1) [OF False] by (auto intro: exI [of _ "n mod 10"])
  qed
qed

lemma length_show_nat: "n < 10 ^ k \<Longrightarrow> 0 < k \<Longrightarrow> length (show_nat n) \<le> k"
proof (induction n arbitrary: k rule: show_nat.induct)
  case (1 n)
  show ?case
  proof (cases "n < 10")
    case True
    with 1(3) show ?thesis by (subst show_nat.simps) simp
  next
    case False
    with 1(2) have "k \<noteq> 1" by auto
    with 1(3) obtain j where j: "k = Suc j" "0 < j" by (cases k) auto
    with 1(2) have "n div 10 < 10 ^ j" by (simp add: less_mult_imp_div_less mult.commute)
    from 1(1) [OF False this j(2)] j False show ?thesis by (subst show_nat.simps) simp
  qed
qed

text \<open>What may follow a number that is read with \<^verbatim>\<open>strtoul\<close>.\<close>

definition ends_number :: "string \<Rightarrow> bool" where
  "ends_number s \<longleftrightarrow> (s = [] \<or> hd s = CHR ''.'')"

lemma ends_number_number: "ends_number s \<Longrightarrow> number b n s = (n, s)"
  by (cases s) (auto simp: ends_number_def digit_val_def)

lemma strtoul0_show:
  assumes "ends_number rest"
  shows "strtoul0 (show_nat n @ rest) = (n, rest)"
proof -
  obtain d t where d: "show_nat n = digit_char d # t" "d < 10" "d = 0 \<longrightarrow> n = 0 \<and> t = []"
    using show_nat_hd by blast
  show ?thesis
  proof (cases "d = 0")
    case False
    then have "hd (show_nat n @ rest) \<noteq> CHR ''0''" using d digit_char_facts(4) [OF d(2)] by simp
    then show ?thesis by (simp add: strtoul0_def number_show ends_number_number [OF assms])
  next
    case True
    with d digit_char_facts(4) [OF d(2)] have "show_nat n = ''0''" "n = 0" by auto
    moreover have "number 8 0 (CHR ''0'' # rest) = (0, rest)"
      using ends_number_number [OF assms] by (simp add: digit_val_def)
    ultimately show ?thesis
      using assms by (auto simp: strtoul0_def ends_number_def split: list.split)
  qed
qed

lemma aton_dot:
  assumes "n < 256"
  shows "aton_loop (Suc k) bs (show_nat n @ CHR ''.'' # t) = aton_loop k (bs @ [n]) t"
proof -
  obtain d u where d: "show_nat n = digit_char d # u" "d < 10" using show_nat_hd by blast
  have "strtoul0 (show_nat n @ CHR ''.'' # t) = (n, CHR ''.'' # t)"
    by (rule strtoul0_show) (simp add: ends_number_def)
  then show ?thesis
    using assms d by (subst aton_loop.simps) (simp add: is_digit_def digit_char_facts)
qed

lemma aton_last:
  assumes "n < 256"
  shows "aton_loop k bs (show_nat n) = Some (bs, n)"
proof -
  obtain d u where d: "show_nat n = digit_char d # u" "d < 10" using show_nat_hd by blast
  have "strtoul0 (show_nat n) = (n, [])"
    using strtoul0_show [of "[]" n] by (simp add: ends_number_def)
  then show ?thesis
    using assms d by (subst aton_loop.simps) (simp add: is_digit_def digit_char_facts)
qed

lemma inet_aton_ntoa: "inet_aton (inet_ntoa a) = Some a"
proof -
  have lt: "unat (b :: u8) < 256" for b using unsigned_less [of b, where ?'a = nat] by simp
  obtain b0 b1 b2 b3 where b: "bytes32 a = [b0, b1, b2, b3]" by (simp add: bytes32_def)
  have "aton_loop 3 [] (inet_ntoa a) = Some ([unat b0, unat b1, unat b2], unat b3)"
  proof -
    have "inet_ntoa a = show_nat (unat b0) @ CHR ''.'' # show_nat (unat b1) @ CHR ''.'' #
        show_nat (unat b2) @ CHR ''.'' # show_nat (unat b3)"
      by (simp add: inet_ntoa_def b)
    then show ?thesis
      by (simp only: numeral_3_eq_3 aton_dot [OF lt] aton_last [OF lt] append.simps)
  qed
  moreover have "le32 b0 b1 b2 0 OR htonl (of_nat (unat b3)) = a"
  proof -
    have "(ucast (drop_bit k (ucast b3 :: u32)) :: u8) = 0" if "8 \<le> k" for k
      by (rule bit_word_eqI) (use that in \<open>auto simp: bit_simps dest: bit_imp_le_length\<close>)
    moreover have "(ucast (ucast b3 :: u32) :: u8) = b3"
      by (rule bit_word_eqI) (simp add: bit_simps)
    ultimately have "htonl (ucast b3) = le32 0 0 0 b3" by (simp add: htonl_def)
    then have "le32 b0 b1 b2 0 OR htonl (ucast b3) = le32 b0 b1 b2 b3"
      by (simp add: le32_def or.assoc)
    also have "\<dots> = a" using le32_of_bytes32 [of a] by (simp add: b)
    finally show ?thesis by simp
  qed
  ultimately show ?thesis using lt [of b3] by (simp add: inet_aton_def)
qed

section \<open>A printed table loads back\<close>

text \<open>Interface names that survive: one word that fits its array.\<close>

definition word_ok :: "string \<Rightarrow> bool" where
  "word_ok w \<longleftrightarrow> w \<noteq> [] \<and> length w < 32 \<and> (\<forall>c \<in> set w. \<not> isspace c \<and> c \<noteq> CHR 0x00)"

lemma split_words_word:
  "\<lbrakk>\<forall>c \<in> set w. \<not> isspace c; cur @ w \<noteq> []; isspace c\<rbrakk> \<Longrightarrow>
   split_words cur (w @ c # rest) = (cur @ w) # split_words [] rest"
  by (induction w arbitrary: cur) auto

lemma isspace_separators [simp]: "isspace tab" "isspace newline"
  by (simp_all add: isspace_def tab_def newline_def)

lemma word_ok_show_nat: "\<forall>c \<in> set (show_nat n). \<not> isspace c \<and> c \<noteq> CHR 0x00"
  by (auto dest!: show_nat_chars simp: digit_char_facts)

lemma word_ok_ntoa: "word_ok (inet_ntoa a)"
proof -
  obtain b0 b1 b2 b3 where b: "bytes32 a = [b0, b1, b2, b3]" by (simp add: bytes32_def)
  have len: "length (show_nat (unat (b :: u8))) \<le> 3" for b
    using unsigned_less [of b, where ?'a = nat] by (intro length_show_nat) simp_all
  have "length (inet_ntoa a) < 32"
    using len [of b0] len [of b1] len [of b2] len [of b3] by (simp add: inet_ntoa_def b)
  moreover have "\<forall>c \<in> set (inet_ntoa a). \<not> isspace c \<and> c \<noteq> CHR 0x00"
  proof -
    have "\<not> isspace (CHR ''.'')" by code_simp
    then show ?thesis using word_ok_show_nat by (simp add: inet_ntoa_def b ball_Un)
  qed
  moreover have "inet_ntoa a \<noteq> []" by (simp add: inet_ntoa_def b)
  ultimately show ?thesis by (simp add: word_ok_def)
qed

lemma split_printed:
  assumes "word_ok a" "word_ok b" "word_ok c" "word_ok d"
  shows "split_words [] (a @ [tab, tab] @ b @ [tab] @ c @ [tab] @ d @ [newline]) = [a, b, c, d]"
  using assms by (simp add: word_ok_def split_words_word)

definition route_ok :: "sr_rt \<Rightarrow> bool" where
  "route_ok rt \<longleftrightarrow> word_ok (rt_interface rt)"

definition file_line :: "sr_rt \<Rightarrow> u8 list" where
  "file_line rt = map char_byte (sr_print_routing_entry rt)"

lemma sscanf_printed:
  assumes "route_ok rt" and "length bufs = 4"
  shows "sscanf_words (sr_print_routing_entry rt) bufs =
    Some [inet_ntoa (rt_dest rt), inet_ntoa (rt_gw rt), inet_ntoa (rt_mask rt), rt_interface rt]"
proof -
  note w = word_ok_ntoa [of "rt_dest rt"] word_ok_ntoa [of "rt_gw rt"] word_ok_ntoa [of "rt_mask rt"]
    assms(1) [unfolded route_ok_def]
  show ?thesis
    unfolding sscanf_words_def sr_print_routing_entry_def split_printed [OF w]
    using w assms(2) by (simp add: word_ok_def)
qed

lemma upto_newline_line:
  "10 \<notin> set l \<Longrightarrow> upto_newline (l @ 10 # rest) = l @ [10]"
  by (induction l) auto

lemma fgets_file_line:
  assumes "route_ok rt"
  shows "fgets BUFSIZ (file_line rt @ rest) = file_line rt" and "c_string (file_line rt) = sr_print_routing_entry rt"
    and "file_line rt \<noteq> []"
proof -
  let ?l = "inet_ntoa (rt_dest rt) @ [tab, tab] @ inet_ntoa (rt_gw rt) @ [tab] @
    inet_ntoa (rt_mask rt) @ [tab] @ rt_interface rt"
  have chars: "\<forall>c \<in> set ?l. c \<noteq> newline \<and> c \<noteq> CHR 0x00"
    using assms word_ok_ntoa isspace_separators
    by (auto simp: route_ok_def word_ok_def tab_def newline_def)
  have "char_byte newline = 10" by (simp add: char_byte_def newline_def)
  then have f: "file_line rt = map char_byte ?l @ [10]"
    by (simp add: file_line_def sr_print_routing_entry_def)
  have "10 \<notin> set (map char_byte ?l)"
  proof
    assume "10 \<in> set (map char_byte ?l)"
    then have "10 \<in> char_byte ` set ?l" by (simp only: set_map)
    then obtain c where "c \<in> set ?l" "char_byte c = char_byte newline"
      unfolding \<open>char_byte newline = 10\<close> by (metis imageE)
    then show False using chars by (metis byte_char_char_byte)
  qed
  moreover have "length (file_line rt) < BUFSIZ"
    using assms word_ok_ntoa [of "rt_dest rt"] word_ok_ntoa [of "rt_gw rt"] word_ok_ntoa [of "rt_mask rt"]
    by (simp add: f route_ok_def word_ok_def BUFSIZ_def)
  ultimately show "fgets BUFSIZ (file_line rt @ rest) = file_line rt"
    by (simp add: fgets_def f upto_newline_line del: map_append)
  have "CHR 0x00 \<notin> set ?l" using chars by blast
  moreover have "newline \<noteq> CHR 0x00" by (simp add: newline_def)
  ultimately have "c_str (sr_print_routing_entry rt)"
    by (simp add: c_str_def sr_print_routing_entry_def)
  then have "takeWhile (\<lambda>b. b \<noteq> 0) (file_line rt) = file_line rt"
    by (auto simp: takeWhile_eq_all_conv file_line_def c_str_def)
  then show "c_string (file_line rt) = sr_print_routing_entry rt"
    unfolding c_string_def by (simp only:) (simp add: file_line_def)
  show "file_line rt \<noteq> []" by (simp add: f)
qed

lemma load_loop_printed:
  assumes "malloc_ok e sizeof_sr_rt" and "\<forall>rt \<in> set rts. route_ok rt" and "length bufs = 4"
  shows "load_loop e sr bufs clr (concat (map file_line rts)) =
    Some (0, sr\<lparr>routing_table := (if clr \<or> rts = [] then routing_table sr else []) @ rts\<rparr>)"
  using assms(2,3)
proof (induction rts arbitrary: sr bufs clr)
  case Nil
  then show ?case by (subst load_loop.simps) (simp add: fgets_def)
next
  case (Cons rt rts)
  have rt: "route_ok rt" "length (rt_interface rt) < 32" using Cons.prems(1) by (simp_all add: route_ok_def word_ok_def)
  let ?bufs = "[inet_ntoa (rt_dest rt), inet_ntoa (rt_gw rt), inet_ntoa (rt_mask rt), rt_interface rt]"
  let ?sr = "(if \<not> clr then sr\<lparr>routing_table := []\<rparr> else sr)"
  have add: "sr_add_rt_entry e ?sr (rt_dest rt) (rt_gw rt) (rt_mask rt) (rt_interface rt) =
      Some (?sr\<lparr>routing_table := routing_table ?sr @ [rt]\<rparr>)"
    using assms(1) rt(2) by (simp add: sr_add_rt_entry_def strncpy_def sr_IFACE_NAMELEN_def)
  have "load_loop e sr bufs clr (concat (map file_line (rt # rts))) =
      load_loop e (?sr\<lparr>routing_table := routing_table ?sr @ [rt]\<rparr>) ?bufs True (concat (map file_line rts))"
    by (subst load_loop.simps)
      (simp add: fgets_file_line [OF rt(1)] sscanf_printed [OF rt(1) Cons.prems(2)] inet_aton_ntoa add Let_def
        del: if_not_P)
  also have "\<dots> = Some (0, ?sr\<lparr>routing_table := routing_table ?sr @ [rt] @ rts\<rparr>)"
    using Cons.IH [of ?bufs "?sr\<lparr>routing_table := routing_table ?sr @ [rt]\<rparr>" True] Cons.prems(1) by simp
  finally show ?case by simp
qed

text \<open>
  The result of \<^verbatim>\<open>sscanf\<close> is not looked at: an empty line leaves the four arrays as the line before
  filled them, so its route is added once more.
\<close>

lemma blank_line_repeats_route:
  assumes "malloc_ok e sizeof_sr_rt" and "route_ok rt" and "length bufs = 4"
  shows "load_loop e sr bufs True (file_line rt @ [10]) = Some (0, sr\<lparr>routing_table := routing_table sr @ [rt, rt]\<rparr>)"
proof -
  let ?bufs = "[inet_ntoa (rt_dest rt), inet_ntoa (rt_gw rt), inet_ntoa (rt_mask rt), rt_interface rt]"
  have len: "length (rt_interface rt) < 32" using assms(2) by (simp add: route_ok_def word_ok_def)
  have add: "sr_add_rt_entry e s (rt_dest rt) (rt_gw rt) (rt_mask rt) (rt_interface rt) =
      Some (s\<lparr>routing_table := routing_table s @ [rt]\<rparr>)" for s
    using assms(1) len by (simp add: sr_add_rt_entry_def strncpy_def sr_IFACE_NAMELEN_def)
  have blank: "fgets BUFSIZ [10] = [10]" "sscanf_words (c_string [10]) ?bufs = Some ?bufs"
    by (simp add: fgets_def BUFSIZ_def) (simp add: c_string_def sscanf_words_def isspace_def byte_char_def)
  have end_of_file: "load_loop e s ?bufs True [] = Some (0, s)" for s
    by (subst load_loop.simps) (simp add: fgets_def)
  have second: "load_loop e s ?bufs True [10] = Some (0, s\<lparr>routing_table := routing_table s @ [rt]\<rparr>)" for s
    by (subst load_loop.simps) (simp add: blank inet_aton_ntoa add end_of_file)
  show ?thesis
    by (subst load_loop.simps)
      (simp add: fgets_file_line [OF assms(2)] sscanf_printed [OF assms(2,3)] inet_aton_ntoa add second)
qed

end
