(* ===== verification/Startup.thy ===== *)
theory Startup
  imports Hwinfo Rt_File
begin

text \<open>
  \<^verbatim>\<open>main\<close> of \<^verbatim>\<open>src/sr_main.c\<close>: options, the first and the second loading of the routing table, the
  log file, the connection, and what state the main loop starts from.
\<close>

section \<open>Options\<close>

record options =
  opt_host :: cstring
  opt_user :: "cstring option"
  opt_server :: cstring
  opt_rtable :: cstring
  opt_template :: "cstring option"
  opt_port :: u32
  opt_topo :: u32
  opt_log :: "cstring option"

definition VERSION_INFO :: cstring where "VERSION_INFO = ''VNS sr stub code revised 2009-10-14 (rev 0.20)''"
definition DEFAULT_PORT :: u32 where "DEFAULT_PORT = 8888"
definition DEFAULT_HOST :: cstring where "DEFAULT_HOST = ''vrhost''"
definition DEFAULT_SERVER :: cstring where "DEFAULT_SERVER = ''localhost''"
definition DEFAULT_RTABLE :: cstring where "DEFAULT_RTABLE = ''rtable''"
definition DEFAULT_TOPO :: u32 where "DEFAULT_TOPO = 0"

definition default_options :: options where
  "default_options =
     \<lparr>opt_host = DEFAULT_HOST, opt_user = None, opt_server = DEFAULT_SERVER, opt_rtable = DEFAULT_RTABLE,
      opt_template = None, opt_port = DEFAULT_PORT, opt_topo = DEFAULT_TOPO, opt_log = None\<rparr>"

text \<open>What is printed first, and the help for option \<^verbatim>\<open>-h\<close>.\<close>

definition version_text :: string where
  "version_text = ''Using '' @ VERSION_INFO @ [newline]"

definition usage :: "cstring \<Rightarrow> string" where
  "usage argv0 =
     ''Simple Router Client'' @ [newline] @
     ''Format: '' @ argv0 @ '' [-h] [-v host] [-s server] [-p port] '' @ [newline] @
     ''           [-T template_name] [-u username] '' @ [newline] @
     ''           [-t topo id] [-r routing table] '' @ [newline] @
     ''           [-l log file] '' @ [newline] @
     ''   defaults server='' @ DEFAULT_SERVER @ '' port='' @ show_nat (unat DEFAULT_PORT) @
     '' host='' @ DEFAULT_HOST @ ''  '' @ [newline]"

text \<open>\<open>main\<close> prints the version, and the help if it comes across the option before the end.\<close>

definition option_text :: "cstring \<Rightarrow> (char \<times> cstring) list \<Rightarrow> string" where
  "option_text argv0 args = version_text @ (if CHR ''h'' \<in> fst ` set args then usage argv0 else [])"

text \<open>\<^verbatim>\<open>atoi\<close>: \<^verbatim>\<open>strtol\<close> in base 10, 64 bits wide, converted to \<^verbatim>\<open>int\<close>.\<close>

definition atoi :: "cstring \<Rightarrow> u32" where
  "atoi s =
     (let s = dropWhile isspace s;
          negative = (s \<noteq> [] \<and> hd s = CHR ''-'');
          s = (if s \<noteq> [] \<and> (hd s = CHR ''-'' \<or> hd s = CHR ''+'') then tl s else s);
          n = int (fst (number 10 0 s));
          n = (if negative then - n else n)
      in word_of_int (max (- (2 ^ 63)) (min (2 ^ 63 - 1) n)))"

text \<open>One result of \<^verbatim>\<open>getopt\<close>: the option letter and its argument. \<open>None\<close>: help, exit 0.\<close>

fun set_option :: "char \<times> cstring \<Rightarrow> options \<Rightarrow> options option" where
  "set_option (c, optarg) opts =
     (if c = CHR ''h'' then None
      else Some (
        if c = CHR ''p'' then opts\<lparr>opt_port := atoi optarg\<rparr>
        else if c = CHR ''t'' then opts\<lparr>opt_topo := atoi optarg\<rparr>
        else if c = CHR ''v'' then opts\<lparr>opt_host := optarg\<rparr>
        else if c = CHR ''u'' then opts\<lparr>opt_user := Some optarg\<rparr>
        else if c = CHR ''s'' then opts\<lparr>opt_server := optarg\<rparr>
        else if c = CHR ''l'' then opts\<lparr>opt_log := Some optarg\<rparr>
        else if c = CHR ''r'' then opts\<lparr>opt_rtable := optarg\<rparr>
        else if c = CHR ''T'' then opts\<lparr>opt_template := Some optarg\<rparr>
        else opts))"

fun getopt_loop :: "(char \<times> cstring) list \<Rightarrow> options \<Rightarrow> options option" where
  "getopt_loop [] opts = Some opts"
| "getopt_loop (a # args) opts = do { opts \<leftarrow> set_option a opts; getopt_loop args opts }"

lemma getopt_loop_help: "getopt_loop args opts = None \<longleftrightarrow> CHR ''h'' \<in> fst ` set args"
  by (induction args arbitrary: opts) (auto simp: bind_eq_None_conv)

section \<open>The instance\<close>

definition sr_init_instance :: "sr_instance \<Rightarrow> sr_instance" where
  "sr_init_instance sr = sr
     \<lparr>sockfd := - 1, user := '''', host := '''', topo_id := 0, if_list := [], routing_table := [],
      logfile := None\<rparr>"

definition sr_set_user :: "os \<Rightarrow> sr_instance \<Rightarrow> sr_instance" where
  "sr_set_user v sr =
     (case pw_name v of
        None \<Rightarrow> sr\<lparr>user := strncpy 32 ''something_silly''\<rparr>
      | Some name \<Rightarrow> sr\<lparr>user := strncpy 32 name\<rparr>)"

text \<open>A start that ends in \<^verbatim>\<open>exit\<close>, waits for the server, or goes on.\<close>

datatype 'a start = Exit int | Starting | Ready 'a

definition sr_load_rt_wrap ::
  "os \<Rightarrow> cstring list \<Rightarrow> (cstring \<Rightarrow> u8 list option) \<Rightarrow> sr_instance \<Rightarrow> cstring \<Rightarrow> sr_instance start option" where
  "sr_load_rt_wrap v bufs fs sr rtable =
     do { (ret, sr) \<leftarrow> sr_load_rt (base v) bufs fs sr rtable;
          Some (if ret \<noteq> 0 then Exit 1 else Ready sr) }"

text \<open>Before the connection; \<open>log_ok\<close> tells whether the log file can be opened.\<close>

definition sr_configure ::
  "os \<Rightarrow> cstring list \<Rightarrow> bool \<Rightarrow> options \<Rightarrow> session \<Rightarrow> sr_instance start option" where
  "sr_configure v bufs log_ok opts ss =
     do { let sr = sr_init_instance (router ss);
          loaded \<leftarrow>
            (case opt_template opts of
               None \<Rightarrow> sr_load_rt_wrap v bufs (files ss) (sr\<lparr>template := ''''\<rparr>) (opt_rtable opts)
             | Some t \<Rightarrow> Some (Ready (sr\<lparr>template := strncpy 30 t\<rparr>)));
          case loaded of
            Ready sr \<Rightarrow>
              (let sr = sr\<lparr>topo_id := ucast (opt_topo opts), host := strncpy 32 (opt_host opts)\<rparr>;
                   sr = (case opt_user opts of
                       None \<Rightarrow> sr_set_user v sr
                     | Some u \<Rightarrow> sr\<lparr>user := strncpy 32 u\<rparr>)
               in case opt_log opts of
                    None \<Rightarrow> Some (Ready sr)
                  | Some f \<Rightarrow>
                      (case sr_dump_open log_ok f 0 (int PACKET_DUMP_SIZE) of
                         None \<Rightarrow> Some (Exit 1)
                       | Some fp \<Rightarrow> Some (Ready (sr\<lparr>logfile := Some fp\<rparr>))))
          | other \<Rightarrow> Some other }"

text \<open>
  \<^verbatim>\<open>main\<close> up to the loop. Both branches after the connection read the file that \<^verbatim>\<open>-r\<close> names: the first
  is taken when that name is \<^verbatim>\<open>rtable.vrhost\<close> and reads \<^verbatim>\<open>rtable.vrhost\<close>. Before the connection the user's name
  is printed; it is not terminated if it fills its array of 32 characters.
\<close>

definition sr_main_start ::
  "os \<Rightarrow> cstring list \<Rightarrow> bool \<Rightarrow> (char \<times> cstring) list \<Rightarrow> session \<Rightarrow> session start option" where
  "sr_main_start v bufs log_ok args ss =
     (case getopt_loop args default_options of
        None \<Rightarrow> Some (Exit 0)
      | Some opts \<Rightarrow> do {
          configured \<leftarrow> sr_configure v bufs log_ok opts ss;
          case configured of
            Exit n \<Rightarrow> Some (Exit n)
          | Starting \<Rightarrow> Some Starting
          | Ready sr \<Rightarrow>
              if 32 \<le> length (user sr) then None else do {
              r \<leftarrow> sr_connect_to_server v (ss\<lparr>router := sr\<rparr>);
              case r of
                Waiting \<Rightarrow> Some Starting
              | Returned (ret, ss) \<Rightarrow>
                  if ret = - 1 then Some (Exit 1)
                  else do {
                    loaded \<leftarrow>
                      (if opt_template opts \<noteq> None \<and> opt_rtable opts = ''rtable.vrhost''
                       then sr_load_rt_wrap v bufs (files ss) (router ss) ''rtable.vrhost''
                       else sr_load_rt_wrap v bufs (files ss) (router ss) (opt_rtable opts));
                    case loaded of
                      Exit n \<Rightarrow> Some (Exit n)
                    | Starting \<Rightarrow> Some Starting
                    | Ready sr \<Rightarrow> Some (Ready (ss\<lparr>router := sr_init sr\<rparr>)) } }})"

section \<open>From the command line to the first packets\<close>

lemma load_printed_file:
  assumes "env_ok (base v)" and "fs f = Some (concat (map file_line tbl))" and "\<forall>rt \<in> set tbl. route_ok rt"
    and "length bufs = 4" and "tbl \<noteq> []"
  shows "sr_load_rt_wrap v bufs fs sr f = Some (Ready (sr\<lparr>routing_table := tbl\<rparr>))"
  using assms load_loop_printed [of "base v" tbl bufs sr False]
  by (simp add: sr_load_rt_wrap_def sr_load_rt_def)

text \<open>The instance as it stands when a template is asked for.\<close>

definition templated :: "cstring \<Rightarrow> cstring \<Rightarrow> sr_instance \<Rightarrow> sr_instance" where
  "templated t u sr = (sr_init_instance sr)
     \<lparr>template := t, topo_id := 0, host := ''vrhost'', user := u\<rparr>"

lemma configure_template:
  assumes "length t < 30" and "length u < 32"
  shows "sr_configure v bufs log_ok (default_options\<lparr>opt_template := Some t, opt_rtable := r, opt_user := Some u\<rparr>) ss =
    Some (Ready (templated t u (router ss)))"
  using assms by (simp add: sr_configure_def templated_def default_options_def DEFAULT_TOPO_def DEFAULT_HOST_def
      strncpy_def Let_def)

definition template_args :: "cstring \<Rightarrow> cstring \<Rightarrow> cstring \<Rightarrow> (char \<times> cstring) list" where
  "template_args t r u = [(CHR ''T'', t), (CHR ''r'', r), (CHR ''u'', u)]"

lemma getopt_template:
  "getopt_loop (template_args t r u) default_options =
    Some (default_options\<lparr>opt_template := Some t, opt_rtable := r, opt_user := Some u\<rparr>)"
  by (simp add: template_args_def)

lemma main_start_template:
  assumes v: "os_ok v" and net: "host_found v" "0 \<le> socket_fd v" "0 \<le> connect_ret v"
    and s: "Failed \<notin> set (sock_in ss)"
      "stream_data (sock_in ss) = handshake salt ok msg @
         vns_msg VNS_RTABLE (strncpy_field 32 vid @ concat (map file_line tbl)) @ rest" "ok \<noteq> 0"
    and l: "length salt \<le> 9992" "length msg \<le> 9991"
    and f: "files ss ''auth_key'' = Some content" "content \<noteq> []"
    and o: "t \<noteq> []" "length t < 30" "length u < 32" "length bufs = 4"
    and vid: "c_str vid" "length vid < 32" "can_write v (''rtable.'' @ vid)"
    and tbl: "\<forall>rt \<in> set tbl. route_ok rt" "tbl \<noteq> []" "length (concat (map file_line tbl)) \<le> 9960"
  obtains es where "Failed \<notin> set es" and "stream_data es = rest"
    and "sr_main_start v bufs log_ok (template_args t (''rtable.'' @ vid) u) ss =
      Some (Ready (ss\<lparr>sock_in := es,
        router := sr_init ((opened v content salt (templated t u (router ss)))\<lparr>routing_table := tbl\<rparr>),
        files := (files ss)(''rtable.'' @ vid \<mapsto> concat (map file_line tbl))\<rparr>))"
proof -
  let ?r = "''rtable.'' @ vid" and ?text = "concat (map file_line tbl)"
  let ?sr = "templated t u (router ss)"
  obtain es where es: "sr_connect_to_server v (ss\<lparr>router := ?sr\<rparr>) = Some (Returned (0, ss\<lparr>sock_in := es,
      router := opened v content salt ?sr, files := (files ss)(?r \<mapsto> ?text)\<rparr>))"
    "Failed \<notin> set es" "stream_data es = rest"
    using connect_opens_template [OF v net, of "ss\<lparr>router := ?sr\<rparr>" salt ok msg vid ?text rest content]
      s l f o vid tbl(3) by (auto simp: templated_def)
  have load: "sr_load_rt_wrap v bufs ((files ss)(?r \<mapsto> ?text)) sr ?r = Some (Ready (sr\<lparr>routing_table := tbl\<rparr>))" for sr
    by (rule load_printed_file) (use v tbl o in \<open>simp_all add: os_ok_def\<close>)
  have load': "?r = ''rtable.vrhost'' \<Longrightarrow>
      sr_load_rt_wrap v bufs ((files ss)(?r \<mapsto> ?text)) sr ''rtable.vrhost'' = Some (Ready (sr\<lparr>routing_table := tbl\<rparr>))" for sr
    using load [of sr] by (simp only:)
  have named: "\<not> 32 \<le> length (user ?sr)" using o(3) by (simp add: templated_def)
  have "sr_main_start v bufs log_ok (template_args t ?r u) ss =
      Some (Ready (ss\<lparr>sock_in := es, router := sr_init ((opened v content salt ?sr)\<lparr>routing_table := tbl\<rparr>),
        files := (files ss)(?r \<mapsto> ?text)\<rparr>))"
    unfolding sr_main_start_def getopt_template option.case configure_template [OF o(2,3)]
      Option.bind.bind_lunit start.case if_not_P [OF named] es(1) wait.case prod.case
    using load load' by (cases "?r = ''rtable.vrhost''") (simp_all del: append_Cons append_Nil append.simps)
  with es(2,3) show ?thesis using that by blast
qed

text \<open>The router with which the main loop starts.\<close>

definition started :: "os \<Rightarrow> u8 list \<Rightarrow> u8 list \<Rightarrow> cstring \<Rightarrow> cstring \<Rightarrow> sr_rt list \<Rightarrow> sr_instance \<Rightarrow> sr_instance" where
  "started v content salt t u tbl sr =
     sr_init ((opened v content salt (templated t u sr))\<lparr>routing_table := tbl\<rparr>)"

lemma started_simps [simp]:
  "if_list (started v content salt t u tbl sr) = []"
  "routing_table (started v content salt t u tbl sr) = tbl"
  "cache (started v content salt t u tbl sr) = sr_arpcache_init"
  by (simp_all add: started_def sr_init_def opened_def authenticated_def templated_def sr_init_instance_def Let_def)

lemma hw_ifaces_names: "\<forall>x \<in> set xs. hw_ok x \<Longrightarrow> i \<in> set (hw_ifaces v k xs) \<Longrightarrow> c_str (if_name i)"
proof (induction xs arbitrary: k)
  case (Cons x xs)
  then show ?case by (cases x) (auto simp: c_str_def dest: in_set_takeD)
qed simp

text \<open>With the announced interfaces it is a running router.\<close>

lemma started_running:
  assumes "\<forall>x \<in> set xs. hw_ok x" and "\<forall>rt \<in> set tbl. route_ok rt"
  shows "running (add_ifaces (hw_ifaces v k xs) (started v content salt t u tbl sr))"
proof -
  let ?sr = "add_ifaces (hw_ifaces v k xs) (started v content salt t u tbl sr)"
  have "names_ok ?sr"
    using assms hw_ifaces_names [OF assms(1)]
    by (auto simp: names_ok_def add_ifaces_def route_ok_def word_ok_def c_str_def)
  moreover have "sr_init ?sr = ?sr" by (simp add: sr_init_def add_ifaces_def started_def)
  ultimately show ?thesis using running_init [of ?sr] by simp
qed

end
