(* ===== verification/Concurrency.thy ===== *)
theory Concurrency
  imports System
begin

text \<open>
  The two threads of the program. \<^verbatim>\<open>sr_init\<close> starts the timer thread
  (\<^verbatim>\<open>sr_arpcache_timeout\<close> of \<^verbatim>\<open>src/sr_arpcache.c\<close>) beside the one that receives packets; they
  share the cache and its lock. Here the two operations of \<^verbatim>\<open>src/sr_router.c\<close> that use the cache
  more than once, \<^verbatim>\<open>sr_send_routed_ip_packet\<close> and \<^verbatim>\<open>sr_cache_arp_mapping\<close>, are split where the
  lock is taken and released and where a request is read and written without the lock; the timer is split into the start of a round, one visit of the
  sweep at a time, and its end. A schedule says which thread moves next.
\<close>

section \<open>Operations\<close>

text \<open>
  Where the receiving thread stands in \<^verbatim>\<open>sr_send_routed_ip_packet\<close>: before the route lookup,
  before \<^verbatim>\<open>sr_arpcache_lookup\<close>, before sending to a known address, before
  \<^verbatim>\<open>sr_arpcache_queuereq\<close>, and then before each of the accesses to the request at the address it
  returned. In \<^verbatim>\<open>sr_cache_arp_mapping\<close>: before \<^verbatim>\<open>sr_arpcache_insert\<close>, and in the loop with the
  packets still to be sent, at the end of which it calls \<^verbatim>\<open>sr_arpreq_destroy\<close>.
\<close>

datatype send_pc =
    Start "u8 list" nat
  | Resolve "u8 list" nat sr_if u32
  | Deliver "u8 list" nat sr_if sr_arpentry
  | Enqueue "u8 list" nat sr_if u32
  | Check nat sr_if
  | Ask nat sr_if
  | Stamp nat
  | Count nat
  | Learn sr_arp_hdr
  | Flush mac "sr_packet list" nat
  | Done

text \<open>The timer thread sleeps, or holds the lock and is about to visit the given request.\<close>

datatype timer_pc = is_Asleep: Asleep | Sweeping env "nat option"

lemma is_Asleep_iff [simp]: "is_Asleep t \<longleftrightarrow> t = Asleep"
  by (cases t) simp_all

record threads =
  th_sr :: sr_instance
  th_send :: send_pc
  th_timer :: timer_pc

definition send_start :: "env \<Rightarrow> sr_instance \<Rightarrow> u8 list \<Rightarrow> nat \<Rightarrow> send_pc option" where
  "send_start e sr packet len =
     do { ip_hdr \<leftarrow> ld_ip packet 14;
          (case sr_find_lpm_route sr (ip_dst ip_hdr) of
             None \<Rightarrow> Some Done
           | Some route \<Rightarrow>
             (case sr_get_interface sr (rt_interface route) of
                None \<Rightarrow> Some Done
              | Some out_iface \<Rightarrow>
                if \<not> malloc_ok e len then Some Done
                else do {
                  forwarded_packet \<leftarrow> load packet 0 len;
                  eth_hdr \<leftarrow> ld_eth forwarded_packet 0;
                  forwarded_packet \<leftarrow> st_eth forwarded_packet 0
                    (eth_hdr\<lparr>ether_shost := if_addr out_iface\<rparr>);
                  Some (Resolve forwarded_packet len out_iface
                    (if rt_gw route \<noteq> 0 then rt_gw route else ip_dst ip_hdr)) })) }"

definition send_step :: "env \<Rightarrow> sr_instance \<Rightarrow> send_pc \<Rightarrow> (sr_instance \<times> send_pc) option" where
  "send_step e sr pc =
     (case pc of
        Start packet len \<Rightarrow> do { pc \<leftarrow> send_start e sr packet len; Some (sr, pc) }
      | Resolve forwarded_packet len out_iface next_hop_ip \<Rightarrow>
          do { entry \<leftarrow> sr_arpcache_lookup e (cache sr) next_hop_ip;
               Some (sr, case entry of
                   Some en \<Rightarrow> Deliver forwarded_packet len out_iface en
                 | None \<Rightarrow> Enqueue forwarded_packet len out_iface next_hop_ip) }
      | Deliver forwarded_packet len out_iface en \<Rightarrow>
          do { eth_hdr \<leftarrow> ld_eth forwarded_packet 0;
               forwarded_packet \<leftarrow> st_eth forwarded_packet 0
                 (eth_hdr\<lparr>ether_dhost := ent_mac en, ether_shost := if_addr out_iface\<rparr>);
               (_, sr) \<leftarrow> sr_send_packet e sr forwarded_packet len (if_name out_iface);
               Some (sr, Done) }
      | Enqueue forwarded_packet len out_iface next_hop_ip \<Rightarrow>
          do { (req, c) \<leftarrow> sr_arpcache_queuereq e (cache sr) next_hop_ip
                 forwarded_packet len (if_name out_iface);
               Some (sr\<lparr>cache := c\<rparr>, Check req out_iface) }
      | Check req out_iface \<Rightarrow>
          do { r \<leftarrow> deref_req (cache sr) req;
               Some (sr, if req_times_sent r = 0 then Ask req out_iface else Done) }
      | Ask req out_iface \<Rightarrow>
          do { r \<leftarrow> deref_req (cache sr) req;
               sr \<leftarrow> sr_send_arp_request e sr (req_ip r) (if_name out_iface);
               Some (sr, Stamp req) }
      | Stamp req \<Rightarrow>
          do { _ \<leftarrow> deref_req (cache sr) req;
               Some (sr\<lparr>cache := update_req req (\<lambda>r. r\<lparr>req_sent := now e\<rparr>) (cache sr)\<rparr>, Count req) }
      | Count req \<Rightarrow>
          do { _ \<leftarrow> deref_req (cache sr) req;
               Some (sr\<lparr>cache := update_req req
                 (\<lambda>r. r\<lparr>req_times_sent := req_times_sent r + 1\<rparr>) (cache sr)\<rparr>, Done) }
      | Learn arp_hdr \<Rightarrow>
          (let (req, c) = sr_arpcache_insert e (cache sr) (ar_sha arp_hdr) (ar_sip arp_hdr)
           in Some (sr\<lparr>cache := c\<rparr>,
                case req of None \<Rightarrow> Done
                | Some req \<Rightarrow> Flush (ar_sha arp_hdr) (req_packets req) (req_self req)))
      | Flush sha [] req \<Rightarrow> Some (sr\<lparr>cache := sr_arpreq_destroy (cache sr) req\<rparr>, Done)
      | Flush sha (queued_pkt # rest) req \<Rightarrow>
          do { sr \<leftarrow> flush_packets e sr sha [queued_pkt]; Some (sr, Flush sha rest req) }
      | Done \<Rightarrow> Some (sr, Done))"

text \<open>The calls that take the lock; the receiving thread waits before them while the timer has it.\<close>

fun needs_lock :: "send_pc \<Rightarrow> bool" where
  "needs_lock (Resolve p len i ip) = True"
| "needs_lock (Enqueue p len i ip) = True"
| "needs_lock (Learn arp_hdr) = True"
| "needs_lock (Flush sha [] req) = True"
| "needs_lock pc = False"

definition first_req :: "sr_arpcache \<Rightarrow> nat option" where
  "first_req c = (case requests c of [] \<Rightarrow> None | r # _ \<Rightarrow> Some (req_self r))"

fun timer_step :: "env \<Rightarrow> sr_instance \<Rightarrow> timer_pc \<Rightarrow> (sr_instance \<times> timer_pc) option" where
  "timer_step e sr Asleep =
     (let sr = sr\<lparr>cache := expire_entries (now e) (cache sr)\<rparr>
      in Some (sr, Sweeping e (first_req (cache sr))))"
| "timer_step e sr (Sweeping e0 (Some req)) =
     do { let nxt = next_req (requests (cache sr)) req;
          sr \<leftarrow> sweep_req e0 sr req;
          Some (sr, Sweeping e0 nxt) }"
| "timer_step e sr (Sweeping e0 None) = Some (sr, Asleep)"

datatype turn = Receiver env | Timer env

fun take_turn :: "turn \<Rightarrow> threads \<Rightarrow> threads option" where
  "take_turn (Receiver e) s =
     (if needs_lock (th_send s) \<and> \<not> is_Asleep (th_timer s) then Some s
      else do { (sr, pc) \<leftarrow> send_step e (th_sr s) (th_send s);
                Some (s\<lparr>th_sr := sr, th_send := pc\<rparr>) })"
| "take_turn (Timer e) s =
     do { (sr, tm) \<leftarrow> timer_step e (th_sr s) (th_timer s);
          Some (s\<lparr>th_sr := sr, th_timer := tm\<rparr>) }"

fun schedule :: "turn list \<Rightarrow> threads \<Rightarrow> threads option" where
  "schedule [] s = Some s"
| "schedule (t # turns) s = do { s \<leftarrow> take_turn t s; schedule turns s }"

fun turn_ok :: "turn \<Rightarrow> bool" where
  "turn_ok (Receiver e) = env_ok e"
| "turn_ok (Timer e) = env_ok e"

abbreviation sending :: "sr_instance \<Rightarrow> u8 list \<Rightarrow> nat \<Rightarrow> threads" where
  "sending sr packet len \<equiv> \<lparr>th_sr = sr, th_send = Start packet len, th_timer = Asleep\<rparr>"

abbreviation answering :: "sr_instance \<Rightarrow> sr_arp_hdr \<Rightarrow> threads" where
  "answering sr arp_hdr \<equiv> \<lparr>th_sr = sr, th_send = Learn arp_hdr, th_timer = Asleep\<rparr>"

section \<open>Undisturbed, the pieces make up the operation\<close>

lemma schedule_append: "schedule (turns @ more_turns) s = schedule turns s \<bind> schedule more_turns"
proof (induction turns arbitrary: s)
  case (Cons t turns)
  then show ?case by (cases "take_turn t s") simp_all
qed simp

lemma schedule_done:
  "schedule (replicate n (Receiver e)) \<lparr>th_sr = sr, th_send = Done, th_timer = Asleep\<rparr> =
   Some \<lparr>th_sr = sr, th_send = Done, th_timer = Asleep\<rparr>"
  by (induction n) (simp_all add: send_step_def)

lemma send_arp_request_cache_same:
  "sr_send_arp_request e sr ip name = Some sr' \<Longrightarrow> cache sr' = cache sr"
  by (auto simp: sr_send_arp_request_def Let_def bind_eq_Some_conv split: option.splits if_splits
      dest: sr_send_packet_frame)

lemma update_req_twice:
  "keeps_id f \<Longrightarrow> update_req a g (update_req a f c) = update_req a (g \<circ> f) c"
  by (simp add: update_req_def keeps_id_def cong: if_cong)

lemma mark_in_two: "(\<lambda>r. r\<lparr>req_times_sent := req_times_sent r + 1\<rparr>) \<circ> (\<lambda>r. r\<lparr>req_sent := now e\<rparr>) = mark_sent e"
  by (rule ext) (simp add: mark_sent_def)

lemma ask_in_steps:
  assumes r: "deref_req (cache sr) a = Some r"
  shows "schedule (replicate 3 (Receiver e)) \<lparr>th_sr = sr, th_send = Ask a i, th_timer = Asleep\<rparr> =
    map_option (\<lambda>sr. \<lparr>th_sr = sr, th_send = Done, th_timer = Asleep\<rparr>)
      (do { sr \<leftarrow> sr_send_arp_request e sr (req_ip r) (if_name i);
            Some (sr\<lparr>cache := update_req a (mark_sent e) (cache sr)\<rparr>) })"
proof (cases "sr_send_arp_request e sr (req_ip r) (if_name i)")
  case None
  with r show ?thesis by (simp add: send_step_def numeral_3_eq_3)
next
  case (Some sr1)
  then have "cache sr1 = cache sr" by (rule send_arp_request_cache_same)
  moreover have k: "keeps_id (\<lambda>r. r\<lparr>req_sent := now e\<rparr>)" by auto
  ultimately show ?thesis
    using r Some by (simp add: send_step_def numeral_3_eq_3 deref_req_update [OF k] update_req_twice [OF k]
        mark_in_two)
qed

lemma check_in_steps:
  assumes r: "deref_req (cache sr) a = Some r"
  shows "schedule (replicate 4 (Receiver e)) \<lparr>th_sr = sr, th_send = Check a i, th_timer = Asleep\<rparr> =
    map_option (\<lambda>sr. \<lparr>th_sr = sr, th_send = Done, th_timer = Asleep\<rparr>)
      (if req_times_sent r = 0 then
         do { sr \<leftarrow> sr_send_arp_request e sr (req_ip r) (if_name i);
              Some (sr\<lparr>cache := update_req a (mark_sent e) (cache sr)\<rparr>) }
       else Some sr)"
proof -
  have four: "replicate 4 x = x # replicate 3 x" for x :: turn by (simp add: numeral_eq_Suc)
  show ?thesis
    using r ask_in_steps [OF r, of e i] schedule_done [of 3 e sr] unfolding four
    by (simp add: send_step_def)
qed


definition finished :: "sr_instance \<Rightarrow> threads" where
  "finished sr = \<lparr>th_sr = sr, th_send = Done, th_timer = Asleep\<rparr>"

lemma enqueue_in_steps:
  "schedule (replicate 5 (Receiver e)) \<lparr>th_sr = sr, th_send = Enqueue p len i nh, th_timer = Asleep\<rparr> =
    map_option finished
      (do { (req, c) \<leftarrow> sr_arpcache_queuereq e (cache sr) nh p len (if_name i);
            let sr = sr\<lparr>cache := c\<rparr>;
            r \<leftarrow> deref_req c req;
            if req_times_sent r = 0 then
              do { sr \<leftarrow> sr_send_arp_request e sr (req_ip r) (if_name i);
                   Some (sr\<lparr>cache := update_req req (mark_sent e) (cache sr)\<rparr>) }
            else Some sr })"
proof (cases "sr_arpcache_queuereq e (cache sr) nh p len (if_name i)")
  case None
  then show ?thesis by (simp add: numeral_eq_Suc send_step_def)
next
  case (Some res)
  obtain a c where res: "res = (a, c)" by (cases res)
  have five: "replicate 5 x = x # replicate 4 x" for x :: turn by (simp add: numeral_eq_Suc)
  have four: "replicate 4 x = x # replicate 3 x" for x :: turn by (simp add: numeral_eq_Suc)
  show ?thesis
  proof (cases "deref_req c a")
    case None
    with Some res show ?thesis by (simp add: five four send_step_def)
  next
    case r: (Some r)
    then have "deref_req (cache (sr\<lparr>cache := c\<rparr>)) a = Some r" by simp
    from check_in_steps [OF this, of e i] Some res r show ?thesis
      unfolding five finished_def [abs_def] by (simp add: send_step_def)
  qed
qed

lemma resolve_in_steps:
  "schedule (replicate 6 (Receiver e)) \<lparr>th_sr = sr, th_send = Resolve p len i nh, th_timer = Asleep\<rparr> =
    map_option finished
      (do { entry \<leftarrow> sr_arpcache_lookup e (cache sr) nh;
            (case entry of
               Some en \<Rightarrow>
                 do { eth_hdr \<leftarrow> ld_eth p 0;
                      p \<leftarrow> st_eth p 0 (eth_hdr\<lparr>ether_dhost := ent_mac en, ether_shost := if_addr i\<rparr>);
                      (_, sr) \<leftarrow> sr_send_packet e sr p len (if_name i);
                      Some sr }
             | None \<Rightarrow>
                 do { (req, c) \<leftarrow> sr_arpcache_queuereq e (cache sr) nh p len (if_name i);
                      let sr = sr\<lparr>cache := c\<rparr>;
                      r \<leftarrow> deref_req c req;
                      if req_times_sent r = 0 then
                        do { sr \<leftarrow> sr_send_arp_request e sr (req_ip r) (if_name i);
                             Some (sr\<lparr>cache := update_req req (mark_sent e) (cache sr)\<rparr>) }
                      else Some sr }) })"
proof -
  have six: "replicate 6 x = x # replicate 5 x" for x :: turn by (simp add: numeral_eq_Suc)
  have five: "replicate 5 x = x # replicate 4 x" for x :: turn by (simp add: numeral_eq_Suc)
  have deliver: "schedule (replicate 5 (Receiver e))
      \<lparr>th_sr = sr, th_send = Deliver p len i en, th_timer = Asleep\<rparr> =
    map_option finished
      (do { eth_hdr \<leftarrow> ld_eth p 0;
            p \<leftarrow> st_eth p 0 (eth_hdr\<lparr>ether_dhost := ent_mac en, ether_shost := if_addr i\<rparr>);
            (_, sr) \<leftarrow> sr_send_packet e sr p len (if_name i);
            Some sr })" for en
    using schedule_done [of 4 e] unfolding five
    by (auto simp: send_step_def finished_def split: Option.bind_splits)
  show ?thesis
    unfolding six
    by (cases "sr_arpcache_lookup e (cache sr) nh")
      (simp_all add: send_step_def deliver enqueue_in_steps split: option.split)
qed

text \<open>Seven turns are enough for the whole operation.\<close>

lemma send_in_steps:
  "schedule (replicate 7 (Receiver e)) (sending sr packet len) =
   map_option finished (sr_send_routed_ip_packet e sr packet len)"
proof -
  have seven: "replicate 7 x = x # replicate 6 x" for x :: turn by (simp add: numeral_eq_Suc)
  have fin: "schedule (replicate 6 (Receiver e)) \<lparr>th_sr = sr, th_send = Done, th_timer = Asleep\<rparr> =
     Some (finished sr)" for sr by (simp add: schedule_done finished_def)
  show ?thesis
    unfolding seven
    by (cases "ld_ip packet 14"; cases "load packet 0 len")
      (auto simp: send_step_def send_start_def sr_send_routed_ip_packet_def fin resolve_in_steps
        simp del: replicate_0 split: option.split Option.bind_split)
qed

lemma flush_in_steps:
  "schedule (replicate (Suc (length qs)) (Receiver e)) \<lparr>th_sr = sr, th_send = Flush sha qs a, th_timer = Asleep\<rparr> =
   map_option finished
     (do { sr \<leftarrow> flush_packets e sr sha qs;
           Some (sr\<lparr>cache := sr_arpreq_destroy (cache sr) a\<rparr>) })"
proof (induction qs arbitrary: sr)
  case Nil
  show ?case by (simp add: send_step_def finished_def)
next
  case (Cons q qs)
  have one: "flush_packets e sr sha (q # qs) = flush_packets e sr sha [q] \<bind> (\<lambda>sr. flush_packets e sr sha qs)"
    by (simp add: bind_assoc)
  have step: "take_turn (Receiver e) \<lparr>th_sr = sr, th_send = Flush sha (q # qs) a, th_timer = Asleep\<rparr> =
      map_option (\<lambda>sr. \<lparr>th_sr = sr, th_send = Flush sha qs a, th_timer = Asleep\<rparr>) (flush_packets e sr sha [q])"
    by (cases "flush_packets e sr sha [q]") (simp_all add: send_step_def del: flush_packets.simps)
  show ?case
    unfolding one using Cons.IH
    by (cases "flush_packets e sr sha [q]") (simp_all add: step del: take_turn.simps flush_packets.simps)
qed

definition turns_for :: "sr_instance \<Rightarrow> u32 \<Rightarrow> nat" where
  "turns_for sr ip =
     (case find_req (requests (cache sr)) ip of None \<Rightarrow> 1 | Some r \<Rightarrow> Suc (Suc (length (req_packets r))))"

lemma answer_in_steps:
  "schedule (replicate (turns_for sr (ar_sip arp_hdr)) (Receiver e)) (answering sr arp_hdr) =
   map_option finished (sr_cache_arp_mapping e sr arp_hdr)"
proof -
  let ?ins = "sr_arpcache_insert e (cache sr) (ar_sha arp_hdr) (ar_sip arp_hdr)"
  have step: "take_turn (Receiver e) (answering sr arp_hdr) =
      Some \<lparr>th_sr = sr\<lparr>cache := snd ?ins\<rparr>,
        th_send = (case fst ?ins of None \<Rightarrow> Done | Some r \<Rightarrow> Flush (ar_sha arp_hdr) (req_packets r) (req_self r)),
        th_timer = Asleep\<rparr>"
    by (simp add: send_step_def split_beta)
  have fst: "fst ?ins = find_req (requests (cache sr)) (ar_sip arp_hdr)" by (simp add: insert_requests)
  show ?thesis
  proof (cases "find_req (requests (cache sr)) (ar_sip arp_hdr)")
    case None
    with step fst show ?thesis
      by (simp add: turns_for_def sr_cache_arp_mapping_def split_beta finished_def del: take_turn.simps)
  next
    case (Some r)
    have "replicate (Suc (Suc n)) x = x # replicate (Suc n) x" for n and x :: turn by simp
    with step fst Some flush_in_steps [of "req_packets r" e _ "ar_sha arp_hdr" "req_self r"] show ?thesis
      by (simp add: turns_for_def sr_cache_arp_mapping_def split_beta
          del: take_turn.simps flush_packets.simps replicate.simps)
  qed
qed

end
