(* ===== verification/Unasked.thy ===== *)
theory Unasked
  imports Concurrency "HOL-Library.Sublist"
begin

text \<open>
  While a packet is being sent, the queue may hold a request that nobody has asked for yet, and
  the timer thread may come upon it. The lemmas of theory \<open>Sweep\<close> are extended to such queues:
  what sending and one visit of the sweep do to them.
\<close>

section \<open>Queues with requests nobody has asked for yet\<close>

definition asked_but :: "u32 \<Rightarrow> nat set \<Rightarrow> sr_arpcache \<Rightarrow> bool" where
  "asked_but m B c \<longleftrightarrow>
     (\<forall>r \<in> set (requests c). req_packets r \<noteq> [] \<and> req_times_sent r \<le> m \<and>
        (req_self r \<notin> B \<longrightarrow> 1 \<le> req_times_sent r))"

definition running_but :: "u32 \<Rightarrow> nat set \<Rightarrow> sr_instance \<Rightarrow> bool" where
  "running_but m B sr \<longleftrightarrow> router_inv sr \<and> names_ok sr \<and> asked_but m B (cache sr)"

lemma running_but_none: "running_but 5 {} sr \<longleftrightarrow> running sr"
  by (auto simp: running_but_def running_def asked_but_def asked_def)

text \<open>A request that was there before: it may have received packets, and been asked for a first time.\<close>

definition aged :: "sr_arpreq \<Rightarrow> sr_arpreq \<Rightarrow> bool" where
  "aged r r' \<longleftrightarrow>
     req_self r' = req_self r \<and> req_ip r' = req_ip r \<and> (\<exists>new. req_packets r' = new @ req_packets r) \<and>
     (req_times_sent r' = req_times_sent r \<or> req_times_sent r = 0 \<and> req_times_sent r' = 1)"

definition grown :: "sr_arpcache \<Rightarrow> sr_arpcache \<Rightarrow> bool" where
  "grown c c' \<longleftrightarrow>
     next_addr c \<le> next_addr c' \<and>
     (\<exists>new old. requests c' = new @ old \<and> list_all2 aged (requests c) old \<and>
        (\<forall>r \<in> set new. next_addr c \<le> req_self r \<and> req_packets r \<noteq> [] \<and> req_times_sent r = 1))"

lemma grownI:
  "next_addr c \<le> next_addr c' \<Longrightarrow> requests c' = new @ old \<Longrightarrow> list_all2 aged (requests c) old \<Longrightarrow>
   (\<And>r. r \<in> set new \<Longrightarrow> next_addr c \<le> req_self r \<and> req_packets r \<noteq> [] \<and> req_times_sent r = 1) \<Longrightarrow>
   grown c c'"
  unfolding grown_def by blast

lemma aged_refl [simp]: "aged r r"
  by (simp add: aged_def)

lemma aged_trans: "aged a b \<Longrightarrow> aged b c \<Longrightarrow> aged a c"
  by (fastforce simp: aged_def)

lemma grown_refl [simp]: "grown c c"
  by (rule grownI [where new = "[]" and old = "requests c"]) (simp_all add: list_all2_same)

lemma list_all2_aged_self: "list_all2 aged xs ys \<Longrightarrow> map req_self ys = map req_self xs"
  by (induction rule: list_all2_induct) (simp_all add: aged_def)

lemma list_all2_aged_before: "list_all2 aged xs ys \<Longrightarrow> y \<in> set ys \<Longrightarrow> \<exists>x \<in> set xs. aged x y"
  by (induction rule: list_all2_induct) auto

lemma list_all2_aged_after: "list_all2 aged xs ys \<Longrightarrow> x \<in> set xs \<Longrightarrow> \<exists>y \<in> set ys. aged x y"
  by (induction rule: list_all2_induct) auto

lemma grown_trans:
  assumes "grown a b" and "grown b c"
  shows "grown a c"
proof -
  obtain n1 o1 where b: "requests b = n1 @ o1" "list_all2 aged (requests a) o1"
      "\<forall>r \<in> set n1. next_addr a \<le> req_self r \<and> req_packets r \<noteq> [] \<and> req_times_sent r = 1"
    using assms(1) by (auto simp: grown_def)
  obtain n2 o2 where c: "requests c = n2 @ o2" "list_all2 aged (requests b) o2"
      "\<forall>r \<in> set n2. next_addr b \<le> req_self r \<and> req_packets r \<noteq> [] \<and> req_times_sent r = 1"
    using assms(2) by (auto simp: grown_def)
  obtain u v where uv: "o2 = u @ v" "list_all2 aged n1 u" "list_all2 aged o1 v"
    using c(2) unfolding b(1) by (auto simp: list_all2_append1)
  have le: "next_addr a \<le> next_addr b" "next_addr b \<le> next_addr c" using assms by (auto simp: grown_def)
  have u: "next_addr a \<le> req_self r \<and> req_packets r \<noteq> [] \<and> req_times_sent r = 1" if "r \<in> set u" for r
  proof -
    obtain r1 where "r1 \<in> set n1" "aged r1 r" using list_all2_aged_before [OF uv(2)] \<open>r \<in> set u\<close> by blast
    with b(3) show ?thesis by (fastforce simp: aged_def)
  qed
  show ?thesis
  proof (rule grownI)
    show "requests c = (n2 @ u) @ v" using c(1) uv(1) by simp
    show "list_all2 aged (requests a) v"
      by (rule list_all2_trans [OF _ b(2) uv(3)]) (rule aged_trans)
    show "next_addr a \<le> req_self r \<and> req_packets r \<noteq> [] \<and> req_times_sent r = 1" if "r \<in> set (n2 @ u)" for r
      using that u c(3) le order_trans by auto
  qed (use le in simp)
qed

lemma grown_open: "grown c (open_request e c ip pkt)"
  by (rule grownI [where new = "take 1 (requests (open_request e c ip pkt))" and old = "requests c"])
    (simp_all add: open_request_def list_all2_same)

lemma grown_update_req:
  assumes "\<And>r. r \<in> set (requests c) \<Longrightarrow> req_self r = a \<Longrightarrow> aged r (f r)"
  shows "grown c (update_req a f c)"
  by (rule grownI [where new = "[]"])
    (use assms in \<open>auto simp: update_req_def list_all2_map2 intro!: list_all2_same [THEN iffD2]\<close>)

lemma aged_add_packet [simp]: "aged r (add_packet pkt r)"
  by (simp add: aged_def add_packet_def exI [of _ "[pkt]"])

text \<open>Every request of the grown queue is a new one or an old one, aged; and no old one is lost.\<close>

lemma grown_before:
  assumes "grown c c'" and "r' \<in> set (requests c')"
  shows "(\<exists>r \<in> set (requests c). aged r r') \<or>
    next_addr c \<le> req_self r' \<and> req_packets r' \<noteq> [] \<and> req_times_sent r' = 1"
proof -
  obtain new old where c': "requests c' = new @ old" "list_all2 aged (requests c) old"
      "\<forall>r \<in> set new. next_addr c \<le> req_self r \<and> req_packets r \<noteq> [] \<and> req_times_sent r = 1"
    using assms(1) by (auto simp: grown_def)
  with assms(2) list_all2_aged_before [OF c'(2)] show ?thesis by auto
qed

lemma grown_after:
  assumes "grown c c'" and "r \<in> set (requests c)"
  shows "\<exists>r' \<in> set (requests c'). aged r r'"
  using assms list_all2_aged_after unfolding grown_def by fastforce

lemma asked_but_grown:
  assumes "asked_but m B c" and "grown c c'" and "5 \<le> m"
  shows "asked_but m B c'"
  unfolding asked_but_def
proof
  fix r' assume r': "r' \<in> set (requests c')"
  have one: "1 \<le> m" using assms(3) by (rule order_trans [rotated]) simp
  from grown_before [OF assms(2) r'] consider r where "r \<in> set (requests c)" "aged r r'"
    | "req_packets r' \<noteq> []" "req_times_sent r' = 1" by blast
  then show "req_packets r' \<noteq> [] \<and> req_times_sent r' \<le> m \<and> (req_self r' \<notin> B \<longrightarrow> 1 \<le> req_times_sent r')"
  proof cases
    case 1
    with assms(1) have "req_packets r \<noteq> []" "req_times_sent r \<le> m" "req_self r \<notin> B \<longrightarrow> 1 \<le> req_times_sent r"
      by (auto simp: asked_but_def)
    with 1(2) one show ?thesis by (auto simp: aged_def)
  qed (simp add: one)
qed

text \<open>Sending to a next hop whose request nobody has asked for yet: it is asked for now.\<close>

lemma send_routed_unasked:
  assumes e: "env_ok e" and n: "names_ok sr" and len: "34 \<le> length p" and inv: "queue_inv (cache sr)"
    and h: "ld_ip p 14 = Some h" and r: "route_to sr (ip_dst h) = Some (out, nh)"
    and m: "arp_mac (cache sr) nh = None"
    and q: "find_req (requests (cache sr)) nh = Some rq" "req_times_sent rq = 0"
  shows "sr_send_routed_ip_packet e sr p (length p) =
    Some (emit e (if_name out) (arp_request_frame out nh) (sr\<lparr>cache := update_req (req_self rq)
      (mark_sent e \<circ> add_packet (queued_packet (resource (if_addr out) p) (if_name out))) (cache sr)\<rparr>))"
proof -
  let ?buf = "resource (if_addr out) p"
  let ?f = "add_packet (queued_packet ?buf (if_name out))"
  let ?sr = "sr\<lparr>cache := update_req (req_self rq) ?f (cache sr)\<rparr>"
  have len': "length ?buf = length p" using len by simp
  have "sr_arpcache_queuereq e (cache sr) nh ?buf (length p) (if_name out) =
      Some (req_self rq, update_req (req_self rq) ?f (cache sr))"
    using queuereq_eq [of e ?buf "cache sr" nh "if_name out"] e resource_nonempty len q(1)
    unfolding len' by simp
  moreover have "deref_req (update_req (req_self rq) ?f (cache sr)) (req_self rq) = Some (?f rq)"
    using deref_req_unique [OF inv] q(1) by (simp add: deref_req_update find_req_Some)
  moreover have "sr_get_interface ?sr (if_name out) = Some out"
    using route_to_iface(1) [OF n r] by (simp add: sr_get_interface_def)
  moreover have "req_times_sent (?f rq) = 0" "req_ip (?f rq) = nh"
    using q find_req_Some [OF q(1)] by (simp_all add: add_packet_def)
  moreover have "emit e n fr sr\<lparr>cache := c\<rparr> = emit e n fr (sr\<lparr>cache := c\<rparr>)" for n fr sr c
    by (simp add: emit_def)
  ultimately show ?thesis
    by (simp add: send_routed_eq [OF e len h r] m send_arp_request_emit [OF e] update_req_twice)
qed

definition sends_but :: "u32 \<Rightarrow> nat set \<Rightarrow> sr_instance \<Rightarrow> sr_instance option \<Rightarrow> bool" where
  "sends_but m B sr res \<longleftrightarrow>
     (\<exists>sr'. res = Some sr' \<and> same_config sr sr' \<and> running_but m B sr' \<and> grown (cache sr) (cache sr') \<and>
        prefix (sock_out sr) (sock_out sr'))"

lemma send_routed_sends_but:
  assumes e: "env_ok e" and run: "running_but m B sr" and len: "34 \<le> length p" "length p < 2 ^ 31"
    and m: "5 \<le> m"
  shows "sends_but m B sr (sr_send_routed_ip_packet e sr p (length p))"
proof -
  have inv: "router_inv sr" "names_ok sr" "asked_but m B (cache sr)" and q: "queue_inv (cache sr)"
    using run by (auto simp: running_but_def router_inv_def cache_inv_def)
  obtain h where h: "ld_ip p 14 = Some h" using len by (simp add: iph.ld_in_bounds)
  obtain sr' where sr': "sr_send_routed_ip_packet e sr p (length p) = Some sr'"
    and cfg: "same_config sr sr'" and inv': "router_inv sr'"
    using send_routed_safe [OF e inv(1) len] by (auto simp: safe_def)
  have "grown (cache sr) (cache sr') \<and> prefix (sock_out sr) (sock_out sr')"
  proof (cases "route_to sr (ip_dst h)")
    case None
    with send_routed_none [OF len(1) h, of sr e] sr' show ?thesis by simp
  next
    case (Some on)
    obtain out nh where r: "route_to sr (ip_dst h) = Some (out, nh)" using Some by (cases on) auto
    consider m where "arp_mac (cache sr) nh = Some m"
      | "arp_mac (cache sr) nh = None" "pending (cache sr) nh = None"
      | rq where "arp_mac (cache sr) nh = None" "find_req (requests (cache sr)) nh = Some rq"
      by (cases "arp_mac (cache sr) nh"; cases "find_req (requests (cache sr)) nh") (auto simp: pending_def)
    then show ?thesis
    proof cases
      case 1
      with send_routed_hit [OF e inv(2) len h r] sr' show ?thesis by auto
    next
      case 2
      with send_routed_first_miss [OF e inv(2) q len(1) h r] sr' show ?thesis
        by (auto simp: grown_open)
    next
      case 3
      show ?thesis
      proof (cases "req_times_sent rq = 0")
        case True
        have "aged r ((mark_sent e \<circ> add_packet pkt) r)"
          if "r \<in> set (requests (cache sr))" "req_self r = req_self rq" for r pkt
        proof -
          have "r = rq" using that deref_req_unique [OF q] find_req_Some [OF 3(2)] by (metis option.inject)
          with True show ?thesis by (simp add: aged_def mark_sent_def add_packet_def)
        qed
        with send_routed_unasked [OF e inv(2) len(1) q h r 3 True] sr' show ?thesis
          by (auto intro!: grown_update_req)
      next
        case False
        with 3 send_routed_later_miss [OF e len(1) q h r] sr' show ?thesis
          by (auto simp: grown_update_req)
      qed
    qed
  qed
  with sr' cfg inv' inv names_ok_config [OF cfg] asked_but_grown [OF _ _ m] show ?thesis
    by (auto simp: running_but_def sends_but_def)
qed

lemma send_arp_request_prefix:
  assumes "env_ok e"
  obtains sr' where "sr_send_arp_request e sr ip name = Some sr'" "same_config sr sr'" "cache sr' = cache sr"
    "prefix (sock_out sr) (sock_out sr')"
proof (cases "sr_get_interface sr name")
  case None
  with assms that show thesis by (simp add: send_arp_request_eq)
next
  case (Some out)
  with assms that show thesis by (simp add: send_arp_request_emit)
qed

lemma sends_but_refl: "running_but m B sr \<Longrightarrow> sends_but m B sr (Some sr)"
  by (simp add: sends_but_def)

lemma sends_but_bind:
  assumes "sends_but m B sr res" and "\<And>sr1. same_config sr sr1 \<Longrightarrow> running_but m B sr1 \<Longrightarrow> sends_but m B sr1 (f sr1)"
  shows "sends_but m B sr (res \<bind> f)"
  using assms by (auto simp: sends_but_def) (meson same_config_trans grown_trans prefix_order.trans)

lemma send_icmp_error_sends_but:
  assumes e: "env_ok e" and run: "running_but m B sr" and m: "5 \<le> m"
  shows "sends_but m B sr (sr_send_icmp_error e sr p (length p) type code)"
proof (cases "\<exists>h. ip_valid p h")
  case True
  then obtain h where h: "ip_valid p h" by blast
  then have "34 \<le> length p" by (auto simp: ip_valid_def dest: ip_shapeD)
  then obtain eh where eh: "ld_eth p 0 = Some eh" by (simp add: eth.ld_in_bounds)
  have "sends_but m B sr (sr_send_routed_ip_packet e sr (icmp_error_frame out ha ip type code (quoted p h)) 70)"
    for out ha ip
    using send_routed_sends_but [OF e run _ _ m, of "icmp_error_frame out ha ip type code (quoted p h)"]
    by (simp add: length_quoted)
  with h eh e sends_but_refl [OF run] show ?thesis by (simp add: send_icmp_error_eq split: option.split)
next
  case False
  with sends_but_refl [OF run] show ?thesis by (simp add: send_icmp_error_invalid)
qed

lemma sweep_packets_sends_but:
  "env_ok e \<Longrightarrow> running_but m B sr \<Longrightarrow> 5 \<le> m \<Longrightarrow> \<forall>p \<in> set ps. pkt_ok p \<Longrightarrow> sends_but m B sr (sweep_packets e sr ps)"
proof (induction ps arbitrary: sr)
  case (Cons p ps)
  then have "sends_but m B sr (sr_send_icmp_error e sr (pkt_buf p) (pkt_len p) 3 1)"
    by (simp add: pkt_ok_def send_icmp_error_sends_but)
  then show ?case
    unfolding sweep_packets.simps by (rule sends_but_bind) (use Cons in auto)
qed (simp add: sends_but_refl)

section \<open>One visit of the sweep\<close>

definition visited :: "nat \<Rightarrow> sr_arpcache \<Rightarrow> sr_arpcache \<Rightarrow> bool" where
  "visited a c c' \<longleftrightarrow> next_addr c \<le> next_addr c' \<and>
     (\<forall>r \<in> set (requests c). req_self r \<noteq> a \<or> req_times_sent r < 5 \<longrightarrow>
        (\<exists>r' \<in> set (requests c'). req_self r' = req_self r \<and> req_ip r' = req_ip r)) \<and>
     (\<forall>r' \<in> set (requests c'). next_addr c \<le> req_self r' \<and> req_times_sent r' = 1 \<or>
        (\<exists>r \<in> set (requests c). req_self r' = req_self r \<and> req_ip r' = req_ip r \<and>
           unat (req_times_sent r') \<le> max 1 (unat (req_times_sent r)) + (if req_self r = a \<and> req_times_sent r < 5 then 1 else 0)))"

lemma grown_addrs:
  assumes "grown c c'"
  obtains new where "map req_self (requests c') = new @ map req_self (requests c)"
    "\<forall>b \<in> set new. next_addr c \<le> b"
proof -
  obtain n old where c': "requests c' = n @ old" "list_all2 aged (requests c) old"
      "\<forall>r \<in> set n. next_addr c \<le> req_self r"
    using assms by (auto simp: grown_def)
  show thesis
    using that [of "map req_self n"] c' list_all2_aged_self [OF c'(2)] by simp
qed

lemma aged_times: "aged r r' \<Longrightarrow> unat (req_times_sent r') \<le> max 1 (unat (req_times_sent r))"
  by (auto simp: aged_def)

lemma visited_grown:
  assumes "grown c c'"
  shows "visited a c c'"
  unfolding visited_def
proof (intro conjI ballI impI)
  show "next_addr c \<le> next_addr c'" using assms by (simp add: grown_def)
next
  fix r assume "r \<in> set (requests c)"
  from grown_after [OF assms this]
  show "\<exists>r' \<in> set (requests c'). req_self r' = req_self r \<and> req_ip r' = req_ip r"
    by (auto simp: aged_def)
next
  fix r' assume "r' \<in> set (requests c')"
  from grown_before [OF assms this] consider r where "r \<in> set (requests c)" "aged r r'"
    | "next_addr c \<le> req_self r'" "req_times_sent r' = 1" by blast
  then show "next_addr c \<le> req_self r' \<and> req_times_sent r' = 1 \<or>
      (\<exists>r \<in> set (requests c). req_self r' = req_self r \<and> req_ip r' = req_ip r \<and>
         unat (req_times_sent r') \<le> max 1 (unat (req_times_sent r)) + (if req_self r = a \<and> req_times_sent r < 5 then 1 else 0))"
  proof cases
    case 1
    with aged_times [OF 1(2)] show ?thesis by (intro disjI2 bexI [of _ r]) (auto simp: aged_def)
  qed simp
qed

lemma visited_update:
  assumes "keeps_id f"
    and "\<And>r. r \<in> set (requests c) \<Longrightarrow> req_self r = a \<Longrightarrow>
      unat (req_times_sent (f r)) \<le> Suc (unat (req_times_sent r)) \<and> req_times_sent r < 5"
  shows "visited a c (update_req a f c)"
proof -
  let ?g = "\<lambda>r. if req_self r = a then f r else r"
  have g: "set (requests (update_req a f c)) = ?g ` set (requests c)" by (simp add: update_req_def)
  have id: "req_self (?g r) = req_self r" "req_ip (?g r) = req_ip r" for r
    using assms(1) by (auto simp: keeps_id_def)
  have le: "unat (req_times_sent (?g r)) \<le> max 1 (unat (req_times_sent r)) + (if req_self r = a \<and> req_times_sent r < 5 then 1 else 0)"
    if "r \<in> set (requests c)" for r
    using assms(2) [OF that] by auto
  show ?thesis
    unfolding visited_def g
  proof (intro conjI ballI impI)
    show "next_addr c \<le> next_addr (update_req a f c)" by (simp add: update_req_def)
  next
    fix r assume "r \<in> set (requests c)"
    then show "\<exists>r' \<in> ?g ` set (requests c). req_self r' = req_self r \<and> req_ip r' = req_ip r"
      using id by blast
  next
    fix r' assume "r' \<in> ?g ` set (requests c)"
    then obtain r where "r \<in> set (requests c)" "r' = ?g r" by blast
    with id [of r] le [of r]
    show "next_addr c \<le> req_self r' \<and> req_times_sent r' = 1 \<or>
      (\<exists>r \<in> set (requests c). req_self r' = req_self r \<and> req_ip r' = req_ip r \<and>
         unat (req_times_sent r') \<le> max 1 (unat (req_times_sent r)) + (if req_self r = a \<and> req_times_sent r < 5 then 1 else 0))"
      by blast
  qed
qed

lemma visited_destroy:
  assumes "grown c c'" and "distinct (map req_self (requests c'))"
    and "deref_req c a = Some r" and "5 \<le> req_times_sent r" and "queue_inv c"
  shows "visited a c (sr_arpreq_destroy c' a)"
proof -
  have sub: "set (requests (sr_arpreq_destroy c' a)) = {x \<in> set (requests c'). req_self x \<noteq> a}"
    using assms(2) by (simp add: sr_arpreq_destroy_def unlink_addr_filter)
  have "\<exists>r' \<in> set (requests (sr_arpreq_destroy c' a)). req_self r' = req_self x \<and> req_ip r' = req_ip x"
    if "x \<in> set (requests c)" "req_self x \<noteq> a \<or> req_times_sent x < 5" for x
  proof -
    have "req_self x \<noteq> a" using that deref_req_unique [OF assms(5) that(1)] assms(3,4) by auto
    with grown_after [OF assms(1) that(1)] sub show ?thesis by (auto simp: aged_def)
  qed
  moreover have "next_addr (sr_arpreq_destroy c' a) = next_addr c'" by (simp add: sr_arpreq_destroy_def)
  ultimately show ?thesis using visited_grown [OF assms(1), of a] sub unfolding visited_def by auto
qed

lemma sweep_req_but:
  assumes e: "env_ok e" and run: "running_but m B sr" and a: "a \<in> set (addrs sr)"
    and m: "5 \<le> m"
  obtains sr' new where "sweep_req e sr a = Some sr'" "same_config sr sr'" "running_but m B sr'"
    "addrs sr' = new @ addrs sr \<or> addrs sr' = new @ remove1 a (addrs sr)"
    "visited a (cache sr) (cache sr')" "prefix (sock_out sr) (sock_out sr')"
proof -
  have inv: "router_inv sr" "names_ok sr" "asked_but m B (cache sr)" and q: "queue_inv (cache sr)"
    using run by (auto simp: running_but_def router_inv_def cache_inv_def)
  obtain r where r: "deref_req (cache sr) a = Some r"
    using a deref_req_None_iff [of "cache sr" a] by (cases "deref_req (cache sr) a") auto
  have rin: "r \<in> set (requests (cache sr))" "req_self r = a" using deref_req_Some [OF r] by auto
  have uniq: "x = r" if "x \<in> set (requests (cache sr))" "req_self x = a" for x
    using deref_req_unique [OF q that(1)] that(2) r by simp
  have lt: "a < next_addr (cache sr)" using q a by (auto simp: queue_inv_def)
  consider "now e - req_sent r < 1" | "1 \<le> now e - req_sent r" "5 \<le> req_times_sent r"
    | "1 \<le> now e - req_sent r" "req_times_sent r < 5" by fastforce
  then show thesis
  proof cases
    case 1
    with r run that [of sr "[]"] show thesis by (simp add: sweep_req_young visited_grown)
  next
    case 2
    have "\<forall>p \<in> set (req_packets r). pkt_ok p"
      using inv(1) rin by (auto simp: router_inv_def queue_pkts_ok_def)
    from sweep_packets_sends_but [OF e run m this] obtain sr1 where
      s: "sweep_packets e sr (req_packets r) = Some sr1" "same_config sr sr1" "running_but m B sr1"
        "grown (cache sr) (cache sr1)" "prefix (sock_out sr) (sock_out sr1)" by (auto simp: sends_but_def)
    let ?sr = "sr1\<lparr>cache := sr_arpreq_destroy (cache sr1) a\<rparr>"
    obtain new where "addrs sr1 = new @ addrs sr" "a \<notin> set new"
      using grown_addrs [OF s(4)] lt by (metis not_le)
    then have "addrs ?sr = new @ remove1 a (addrs sr)"
      by (simp add: sr_arpreq_destroy_def map_self_unlink remove1_append)
    moreover have "asked_but m B (cache ?sr)"
      using s(3) set_unlink_addr [of "requests (cache sr1)" a]
      by (auto simp: running_but_def asked_but_def sr_arpreq_destroy_def)
    then have "running_but m B ?sr"
      using s(3) by (simp add: running_but_def destroy_router_inv names_ok_def)
    moreover have "visited a (cache sr) (cache ?sr)"
      using s(3) visited_destroy [OF s(4) _ r 2(2) q]
      by (simp add: running_but_def router_inv_def cache_inv_def queue_inv_def)
    ultimately show thesis
      using that [of ?sr new] s r 2 by (simp add: sweep_req_def)
  next
    case 3
    obtain p ps where p: "req_packets r = p # ps"
      using inv(3) rin by (cases "req_packets r") (auto simp: asked_but_def)
    obtain sr1 where s: "sr_send_arp_request e sr (req_ip r) (pkt_iface p) = Some sr1"
        "same_config sr sr1" "cache sr1 = cache sr" "prefix (sock_out sr) (sock_out sr1)"
      by (rule send_arp_request_prefix [OF e])
    let ?sr = "sr1\<lparr>cache := update_req a (mark_sent e) (cache sr)\<rparr>"
    note succ = times_sent_succ [OF 3(2)] order_trans [OF times_sent_succ(1) [OF 3(2)] m]
    have "asked_but m B (cache ?sr)"
      using inv(3) uniq succ by (auto simp: asked_but_def update_req_def mark_sent_def)
    moreover have "names_ok ?sr" using inv(2) s(2) by (simp add: names_ok_def same_config_def)
    moreover have "router_inv sr1" using inv(1) s(3) by (simp add: router_inv_def)
    then have "router_inv ?sr" using mark_sent_inv [of sr1 a e] s(3) by simp
    ultimately have "running_but m B ?sr" by (simp add: running_but_def)
    moreover have "visited a (cache sr) (cache ?sr)"
      using uniq succ(3) 3(2) by (auto simp: mark_sent_def intro!: visited_update)
    ultimately show thesis
      using that [of ?sr "[]"] s r 3 p
      by (simp add: sweep_req_def arpcache_send_arp_request_eq not_le [symmetric] map_update_req)
  qed
qed

end
