(* ===== verification/Concurrency_Safety.thy ===== *)
theory Concurrency_Safety
  imports Unasked
begin

text \<open>
  What the timer thread and the receiving thread may do to each other while a packet is being
  sent, or an ARP reply delivers the packets that waited for it: an invariant of the two threads
  that every turn keeps, as long as the timer does not come round too often.
\<close>

section \<open>The invariant of the two threads\<close>

fun held :: "send_pc \<Rightarrow> nat set" where
  "held (Check a i) = {a}"
| "held (Ask a i) = {a}"
| "held (Stamp a) = {a}"
| "held (Count a) = {a}"
| "held pc = {}"

text \<open>Where the request for the next hop must not be asked for too often.\<close>

fun counting :: "send_pc \<Rightarrow> bool" where
  "counting (Learn h) = False"
| "counting (Flush sha qs a) = False"
| "counting Done = False"
| "counting pc = True"

definition frame_ok :: "u8 list \<Rightarrow> nat \<Rightarrow> bool" where
  "frame_ok p len \<longleftrightarrow> len = length p \<and> 34 \<le> length p \<and> length p < 2 ^ 31"

fun send_inv :: "u32 \<Rightarrow> sr_instance \<Rightarrow> send_pc \<Rightarrow> bool" where
  "send_inv nh sr (Start p len) \<longleftrightarrow> frame_ok p len \<and>
     (\<forall>h out ip. ld_ip p 14 = Some h \<longrightarrow> route_to sr (ip_dst h) = Some (out, ip) \<longrightarrow> ip = nh)"
| "send_inv nh sr (Resolve p len i ip) \<longleftrightarrow> frame_ok p len \<and> ip = nh"
| "send_inv nh sr (Deliver p len i en) \<longleftrightarrow> frame_ok p len"
| "send_inv nh sr (Enqueue p len i ip) \<longleftrightarrow> frame_ok p len \<and> ip = nh"
| "send_inv nh sr (Flush sha qs a) \<longleftrightarrow> (\<forall>q \<in> set qs. pkt_ok q)"
| "send_inv nh sr pc \<longleftrightarrow> (\<forall>a \<in> held pc. \<exists>r. deref_req (cache sr) a = Some r \<and> req_ip r = nh)"

text \<open>The requests for the next hop, among those at the addresses given, were asked for at most \<open>n\<close> times.\<close>

definition asked_upto :: "u32 \<Rightarrow> nat \<Rightarrow> nat set \<Rightarrow> sr_arpcache \<Rightarrow> bool" where
  "asked_upto nh n A c \<longleftrightarrow>
     (\<forall>r \<in> set (requests c). req_ip r = nh \<longrightarrow> req_self r \<in> A \<longrightarrow> unat (req_times_sent r) \<le> n)"

fun timer_inv :: "bool \<Rightarrow> u32 \<Rightarrow> nat \<Rightarrow> sr_instance \<Rightarrow> timer_pc \<Rightarrow> bool" where
  "timer_inv live nh n sr Asleep \<longleftrightarrow> (live \<longrightarrow> asked_upto nh n UNIV (cache sr))"
| "timer_inv live nh n sr (Sweeping e cur) \<longleftrightarrow> env_ok e \<and>
     (\<exists>pre as. addrs sr = pre @ as \<and> cur = hd_opt as \<and>
        (live \<longrightarrow> 2 \<le> n \<and> asked_upto nh n UNIV (cache sr) \<and> asked_upto nh (n - 1) (set as) (cache sr)))"

definition threads_inv :: "u32 \<Rightarrow> nat \<Rightarrow> threads \<Rightarrow> bool" where
  "threads_inv nh n s \<longleftrightarrow>
     running_but 5 (held (th_send s)) (th_sr s) \<and> send_inv nh (th_sr s) (th_send s) \<and>
     timer_inv (counting (th_send s)) nh n (th_sr s) (th_timer s)"

lemma timer_inv_live: "timer_inv live nh n sr tm \<Longrightarrow> (live' \<Longrightarrow> live) \<Longrightarrow> timer_inv live' nh n sr tm"
  by (cases tm) auto

definition same_counts :: "u32 \<Rightarrow> sr_arpcache \<Rightarrow> sr_arpcache \<Rightarrow> bool" where
  "same_counts nh c c' \<longleftrightarrow>
     (\<forall>r' \<in> set (requests c'). req_ip r' = nh \<longrightarrow> req_times_sent r' = 0 \<or>
        (\<exists>r \<in> set (requests c). req_ip r = nh \<and> req_self r = req_self r' \<and>
           req_times_sent r' = req_times_sent r))"

lemma asked_upto_same: "same_counts nh c c' \<Longrightarrow> asked_upto nh n A c \<Longrightarrow> asked_upto nh n A c'"
  unfolding asked_upto_def same_counts_def by fastforce

lemma same_counts_update:
  assumes "keeps_id f" and "\<And>r. req_times_sent (f r) = req_times_sent r"
  shows "same_counts nh c (update_req a f c)"
  using assms by (auto simp: same_counts_def update_req_def keeps_id_def)

lemma same_counts_new: "same_counts nh c (new_request c ip)"
  by (auto simp: same_counts_def new_request_def)

lemma same_counts_trans: "same_counts nh a b \<Longrightarrow> same_counts nh b c \<Longrightarrow> same_counts nh a c"
  unfolding same_counts_def by metis

text \<open>An access that leaves counters and addresses alone does not disturb the timer.\<close>

lemma timer_inv_same:
  assumes "timer_inv live nh n sr tm" and "addrs sr' = addrs sr"
    and "live \<Longrightarrow> same_counts nh (cache sr) (cache sr')"
  shows "timer_inv live nh n sr' tm"
proof (cases tm)
  case Asleep
  with assms show ?thesis by (auto intro: asked_upto_same)
next
  case (Sweeping e cur)
  with assms(1) obtain pre as where "addrs sr = pre @ as" "cur = hd_opt as"
      "live \<longrightarrow> 2 \<le> n \<and> asked_upto nh n UNIV (cache sr) \<and> asked_upto nh (n - 1) (set as) (cache sr)"
      "env_ok e" by auto
  moreover from this assms(3) have "live \<longrightarrow> 2 \<le> n \<and> asked_upto nh n UNIV (cache sr') \<and>
      asked_upto nh (n - 1) (set as) (cache sr')"
    by (auto intro: asked_upto_same)
  ultimately show ?thesis
    using assms(2) unfolding Sweeping timer_inv.simps by (intro conjI exI [of _ pre] exI [of _ as]) simp_all
qed

section \<open>The receiving thread keeps it\<close>

lemma req_times_add_packet: "req_times_sent (add_packet p r) = req_times_sent r"
  by (simp add: add_packet_def)

lemma enqueue_but:
  assumes e: "env_ok e" and run: "running_but m {} sr" and p: "frame_ok p len"
  obtains a c' r where "sr_arpcache_queuereq e (cache sr) nh p len iface = Some (a, c')"
    "deref_req c' a = Some r" "req_ip r = nh" "running_but m {a} (sr\<lparr>cache := c'\<rparr>)"
    "same_counts nh (cache sr) c'"
proof -
  have inv: "router_inv sr" "names_ok sr" "asked_but m {} (cache sr)" and q: "queue_inv (cache sr)"
    using run by (auto simp: running_but_def router_inv_def cache_inv_def)
  have len: "len = length p" "34 \<le> length p" "length p < 2 ^ 31" "p \<noteq> []" using p by (auto simp: frame_ok_def)
  obtain a c' r where r: "sr_arpcache_queuereq e (cache sr) nh p len iface = Some (a, c')"
      "deref_req c' a = Some r" "req_ip r = nh" "router_inv (sr\<lparr>cache := c'\<rparr>)"
    using queue_packet_inv [OF inv(1) e len(2,3), of nh iface] unfolding len(1) by metis
  from queuereq_eq [of e p "cache sr" nh iface] e len r(1)
  have c': "(case find_req (requests (cache sr)) nh of
      Some r \<Rightarrow> (req_self r, update_req (req_self r) (add_packet (queued_packet p iface)) (cache sr))
    | None \<Rightarrow> (next_addr (cache sr), update_req (next_addr (cache sr)) (add_packet (queued_packet p iface))
         (new_request (cache sr) nh))) = (a, c')" by simp
  have joined: "same_counts nh c (update_req b (add_packet pkt) c)" for c b pkt
    by (rule same_counts_update) (simp_all add: req_times_add_packet)
  have "asked_but m {a} c'"
    using c' inv(3)
    by (auto simp: asked_but_def update_req_def new_request_def add_packet_def split: option.splits if_splits)
  moreover have "same_counts nh (cache sr) c'"
    using c' joined joined [THEN same_counts_trans [OF same_counts_new]] by (auto split: option.splits)
  moreover have "names_ok (sr\<lparr>cache := c'\<rparr>)" using inv(2) by (simp add: names_ok_def)
  ultimately show thesis using that r by (simp add: running_but_def)
qed

lemma send_start_ok:
  assumes e: "env_ok e" and p: "frame_ok p len" and n: "names_ok sr"
    and h: "\<And>h out ip. ld_ip p 14 = Some h \<Longrightarrow> route_to sr (ip_dst h) = Some (out, ip) \<Longrightarrow> ip = nh"
  shows "send_start e sr p len = Some Done \<or>
    (\<exists>i p'. send_start e sr p len = Some (Resolve p' len i nh) \<and> frame_ok p' len)"
proof -
  have len: "len = length p" "34 \<le> length p" "length p < 2 ^ 31" using p by (auto simp: frame_ok_def)
  obtain h g where g: "ld_ip p 14 = Some h" "ld_eth p 0 = Some g"
    using len by (simp add: iph.ld_in_bounds eth.ld_in_bounds)
  show ?thesis
  proof (cases "route_to sr (ip_dst h)")
    case None
    then have "send_start e sr p len = Some Done"
      using g by (auto simp: send_start_def route_to_def split: option.splits)
    then show ?thesis by simp
  next
    case (Some on)
    obtain out ip where on: "on = (out, ip)" by (cases on)
    obtain rt where rt: "sr_find_lpm_route sr (ip_dst h) = Some rt"
        "sr_get_interface sr (rt_interface rt) = Some out" "ip = next_hop rt (ip_dst h)"
      using Some on by (auto simp: route_to_def split: option.splits)
    have "ip = nh" using h [OF g(1)] Some on by simp
    then have "send_start e sr p len = Some (Resolve (overwrite p 0 (enc_eth (g\<lparr>ether_shost := if_addr out\<rparr>)))
        len out nh)"
      using rt g len e by (simp add: send_start_def load_in_bounds eth.st_in_bounds next_hop_def)
    moreover have "frame_ok (overwrite p 0 (enc_eth (g\<lparr>ether_shost := if_addr out\<rparr>))) len"
      using p len by (simp add: frame_ok_def eth.length_over)
    ultimately show ?thesis by blast
  qed
qed

lemma running_but_done:
  assumes "running_but m {a} sr" and "deref_req (cache sr) a = Some r" and "req_times_sent r \<noteq> 0"
  shows "running_but m {} sr"
proof -
  have q: "queue_inv (cache sr)" using assms(1) by (simp add: running_but_def router_inv_def cache_inv_def)
  have "1 \<le> req_times_sent r" using assms(3) by (metis linorder_not_le word_less_1)
  moreover have "x = r" if "x \<in> set (requests (cache sr))" "req_self x = a" for x
    using deref_req_unique [OF q that(1)] that(2) assms(2) by simp
  ultimately show ?thesis using assms(1) by (auto simp: running_but_def asked_but_def)
qed

text \<open>Writing to the request.\<close>

lemma running_but_update:
  assumes "running_but m B sr" and f: "keeps_id f"
    and g: "\<And>r. r \<in> set (requests (cache sr)) \<Longrightarrow> req_self r = a \<Longrightarrow>
      req_packets (f r) = req_packets r \<and> req_times_sent (f r) \<le> m \<and> (a \<notin> B' \<longrightarrow> 1 \<le> req_times_sent (f r))"
    and B: "B - {a} \<subseteq> B'"
  shows "running_but m B' (sr\<lparr>cache := update_req a f (cache sr)\<rparr>)"
proof -
  have inv: "router_inv sr" "names_ok sr" "asked_but m B (cache sr)" using assms(1) by (auto simp: running_but_def)
  have pk: "req_packets (if req_self r = a then f r else r) = req_packets r"
    if "r \<in> set (requests (cache sr))" for r using g [OF that] by simp
  have "queue_pkts_ok (update_req a f (cache sr))"
    using inv(1) g by (auto simp: router_inv_def queue_pkts_ok_def update_req_def)
  moreover have "cache_inv (update_req a f (cache sr))"
    using inv(1) f by (simp add: router_inv_def cache_inv_def update_req_queue_inv)
  moreover have "asked_but m B' (update_req a f (cache sr))"
    using inv(3) f g B by (auto simp: asked_but_def update_req_def keeps_id_def)
  ultimately show ?thesis using inv(2) by (simp add: running_but_def router_inv_def names_ok_def)
qed

lemma deref_after_update:
  assumes "keeps_id f" and "deref_req (cache sr) a = Some r" and "req_ip r = nh"
  shows "\<exists>r'. deref_req (cache (sr\<lparr>cache := update_req a f (cache sr)\<rparr>)) a = Some r' \<and> req_ip r' = nh"
  using assms by (auto simp: deref_req_update keeps_id_def)

lemma addrs_update: "keeps_id f \<Longrightarrow> addrs (sr\<lparr>cache := update_req a f (cache sr)\<rparr>) = addrs sr"
  by (simp add: map_update_req)

lemma timer_inv_cache:
  "timer_inv live nh n sr tm \<Longrightarrow> cache sr' = cache sr \<Longrightarrow> timer_inv live nh n sr' tm"
  by (cases tm) auto

text \<open>Where the receiving thread has seen that nobody asked yet, and has not counted its own request.\<close>

fun asking :: "send_pc \<Rightarrow> nat set" where
  "asking (Ask a i) = {a}"
| "asking (Stamp a) = {a}"
| "asking (Count a) = {a}"
| "asking pc = {}"

definition low :: "u32 \<Rightarrow> sr_instance \<Rightarrow> send_pc \<Rightarrow> bool" where
  "low m sr pc \<longleftrightarrow> (\<forall>a \<in> asking pc. \<forall>r. deref_req (cache sr) a = Some r \<longrightarrow> req_times_sent r < m)"

lemma low_requests: "low m sr pc \<Longrightarrow> requests (cache sr') = requests (cache sr) \<Longrightarrow> low m sr' pc"
  by (simp add: low_def deref_req_def)

lemma running_but_same:
  "running_but m B sr \<Longrightarrow> same_config sr sr' \<Longrightarrow> cache sr' = cache sr \<Longrightarrow> running_but m B sr'"
  using names_ok_config by (simp add: running_but_def router_inv_def)

lemma running_but_learn:
  assumes "running_but m {} sr"
  shows "running_but m {} (sr\<lparr>cache := snd (sr_arpcache_insert e (cache sr) sha ip)\<rparr>)"
proof -
  have "set (requests (snd (sr_arpcache_insert e (cache sr) sha ip))) \<subseteq> set (requests (cache sr))"
    using assms by (auto simp: running_but_def router_inv_def cache_inv_def queue_inv_def insert_requests snd_unlink_ip)
  then have "asked_but m {} (snd (sr_arpcache_insert e (cache sr) sha ip))"
    using assms by (auto simp: running_but_def asked_but_def)
  with assms show ?thesis
    using insert_router_inv [of sr e] by (simp add: running_but_def) (simp add: names_ok_def)
qed

lemma running_but_destroy:
  assumes "running_but m B sr"
  shows "running_but m B (sr\<lparr>cache := sr_arpreq_destroy (cache sr) a\<rparr>)"
proof -
  have "asked_but m B (sr_arpreq_destroy (cache sr) a)"
    using assms set_unlink_addr [of "requests (cache sr)" a]
    by (auto simp: running_but_def asked_but_def sr_arpreq_destroy_def)
  with assms show ?thesis by (simp add: running_but_def destroy_router_inv names_ok_def)
qed

lemma succ_upto:
  assumes "(x :: u32) < m"
  shows "x + 1 \<le> m" and "1 \<le> x + 1"
proof -
  have "unat x < unat m" using assms by (simp add: word_less_nat_alt)
  moreover have "unat m < 2 ^ LENGTH(32)" by (rule unsigned_less)
  ultimately have u: "unat (x + 1) = unat x + 1" by (simp add: unat_word_ariths)
  show "x + 1 \<le> m" and "1 \<le> x + 1" using \<open>unat x < unat m\<close> by (simp_all add: word_le_nat_alt u)
qed

text \<open>One piece of the receiving thread, whatever bound the counters keep.\<close>

definition steps_on :: "u32 \<Rightarrow> u32 \<Rightarrow> env \<Rightarrow> sr_instance \<Rightarrow> send_pc \<Rightarrow> bool" where
  "steps_on m nh e sr pc \<longleftrightarrow>
     (\<exists>sr' pc'. send_step e sr pc = Some (sr', pc') \<and> same_config sr sr' \<and>
      running_but m (held pc') sr' \<and> send_inv nh sr' pc' \<and> low m sr' pc' \<and>
      (counting pc' \<longrightarrow> counting pc \<and> same_counts nh (cache sr) (cache sr')) \<and>
      (\<not> needs_lock pc \<longrightarrow> addrs sr' = addrs sr))"

lemma same_counts_refl: "same_counts nh c c"
  by (auto simp: same_counts_def)

lemma step_Start:
  assumes e: "env_ok e" and run: "running_but m (held (Start p len)) sr" and pc: "send_inv nh sr (Start p len)"
    and low: "low m sr (Start p len)"
  shows "steps_on m nh e sr (Start p len)"
proof -
  have "names_ok sr" using run by (simp add: running_but_def)
  then have "send_start e sr p len = Some Done \<or>
      (\<exists>i p'. send_start e sr p len = Some (Resolve p' len i nh) \<and> frame_ok p' len)"
    using pc by (intro send_start_ok [OF e]) auto
  with run same_counts_refl show ?thesis by (auto simp: steps_on_def send_step_def low_def)
qed

lemma step_Deliver:
  assumes e: "env_ok e" and run: "running_but m (held (Deliver p len i en)) sr" and pc: "send_inv nh sr (Deliver p len i en)"
    and low: "low m sr (Deliver p len i en)"
  shows "steps_on m nh e sr (Deliver p len i en)"
proof -
  have len: "len = length p" "34 \<le> length p" "length p < 2 ^ 31" using pc by (auto simp: frame_ok_def)
  obtain g where g: "ld_eth p 0 = Some g" using len by (simp add: eth.ld_in_bounds)
  let ?p = "overwrite p 0 (enc_eth (g\<lparr>ether_dhost := ent_mac en, ether_shost := if_addr i\<rparr>))"
  have l: "length ?p = length p" using len by (simp add: eth.length_over)
  obtain x sr1 where s1: "sr_send_packet e sr ?p (length ?p) (if_name i) = Some (x, sr1)"
    using send_packet_total [OF e, of ?p sr "if_name i"] len l by auto
  with sr_send_packet_frame [OF s1] have same: "same_config sr sr1" "cache sr1 = cache sr" by auto
  with run s1 l len g running_but_same [OF run same] show ?thesis
    by (simp add: steps_on_def send_step_def eth.st_in_bounds low_def)
qed

lemma step_Enqueue:
  assumes e: "env_ok e" and run: "running_but m (held (Enqueue p len i ip)) sr" and pc: "send_inv nh sr (Enqueue p len i ip)"
    and low: "low m sr (Enqueue p len i ip)"
  shows "steps_on m nh e sr (Enqueue p len i ip)"
proof -
  obtain a c' r where "sr_arpcache_queuereq e (cache sr) nh p len (if_name i) = Some (a, c')"
    "deref_req c' a = Some r" "req_ip r = nh" "running_but m {a} (sr\<lparr>cache := c'\<rparr>)"
    "same_counts nh (cache sr) c'"
    using enqueue_but [OF e, of m sr p len nh "if_name i"] run pc by auto
  with pc show ?thesis by (auto simp: steps_on_def send_step_def low_def)
qed

lemma step_Ask:
  assumes e: "env_ok e" and run: "running_but m (held (Ask a i)) sr" and pc: "send_inv nh sr (Ask a i)"
    and low: "low m sr (Ask a i)"
  shows "steps_on m nh e sr (Ask a i)"
proof -
  from pc obtain r where r: "deref_req (cache sr) a = Some r" "req_ip r = nh" by auto
  obtain sr1 where s1: "sr_send_arp_request e sr (req_ip r) (if_name i) = Some sr1"
      "same_config sr sr1" "cache sr1 = cache sr"
    by (rule send_arp_request_cache [OF e])
  with run r low same_counts_refl running_but_same [OF run s1(2,3)] show ?thesis
    by (simp add: steps_on_def send_step_def low_def)
qed

lemma step_Stamp:
  assumes e: "env_ok e" and run: "running_but m (held (Stamp a)) sr" and pc: "send_inv nh sr (Stamp a)"
    and low: "low m sr (Stamp a)"
  shows "steps_on m nh e sr (Stamp a)"
proof -
  let ?f = "\<lambda>r. r\<lparr>req_sent := now e\<rparr>"
  have f: "keeps_id ?f" by auto
  from pc obtain r where r: "deref_req (cache sr) a = Some r" "req_ip r = nh" by auto
  have "running_but m {a} (sr\<lparr>cache := update_req a ?f (cache sr)\<rparr>)"
    using run by (intro running_but_update [OF run f]) (auto simp: running_but_def asked_but_def)
  moreover have "low m (sr\<lparr>cache := update_req a ?f (cache sr)\<rparr>) (Count a)"
    using low r by (simp add: low_def deref_req_update [OF f])
  moreover have "same_counts nh (cache sr) (update_req a ?f (cache sr))"
    using same_counts_update [OF f, of nh "cache sr" a] by simp
  ultimately show ?thesis
    using r deref_after_update [OF f r] addrs_update [OF f, of a sr] by (simp add: steps_on_def send_step_def)
qed

lemma step_Count:
  assumes e: "env_ok e" and run: "running_but m (held (Count a)) sr" and pc: "send_inv nh sr (Count a)"
    and low: "low m sr (Count a)"
  shows "steps_on m nh e sr (Count a)"
proof -
  let ?f = "\<lambda>r. r\<lparr>req_times_sent := req_times_sent r + 1\<rparr>"
  have f: "keeps_id ?f" by auto
  from pc obtain r where r: "deref_req (cache sr) a = Some r" "req_ip r = nh" by auto
  have q: "queue_inv (cache sr)" using run by (simp add: running_but_def router_inv_def cache_inv_def)
  have few: "req_times_sent x < m" if "x \<in> set (requests (cache sr))" "req_self x = a" for x
    using that deref_req_unique [OF q that(1)] r(1) low by (simp add: low_def)
  have "running_but m {} (sr\<lparr>cache := update_req a ?f (cache sr)\<rparr>)"
    using run few [THEN succ_upto(1)] few [THEN succ_upto(2)] by (intro running_but_update [OF run f]) auto
  with r addrs_update [OF f, of a sr] show ?thesis by (simp add: steps_on_def send_step_def low_def)
qed

lemma step_Learn:
  assumes e: "env_ok e" and run: "running_but m (held (Learn h)) sr" and pc: "send_inv nh sr (Learn h)"
    and low: "low m sr (Learn h)"
  shows "steps_on m nh e sr (Learn h)"
proof -
  let ?ins = "sr_arpcache_insert e (cache sr) (ar_sha h) (ar_sip h)"
  have inv: "running_but m {} sr" using run by simp
  have "\<forall>q \<in> set (req_packets r). pkt_ok q" if "fst ?ins = Some r" for r
    using inv that find_req_Some [of "requests (cache sr)" "ar_sip h" r]
    by (auto simp: insert_requests running_but_def router_inv_def queue_pkts_ok_def)
  with running_but_learn [OF inv, of e "ar_sha h" "ar_sip h"] show ?thesis
    by (simp add: steps_on_def send_step_def split_beta low_def split: option.split)
qed

lemma step_Flush:
  assumes e: "env_ok e" and run: "running_but m (held (Flush sha qs a)) sr" and pc: "send_inv nh sr (Flush sha qs a)"
    and low: "low m sr (Flush sha qs a)"
  shows "steps_on m nh e sr (Flush sha qs a)"
proof -
  have inv: "running_but m {} sr" using run by simp
  show ?thesis
  proof (cases qs)
    case Nil
    with inv show ?thesis by (simp add: steps_on_def send_step_def low_def running_but_destroy)
  next
    case (Cons q qs')
    have sr1: "flush_packets e sr sha [q] = Some (flush_one e sha q sr)"
      using flush_packets_eq [OF e, of "[q]" sr sha] pc Cons by simp
    have "running_but m {} (flush_one e sha q sr)" by (rule running_but_same [OF inv]) simp_all
    with Cons sr1 pc show ?thesis
      by (simp add: steps_on_def send_step_def low_def del: flush_packets.simps)
  qed
qed

lemma send_step_inv:
  assumes e: "env_ok e" and run: "running_but m (held pc) sr" and pc: "send_inv nh sr pc"
    and low: "low m sr pc" and m: "5 \<le> m"
  obtains sr' pc' where "send_step e sr pc = Some (sr', pc')" "same_config sr sr'"
    "running_but m (held pc') sr'" "send_inv nh sr' pc'" "low m sr' pc'"
    "counting pc' \<longrightarrow> counting pc \<and> same_counts nh (cache sr) (cache sr')"
    "\<not> needs_lock pc \<longrightarrow> addrs sr' = addrs sr"
proof -
  have pos: "0 < m" using m by (rule less_le_trans [rotated]) simp
  have "steps_on m nh e sr pc"
  proof (cases pc)
    case (Resolve p len i ip)
    with e run pc same_counts_refl show ?thesis
      by (auto simp: steps_on_def send_step_def arpcache_lookup_ok low_def split: option.split)
  next
    case (Check a i)
    with pc obtain r where r: "deref_req (cache sr) a = Some r" "req_ip r = nh" by auto
    with Check run pc same_counts_refl pos running_but_done [OF _ r(1)] show ?thesis
      by (auto simp: steps_on_def send_step_def low_def)
  next
    case Done
    with run pc show ?thesis by (simp add: steps_on_def send_step_def low_def)
  next
    case (Start p len)
    show ?thesis using run pc low unfolding Start by (rule step_Start [OF e])
  next
    case (Deliver p len i en)
    show ?thesis using run pc low unfolding Deliver by (rule step_Deliver [OF e])
  next
    case (Enqueue p len i ip)
    show ?thesis using run pc low unfolding Enqueue by (rule step_Enqueue [OF e])
  next
    case (Ask a i)
    show ?thesis using run pc low unfolding Ask by (rule step_Ask [OF e])
  next
    case (Stamp a)
    show ?thesis using run pc low unfolding Stamp by (rule step_Stamp [OF e])
  next
    case (Count a)
    show ?thesis using run pc low unfolding Count by (rule step_Count [OF e])
  next
    case (Learn h)
    show ?thesis using run pc low unfolding Learn by (rule step_Learn [OF e])
  next
    case (Flush sha qs a)
    show ?thesis using run pc low unfolding Flush by (rule step_Flush [OF e])
  qed
  then show thesis using that unfolding steps_on_def by blast
qed

lemma receiver_turn:
  assumes e: "env_ok e" and I: "threads_inv nh n s" and n: "counting (th_send s) \<Longrightarrow> n \<le> 4"
  obtains s' where "take_turn (Receiver e) s = Some s'" "threads_inv nh n s'"
    "same_config (th_sr s) (th_sr s')" "th_timer s' = th_timer s"
    "counting (th_send s') \<Longrightarrow> counting (th_send s)"
proof (cases "needs_lock (th_send s) \<and> th_timer s \<noteq> Asleep")
  case True
  with I that [of s] show thesis by simp
next
  case False
  have run: "running_but 5 (held (th_send s)) (th_sr s)" and pc: "send_inv nh (th_sr s) (th_send s)"
    and tm: "timer_inv (counting (th_send s)) nh n (th_sr s) (th_timer s)"
    using I by (auto simp: threads_inv_def)
  have low: "low 5 (th_sr s) (th_send s)"
    unfolding low_def
  proof (intro ballI allI impI)
    fix a r assume a: "a \<in> asking (th_send s)" and r: "deref_req (cache (th_sr s)) a = Some r"
    then have c: "counting (th_send s)" "req_ip r = nh" using pc by (cases "th_send s"; auto)+
    then have "unat (req_times_sent r) \<le> n"
      using tm deref_req_Some [OF r] by (cases "th_timer s") (auto simp: asked_upto_def)
    with n [OF c(1)] show "req_times_sent r < 5" by (simp add: word_less_nat_alt)
  qed
  obtain sr' pc' where s': "send_step e (th_sr s) (th_send s) = Some (sr', pc')" "same_config (th_sr s) sr'"
      "running_but 5 (held pc') sr'" "send_inv nh sr' pc'" "low 5 sr' pc'"
      "counting pc' \<longrightarrow> counting (th_send s) \<and> same_counts nh (cache (th_sr s)) (cache sr')"
      "\<not> needs_lock (th_send s) \<longrightarrow> addrs sr' = addrs (th_sr s)"
    by (rule send_step_inv [OF e run pc low order_refl])
  have "timer_inv (counting pc') nh n sr' (th_timer s)"
  proof (cases "th_timer s = Asleep")
    case True
    with tm s'(6) show ?thesis by (auto intro: asked_upto_same)
  next
    case awake: False
    with False s'(7) have same: "addrs sr' = addrs (th_sr s)" by blast
    have "timer_inv (counting pc') nh n (th_sr s) (th_timer s)"
      by (rule timer_inv_live [OF tm]) (use s'(6) in blast)
    then show ?thesis by (rule timer_inv_same [OF _ same]) (use s'(6) in blast)
  qed
  moreover from s'(1) False have "take_turn (Receiver e) s = Some (s\<lparr>th_sr := sr', th_send := pc'\<rparr>)"
    by auto
  ultimately show thesis
    using that [of "s\<lparr>th_sr := sr', th_send := pc'\<rparr>"] s' by (simp add: threads_inv_def)
qed

section \<open>The timer thread keeps it\<close>

lemma send_inv_visited:
  assumes "send_inv nh sr pc" and "same_config sr sr'" and "visited a (cache sr) (cache sr')"
    and q: "queue_inv (cache sr')"
    and few: "\<And>r. counting pc \<Longrightarrow> r \<in> set (requests (cache sr)) \<Longrightarrow> req_ip r = nh \<Longrightarrow> req_self r = a \<Longrightarrow> req_times_sent r < 5"
  shows "send_inv nh sr' pc"
proof -
  have held: "\<exists>r'. deref_req (cache sr') b = Some r' \<and> req_ip r' = nh"
    if b: "deref_req (cache sr) b = Some r" "req_ip r = nh" and pc: "counting pc" for b r
  proof -
    have r: "r \<in> set (requests (cache sr))" "req_self r = b" using deref_req_Some [OF b(1)] by auto
    have "req_self r \<noteq> a \<or> req_times_sent r < 5" using few [OF pc r(1) b(2)] by auto
    with assms(3) r(1) obtain r' where "r' \<in> set (requests (cache sr'))" "req_self r' = req_self r"
        "req_ip r' = req_ip r" unfolding visited_def by blast
    with deref_req_unique [OF q, of r'] r b(2) show ?thesis by auto
  qed
  have "route_to sr' = route_to sr" using route_lookups_config [OF assms(2)] by simp
  with assms(1) held show ?thesis by (cases pc) auto
qed

lemma visited_counts:
  assumes v: "visited a (cache sr) (cache sr')" and up: "asked_upto nh n UNIV (cache sr)"
    and rest: "asked_upto nh (n - 1) (set (a # as)) (cache sr)" and n: "2 \<le> n" and a: "a \<notin> set as"
    and old: "\<forall>b \<in> set as. b < next_addr (cache sr)"
  shows "asked_upto nh n UNIV (cache sr')" and "asked_upto nh (n - 1) (set as) (cache sr')"
proof -
  have before: "unat (req_times_sent r') \<le> n \<and> (req_self r' \<in> set as \<longrightarrow> unat (req_times_sent r') \<le> n - 1)"
    if r': "r' \<in> set (requests (cache sr'))" "req_ip r' = nh" for r'
  proof -
    from v r'(1) consider "next_addr (cache sr) \<le> req_self r'" "req_times_sent r' = 1"
      | r where "r \<in> set (requests (cache sr))" "req_self r' = req_self r" "req_ip r' = req_ip r"
        "unat (req_times_sent r') \<le> max 1 (unat (req_times_sent r)) + (if req_self r = a \<and> req_times_sent r < 5 then 1 else 0)"
      unfolding visited_def by blast
    then show ?thesis
    proof cases
      case 1
      with n old show ?thesis by auto
    next
      case 2
      have "unat (req_times_sent r) \<le> n" using up 2 r'(2) by (simp add: asked_upto_def)
      moreover have "unat (req_times_sent r) \<le> n - 1" if "req_self r = a \<or> req_self r \<in> set as"
        using rest 2 r'(2) that by (auto simp: asked_upto_def)
      ultimately show ?thesis using 2 n a by (auto split: if_splits)
    qed
  qed
  then show "asked_upto nh n UNIV (cache sr')" and "asked_upto nh (n - 1) (set as) (cache sr')"
    by (auto simp: asked_upto_def)
qed

lemma running_but_expire: "running_but m B sr \<Longrightarrow> running_but m B (sr\<lparr>cache := expire_entries t (cache sr)\<rparr>)"
  by (simp add: running_but_def router_inv_def cache_inv_def expire_table_inv names_ok_def)
    (simp add: expire_entries_def queue_inv_def queue_pkts_ok_def asked_but_def)

lemma expire_requests [simp]: "requests (expire_entries t c) = requests c"
  by (simp add: expire_entries_def)

lemma send_inv_requests:
  "send_inv nh sr pc \<Longrightarrow> same_config sr sr' \<Longrightarrow> requests (cache sr') = requests (cache sr) \<Longrightarrow> send_inv nh sr' pc"
  using route_lookups_config [of sr sr'] by (cases pc) (auto simp: deref_req_def)

definition new_round :: "turn \<Rightarrow> threads \<Rightarrow> nat" where
  "new_round t s = (case t of Timer _ \<Rightarrow> if th_timer s = Asleep then 1 else 0 | Receiver _ \<Rightarrow> 0)"

lemma sweep_visit:
  assumes e0: "env_ok e0" and run: "running_but m B sr" and as: "addrs sr = pre @ a # as" and m: "5 \<le> m"
  obtains sr' pre' where "timer_step e sr (Sweeping e0 (hd_opt (a # as))) = Some (sr', Sweeping e0 (hd_opt as))"
    "same_config sr sr'" "running_but m B sr'" "addrs sr' = pre' @ as" "visited a (cache sr) (cache sr')"
    "prefix (sock_out sr) (sock_out sr')" "a \<notin> set as" "\<forall>b \<in> set as. b < next_addr (cache sr)"
proof -
  have q: "queue_inv (cache sr)" using run by (simp add: running_but_def router_inv_def cache_inv_def)
  then have dist: "distinct (addrs sr)" and old: "\<forall>b \<in> set (addrs sr). b < next_addr (cache sr)"
    by (auto simp: queue_inv_def)
  have a: "a \<in> set (addrs sr)" "a \<notin> set pre" "a \<notin> set as" using dist unfolding as by auto
  have nxt: "next_req (requests (cache sr)) a = hd_opt as"
    using next_req_at [of "requests (cache sr)" pre a as] as a by (simp add: hd_opt_def)
  obtain sr' new where v: "sweep_req e0 sr a = Some sr'" "same_config sr sr'" "running_but m B sr'"
      "addrs sr' = new @ addrs sr \<or> addrs sr' = new @ remove1 a (addrs sr)"
      "visited a (cache sr) (cache sr')" "prefix (sock_out sr) (sock_out sr')"
    by (rule sweep_req_but [OF e0 run a(1) m])
  have "remove1 a (addrs sr) = pre @ as" using as a by (simp add: remove1_append)
  then obtain pre' where "addrs sr' = pre' @ as"
    using v(4) as by (metis append.assoc append_Cons append_Nil)
  moreover have "\<forall>b \<in> set as. b < next_addr (cache sr)" using old unfolding as by simp
  ultimately show thesis
    using that v nxt a(3) by (simp add: hd_opt_def [of "a # as"])
qed

lemma timer_turn:
  assumes e: "env_ok e" and I: "threads_inv nh n s" and n: "1 \<le> n"
    "counting (th_send s) \<Longrightarrow> n + new_round (Timer e) s \<le> 4"
  obtains s' where "take_turn (Timer e) s = Some s'" "threads_inv nh (n + new_round (Timer e) s) s'"
    "same_config (th_sr s) (th_sr s')" "th_send s' = th_send s" "prefix (sock_out (th_sr s)) (sock_out (th_sr s'))"
proof -
  define sr where "sr = th_sr s"
  define live where "live \<longleftrightarrow> counting (th_send s)"
  have run: "running_but 5 (held (th_send s)) sr" and pc: "send_inv nh sr (th_send s)"
    and tm: "timer_inv live nh n sr (th_timer s)"
    using I by (auto simp: threads_inv_def sr_def live_def)
  have "\<exists>sr' tm'. timer_step e sr (th_timer s) = Some (sr', tm') \<and> same_config sr sr' \<and>
      running_but 5 (held (th_send s)) sr' \<and> send_inv nh sr' (th_send s) \<and>
      timer_inv live nh (n + new_round (Timer e) s) sr' tm' \<and> prefix (sock_out sr) (sock_out sr')"
  proof (cases "th_timer s")
    case Asleep
    let ?sr = "sr\<lparr>cache := expire_entries (now e) (cache sr)\<rparr>"
    have cfg: "same_config sr ?sr" by (simp add: same_config_def)
    have cur: "first_req (cache ?sr) = hd_opt (addrs ?sr)"
      by (simp add: first_req_def hd_opt_def split: list.split)
    have "timer_inv live nh (n + 1) ?sr (Sweeping e (first_req (cache ?sr)))"
      unfolding cur timer_inv.simps
      by (intro conjI exI [of _ "[]"] exI [of _ "addrs ?sr"]) (use tm Asleep e n(1) in \<open>auto simp: asked_upto_def\<close>)
    with Asleep run cfg send_inv_requests [OF pc cfg] running_but_expire [OF run] show ?thesis
      by (simp add: new_round_def Let_def)
  next
    case (Sweeping e0 cur)
    then obtain pre as where as: "addrs sr = pre @ as" "cur = hd_opt as" "env_ok e0"
        "live \<longrightarrow> 2 \<le> n \<and> asked_upto nh n UNIV (cache sr) \<and> asked_upto nh (n - 1) (set as) (cache sr)"
      using tm by auto
    show ?thesis
    proof (cases as)
      case Nil
      with as Sweeping run pc show ?thesis by (simp add: hd_opt_def new_round_def)
    next
      case (Cons a as')
      obtain sr' pre' where v: "timer_step e sr (Sweeping e0 (hd_opt (a # as'))) = Some (sr', Sweeping e0 (hd_opt as'))"
          "same_config sr sr'" "running_but 5 (held (th_send s)) sr'" "addrs sr' = pre' @ as'"
          "visited a (cache sr) (cache sr')" "prefix (sock_out sr) (sock_out sr')" "a \<notin> set as'"
          "\<forall>b \<in> set as'. b < next_addr (cache sr)"
        by (rule sweep_visit [OF as(3) run as(1) [unfolded Cons] order_refl])
      have q': "queue_inv (cache sr')" using v(3) by (simp add: running_but_def router_inv_def cache_inv_def)
      have "req_times_sent r < 5" if "counting (th_send s)" "r \<in> set (requests (cache sr))" "req_ip r = nh"
          "req_self r = a" for r
        using as(4) that n Cons unfolding live_def by (auto simp: asked_upto_def word_less_nat_alt)
      then have "send_inv nh sr' (th_send s)"
        using send_inv_visited [OF pc v(2,5) q'] by blast
      moreover have "live \<longrightarrow> asked_upto nh n UNIV (cache sr') \<and> asked_upto nh (n - 1) (set as') (cache sr')"
        using as(4) visited_counts [OF v(5) _ _ _ v(7,8)] unfolding Cons by blast
      then have "timer_inv live nh n sr' (Sweeping e0 (hd_opt as'))"
        using as(3,4) v(4) unfolding timer_inv.simps by (intro conjI exI [of _ pre'] exI [of _ as']) simp_all
      ultimately show ?thesis
        using Sweeping as(2) Cons v by (simp add: new_round_def del: timer_step.simps)
    qed
  qed
  then obtain sr' tm' where "timer_step e sr (th_timer s) = Some (sr', tm')" "same_config sr sr'"
      "running_but 5 (held (th_send s)) sr'" "send_inv nh sr' (th_send s)"
      "timer_inv live nh (n + new_round (Timer e) s) sr' tm'" "prefix (sock_out sr) (sock_out sr')" by blast
  moreover from this(1) have "take_turn (Timer e) s = Some (s\<lparr>th_sr := sr', th_timer := tm'\<rparr>)"
    by (simp add: sr_def)
  ultimately show thesis
    using that [of "s\<lparr>th_sr := sr', th_timer := tm'\<rparr>"] by (simp add: threads_inv_def sr_def live_def)
qed

section \<open>Schedules\<close>

text \<open>How many rounds the timer thread begins in a schedule.\<close>

fun rounds :: "turn list \<Rightarrow> threads \<Rightarrow> nat" where
  "rounds [] s = 0"
| "rounds (t # turns) s =
     new_round t s + (case take_turn t s of None \<Rightarrow> 0 | Some s \<Rightarrow> rounds turns s)"

lemma rounds_le: "rounds turns s \<le> length (filter (\<lambda>t. case t of Timer _ \<Rightarrow> True | Receiver _ \<Rightarrow> False) turns)"
proof (induction turns arbitrary: s)
  case (Cons t turns)
  from Cons.IH show ?case
    by (cases t) (auto simp: new_round_def split: option.split intro: le_SucI)
qed simp

lemma schedule_inv:
  "threads_inv nh n s \<Longrightarrow> \<forall>t \<in> set turns. turn_ok t \<Longrightarrow> 1 \<le> n \<Longrightarrow> n + rounds turns s \<le> 4 \<Longrightarrow>
   \<exists>s'. schedule turns s = Some s' \<and> threads_inv nh (n + rounds turns s) s' \<and> same_config (th_sr s) (th_sr s')"
proof (induction turns arbitrary: s n)
  case (Cons t turns)
  have le: "n + new_round t s \<le> 4" "1 \<le> n + new_round t s" using Cons.prems(3,4) by simp_all
  obtain s1 where s1: "take_turn t s = Some s1" "threads_inv nh (n + new_round t s) s1"
      "same_config (th_sr s) (th_sr s1)"
  proof (cases t)
    case (Receiver e)
    with Cons.prems le(1) show thesis
      by (elim receiver_turn [of e nh n s, rotated 1]) (auto simp: new_round_def intro: that)
  next
    case (Timer e)
    with Cons.prems le(1) show thesis
      by (elim timer_turn [of e nh n s, rotated 1]) (auto intro: that)
  qed
  have "n + new_round t s + rounds turns s1 \<le> 4" using Cons.prems(4) s1(1) by simp
  from Cons.IH [OF s1(2) _ le(2) this] Cons.prems(2) s1
  show ?case by (auto simp: add.assoc intro: same_config_trans)
qed simp

text \<open>How often a next hop has been asked for.\<close>

definition times_asked :: "sr_arpcache \<Rightarrow> u32 \<Rightarrow> nat" where
  "times_asked c nh = (case find_req (requests c) nh of None \<Rightarrow> 0 | Some r \<Rightarrow> unat (req_times_sent r))"

lemma sending_inv:
  assumes run: "running sr" and p: "frame_ok p len" and h: "ld_ip p 14 = Some h"
    and nh: "\<And>out ip. route_to sr (ip_dst h) = Some (out, ip) \<Longrightarrow> ip = nh"
  shows "threads_inv nh (max 1 (times_asked (cache sr) nh)) (sending sr p len)"
proof -
  have d: "distinct (map req_ip (requests (cache sr)))"
    using run by (simp add: running_def router_inv_def cache_inv_def queue_inv_def)
  have "unat (req_times_sent r) \<le> times_asked (cache sr) nh"
    if "r \<in> set (requests (cache sr))" "req_ip r = nh" for r
    using find_req_unique [OF d that(1)] that(2) by (simp add: times_asked_def)
  then have "asked_upto nh (max 1 (times_asked (cache sr) nh)) UNIV (cache sr)"
    by (fastforce simp: asked_upto_def)
  with run p h nh show ?thesis by (simp add: threads_inv_def running_but_none)
qed

section \<open>Both threads get on\<close>

fun turns_left :: "sr_instance \<Rightarrow> send_pc \<Rightarrow> nat" where
  "turns_left sr (Start p len) = 7"
| "turns_left sr (Resolve p len i ip) = 6"
| "turns_left sr (Enqueue p len i ip) = 5"
| "turns_left sr (Check a i) = 4"
| "turns_left sr (Ask a i) = 3"
| "turns_left sr (Stamp a) = 2"
| "turns_left sr (Count a) = 1"
| "turns_left sr (Deliver p len i en) = 1"
| "turns_left sr (Learn h) = turns_for sr (ar_sip h)"
| "turns_left sr (Flush sha qs a) = Suc (length qs)"
| "turns_left sr Done = 0"

lemma turns_left_0 [simp]: "turns_left sr pc = 0 \<longleftrightarrow> pc = Done"
  by (cases pc) (simp_all add: turns_for_def split: option.split)

lemma send_step_progress:
  assumes "send_step e sr pc = Some (sr', pc')"
  shows "turns_left sr' pc' \<le> turns_left sr pc - 1"
proof (cases pc)
  case (Start p len)
  with assms have "send_start e sr p len = Some pc'" by (auto simp: send_step_def bind_eq_Some_conv)
  then obtain h where h: "ld_ip p 14 = Some h"
    by (cases "ld_ip p 14") (simp_all add: send_start_def)
  with \<open>send_start e sr p len = Some pc'\<close> have "pc' = Done \<or> (\<exists>q i ip. pc' = Resolve q len i ip)"
    by (auto simp: send_start_def bind_eq_Some_conv split: option.split_asm if_split_asm)
  with Start show ?thesis by auto
next
  case (Learn h)
  with assms show ?thesis
    by (auto simp: send_step_def split_beta insert_requests turns_for_def split: option.splits)
next
  case (Flush sha qs a)
  with assms show ?thesis
    by (auto simp: send_step_def bind_eq_Some_conv simp del: flush_packets.simps split: list.splits)
qed (use assms in \<open>auto simp: send_step_def bind_eq_Some_conv split: option.splits if_splits prod.splits\<close>)

lemma receiver_finishes:
  assumes e: "env_ok e"
  shows "threads_inv nh n s \<Longrightarrow> (counting (th_send s) \<longrightarrow> n \<le> 4) \<Longrightarrow> th_timer s = Asleep \<Longrightarrow>
    turns_left (th_sr s) (th_send s) \<le> k \<Longrightarrow>
    \<exists>s'. schedule (replicate k (Receiver e)) s = Some s' \<and> th_send s' = Done \<and> running (th_sr s')"
proof (induction k arbitrary: s)
  case 0
  then have "th_send s = Done" by simp
  with 0 show ?case by (simp add: threads_inv_def running_but_none)
next
  case (Suc k)
  obtain s1 where s1: "take_turn (Receiver e) s = Some s1" "threads_inv nh n s1" "th_timer s1 = Asleep"
    "counting (th_send s1) \<longrightarrow> n \<le> 4"
    using receiver_turn [OF e Suc.prems(1)] Suc.prems(2,3) by metis
  have "send_step e (th_sr s) (th_send s) = Some (th_sr s1, th_send s1)"
    using s1(1) Suc.prems(3) by (auto simp: bind_eq_Some_conv)
  from send_step_progress [OF this] have "turns_left (th_sr s1) (th_send s1) \<le> k"
    using Suc.prems(4) by simp
  from Suc.IH [OF s1(2,4,3) this] s1(1) show ?case by simp
qed

lemma timer_finishes:
  assumes e: "env_ok e" and n: "1 \<le> n" and I: "threads_inv nh n s" and c: "counting (th_send s) \<longrightarrow> n \<le> 4"
  shows "\<exists>k s'. schedule (replicate k (Timer e)) s = Some s' \<and> threads_inv nh n s' \<and> th_timer s' = Asleep \<and>
    th_send s' = th_send s"
proof (cases "th_timer s")
  case Asleep
  with I show ?thesis by (intro exI [of _ 0] exI [of _ s]) simp
next
  case (Sweeping e0 cur)
  have go: "\<exists>k s'. schedule (replicate k (Timer e)) s = Some s' \<and> threads_inv nh n s' \<and> th_timer s' = Asleep \<and>
      th_send s' = th_send s"
    if "threads_inv nh n s" "counting (th_send s) \<longrightarrow> n \<le> 4" "th_timer s = Sweeping e0 (hd_opt as)" "addrs (th_sr s) = pre @ as" for s pre as
    using that
  proof (induction as arbitrary: s pre)
    case Nil
    have "new_round (Timer e) s = 0" using Nil.prems(3) by (simp add: new_round_def)
    then obtain s1 where s1: "take_turn (Timer e) s = Some s1" "threads_inv nh n s1" "th_send s1 = th_send s"
      using timer_turn [OF e Nil.prems(1) n] Nil.prems(2) by (metis add.right_neutral)
    moreover have "th_timer s1 = Asleep" using s1(1) Nil.prems(3) by (auto simp: hd_opt_def)
    ultimately show ?case by (intro exI [of _ 1] exI [of _ s1]) simp
  next
    case (Cons a as)
    have "new_round (Timer e) s = 0" using Cons.prems(3) by (simp add: new_round_def)
    then obtain s1 where s1: "take_turn (Timer e) s = Some s1" "threads_inv nh n s1" "th_send s1 = th_send s"
      using timer_turn [OF e Cons.prems(1) n] Cons.prems(2) by (metis add.right_neutral)
    have run: "running_but 5 (held (th_send s)) (th_sr s)" and e0: "env_ok e0"
      using Cons.prems(1,3) by (simp_all add: threads_inv_def)
    obtain sr' pre' where v: "timer_step e (th_sr s) (Sweeping e0 (hd_opt (a # as))) = Some (sr', Sweeping e0 (hd_opt as))"
        "addrs sr' = pre' @ as"
      by (rule sweep_visit [OF e0 run Cons.prems(4) order_refl])
    moreover have "s1 = s\<lparr>th_sr := sr', th_timer := Sweeping e0 (hd_opt as)\<rparr>"
      using s1(1) Cons.prems(3) v(1) by (simp del: timer_step.simps)
    ultimately obtain k s' where "schedule (replicate k (Timer e)) s1 = Some s'" "threads_inv nh n s'"
        "th_timer s' = Asleep" "th_send s' = th_send s"
      using Cons.IH [OF s1(2), of pre'] Cons.prems(2) s1(3) by auto
    with s1(1) show ?case by (intro exI [of _ "Suc k"] exI [of _ s']) simp
  qed
  from I Sweeping obtain pre as where "addrs (th_sr s) = pre @ as" "cur = hd_opt as"
    by (auto simp: threads_inv_def)
  with go [OF I c] Sweeping show ?thesis by blast
qed

lemma both_finish:
  assumes e: "env_ok e" and I: "threads_inv nh n s" and n: "1 \<le> n" and c: "counting (th_send s) \<longrightarrow> n \<le> 4"
  shows "\<exists>k m s'. schedule (replicate k (Timer e) @ replicate m (Receiver e)) s = Some s' \<and>
    th_send s' = Done \<and> running (th_sr s')"
proof -
  obtain k s1 where s1: "schedule (replicate k (Timer e)) s = Some s1" "threads_inv nh n s1"
      "th_timer s1 = Asleep" "th_send s1 = th_send s" using timer_finishes [OF e n I c] by blast
  with receiver_finishes [OF e s1(2) _ s1(3) order_refl] c show ?thesis
    by (intro exI [of _ k] exI [of _ "turns_left (th_sr s1) (th_send s1)"]) (auto simp: schedule_append)
qed

section \<open>An answer that comes while the timer runs\<close>

text \<open>
  The request is out of the queue when the loop over its packets begins, so the timer cannot
  reach it: there is no bound on its rounds here. Each packet is sent once, in order, with
  whatever the timer sends in between.
\<close>

fun owed :: "send_pc \<Rightarrow> sr_packet list" where
  "owed (Flush sha qs a) = qs"
| "owed pc = []"

definition flushing :: "mac \<Rightarrow> nat \<Rightarrow> threads \<Rightarrow> bool" where
  "flushing sha a s \<longleftrightarrow> th_send s = Done \<or> th_send s = Flush sha (owed (th_send s)) a"

definition delivers :: "mac \<Rightarrow> nat \<Rightarrow> threads \<Rightarrow> threads \<Rightarrow> bool" where
  "delivers sha a s s' \<longleftrightarrow>
     threads_inv 0 1 s' \<and> same_config (th_sr s) (th_sr s') \<and> flushing sha a s' \<and>
     (\<exists>sent out. owed (th_send s) = sent @ owed (th_send s') \<and> sock_out (th_sr s') = sock_out (th_sr s) @ out \<and>
        subseq (flush_msgs (th_sr s) sha sent) out)"

lemma flush_msgs_config: "same_config sr sr' \<Longrightarrow> flush_msgs sr' sha qs = flush_msgs sr sha qs"
  by (simp add: flush_msgs_def same_config_lookups)

lemma flush_msgs_append: "flush_msgs sr sha (xs @ ys) = flush_msgs sr sha xs @ flush_msgs sr sha ys"
  by (simp add: flush_msgs_def)

lemma delivers_refl: "threads_inv 0 1 s \<Longrightarrow> flushing sha a s \<Longrightarrow> delivers sha a s s"
  by (simp add: delivers_def flush_msgs_def)

lemma delivers_trans:
  assumes "delivers sha a s1 s2" and "delivers sha a s2 s3"
  shows "delivers sha a s1 s3"
proof -
  obtain x out where 1: "owed (th_send s1) = x @ owed (th_send s2)" "sock_out (th_sr s2) = sock_out (th_sr s1) @ out"
      "subseq (flush_msgs (th_sr s1) sha x) out" "same_config (th_sr s1) (th_sr s2)"
    using assms(1) by (auto simp: delivers_def)
  obtain y out' where 2: "owed (th_send s2) = y @ owed (th_send s3)" "sock_out (th_sr s3) = sock_out (th_sr s2) @ out'"
      "subseq (flush_msgs (th_sr s2) sha y) out'" "same_config (th_sr s2) (th_sr s3)"
    using assms(2) by (auto simp: delivers_def)
  have "subseq (flush_msgs (th_sr s1) sha (x @ y)) (out @ out')"
    using list_emb_append_mono [OF 1(3) 2(3)] flush_msgs_config [OF 1(4)] by (simp add: flush_msgs_append)
  moreover have "owed (th_send s1) = (x @ y) @ owed (th_send s3)"
    "sock_out (th_sr s3) = sock_out (th_sr s1) @ (out @ out')" using 1 2 by simp_all
  ultimately show ?thesis
    using assms(2) same_config_trans [OF 1(4) 2(4)] unfolding delivers_def by blast
qed

lemma flushing_receiver:
  assumes e: "env_ok e" and I: "threads_inv 0 1 s" and f: "flushing sha a s"
  obtains s' where "take_turn (Receiver e) s = Some s'" "delivers sha a s s'"
proof -
  obtain s' where s': "take_turn (Receiver e) s = Some s'" "threads_inv 0 1 s'" "same_config (th_sr s) (th_sr s')"
    using receiver_turn [OF e I] by auto
  have "delivers sha a s s'"
  proof (cases "th_send s")
    case (Flush sha' qs a')
    then have pc: "th_send s = Flush sha qs a" using f by (simp add: flushing_def)
    show ?thesis
    proof (cases qs)
      case Nil
      show ?thesis
      proof (cases "th_timer s = Asleep")
        case True
        then have "th_send s' = Done" "sock_out (th_sr s') = sock_out (th_sr s)"
          using s'(1) pc Nil by (auto simp: send_step_def)
        with pc Nil s' show ?thesis by (simp add: delivers_def flushing_def flush_msgs_def)
      next
        case False
        then have "s' = s" using s'(1) pc Nil by simp
        with I f show ?thesis by (simp add: delivers_refl)
      qed
    next
      case (Cons q qs')
      have "pkt_ok q" using I pc Cons by (simp add: threads_inv_def)
      then have "flush_packets e (th_sr s) sha [q] = Some (flush_one e sha q (th_sr s))"
        using flush_packets_eq [OF e, of "[q]" "th_sr s" sha] by simp
      then have "th_send s' = Flush sha qs' a" "th_sr s' = flush_one e sha q (th_sr s)"
        using s'(1) pc Cons by (auto simp: send_step_def simp del: flush_packets.simps)
      moreover have "sock_out (flush_one e sha q (th_sr s)) = sock_out (th_sr s) @ flush_msgs (th_sr s) sha [q]"
        using flush_sock_out [of e sha "[q]" "th_sr s"] by simp
      ultimately show ?thesis
        using pc Cons s' by (auto simp: delivers_def flushing_def intro!: exI [of _ "[q]"])
    qed
  next
    case Done
    then have "s' = s" using s'(1) by (cases s) (simp add: send_step_def)
    with I f show ?thesis by (simp add: delivers_refl)
  qed (use f in \<open>simp_all add: flushing_def\<close>)
  with s'(1) that show thesis by blast
qed

lemma threads_inv_uncounted:
  "threads_inv nh n s \<Longrightarrow> \<not> counting (th_send s) \<Longrightarrow> threads_inv nh n' s"
  by (cases "th_timer s") (auto simp: threads_inv_def)

lemma flushing_uncounted: "flushing sha a s \<Longrightarrow> \<not> counting (th_send s)"
  by (cases "th_send s") (auto simp: flushing_def)

lemma flushing_timer:
  assumes e: "env_ok e" and I: "threads_inv 0 1 s" and f: "flushing sha a s"
  obtains s' where "take_turn (Timer e) s = Some s'" "delivers sha a s s'"
proof -
  note c = flushing_uncounted [OF f]
  obtain s' where s': "take_turn (Timer e) s = Some s'" "threads_inv 0 (1 + new_round (Timer e) s) s'"
      "same_config (th_sr s) (th_sr s')" "th_send s' = th_send s" "prefix (sock_out (th_sr s)) (sock_out (th_sr s'))"
    using timer_turn [OF e I order_refl] c by metis
  have "threads_inv 0 1 s'" using threads_inv_uncounted [OF s'(2)] c s'(4) by simp
  with s' f have "delivers sha a s s'"
    by (auto simp: delivers_def flushing_def flush_msgs_def prefix_def)
  with s'(1) that show thesis by blast
qed

text \<open>So any schedule is tracked by what has been delivered.\<close>

interpretation flush: tracking_system take_turn turn_ok "\<lambda>s. threads_inv 0 1 s \<and> flushing sha a s" "delivers sha a"
  for sha a
proof unfold_locales
  have turn: "\<exists>s'. take_turn t s = Some s' \<and> delivers sha a s s'"
    if "threads_inv 0 1 s \<and> flushing sha a s" "turn_ok t" for t s
    using that by (cases t) (auto elim: flushing_receiver flushing_timer simp del: take_turn.simps)
  show "\<exists>s'. take_turn t s = Some s' \<and> threads_inv 0 1 s' \<and> flushing sha a s'"
    if "threads_inv 0 1 s \<and> flushing sha a s" "turn_ok t" for t s
    using turn [OF that] by (auto simp: delivers_def simp del: take_turn.simps)
  show "delivers sha a s s'"
    if "threads_inv 0 1 s \<and> flushing sha a s" "turn_ok t" "take_turn t s = Some s'" for t s s'
    using turn [OF that(1,2)] that(3) by simp
qed (auto intro: delivers_refl delivers_trans)

lemma schedule_run_all: "schedule turns s = flush.run_all turns s"
  by (induction turns arbitrary: s) (simp_all cong: Option.bind_cong del: take_turn.simps)

lemma flushing_schedule:
  "threads_inv 0 1 s \<Longrightarrow> flushing sha a s \<Longrightarrow> \<forall>t \<in> set turns. turn_ok t \<Longrightarrow>
   \<exists>s'. schedule turns s = Some s' \<and> delivers sha a s s'"
  using flush.run_all_tracked [of s sha a turns] by (auto simp: schedule_run_all)

text \<open>The first turn, which takes the request out of the queue.\<close>

lemma answer_begins:
  assumes e: "env_ok e" and run: "running sr"
  obtains s a where "take_turn (Receiver e) (answering sr h) = Some s" "threads_inv 0 1 s"
    "flushing (ar_sha h) a s" "owed (th_send s) = waiting_for sr (ar_sip h)" "same_config sr (th_sr s)"
    "sock_out (th_sr s) = sock_out sr"
proof -
  have I: "threads_inv 0 1 (answering sr h)" using run by (simp add: threads_inv_def running_but_none)
  obtain s where s: "take_turn (Receiver e) (answering sr h) = Some s" "threads_inv 0 1 s" "same_config sr (th_sr s)"
    using receiver_turn [OF e I] by auto
  have "fst (sr_arpcache_insert e (cache sr) (ar_sha h) (ar_sip h)) = find_req (requests (cache sr)) (ar_sip h)"
    by (simp add: insert_requests)
  with s(1) have "flushing (ar_sha h) (case find_req (requests (cache sr)) (ar_sip h) of None \<Rightarrow> 0 | Some r \<Rightarrow> req_self r) s"
    "owed (th_send s) = waiting_for sr (ar_sip h)" "sock_out (th_sr s) = sock_out sr"
    by (auto simp: send_step_def split_beta flushing_def waiting_for_def pending_def split: option.splits)
  with that s show thesis by blast
qed

section \<open>What happens when the timer is too fast\<close>

text \<open>
  A request that is due and was asked for five times is gone once the sweep has come to it,
  whoever holds a pointer to it.
\<close>

lemma sweep_destroys:
  assumes e: "env_ok e"
  shows "running sr \<Longrightarrow> addrs sr = pre @ as \<Longrightarrow> a \<in> set as \<Longrightarrow> deref_req (cache sr) a = Some r \<Longrightarrow>
    5 \<le> req_times_sent r \<Longrightarrow> 1 \<le> now e - req_sent r \<Longrightarrow>
    \<exists>k sr' tm'. schedule (replicate k (Timer e)) \<lparr>th_sr = sr, th_send = pc, th_timer = Sweeping e (hd_opt as)\<rparr> =
      Some \<lparr>th_sr = sr', th_send = pc, th_timer = tm'\<rparr> \<and> deref_req (cache sr') a = None"
proof (induction as arbitrary: sr pre r)
  case (Cons b as)
  have q: "queue_inv (cache sr)" and dist: "distinct (addrs sr)"
    using Cons.prems(1) by (simp_all add: running_def router_inv_def cache_inv_def queue_inv_def)
  have r: "r \<in> set (requests (cache sr))" "req_self r = a" using deref_req_Some [OF Cons.prems(4)] by auto
  have old: "a < next_addr (cache sr)" using q r by (auto simp: queue_inv_def)
  have uniq: "x = r" if "x \<in> set (requests (cache sr))" "req_self x = a" for x
    using deref_req_unique [OF q that(1)] that(2) Cons.prems(4) by simp
  have nxt: "next_req (requests (cache sr)) b = hd_opt as"
    using next_req_at [OF Cons.prems(2)] dist Cons.prems(2) by (simp add: hd_opt_def)
  have b: "b \<in> set (addrs sr)" using Cons.prems(2) by simp
  obtain sr1 where sr1: "sweep_req e sr b = Some sr1" "running sr1"
    using sweep_req_visits [OF e Cons.prems(1) b] by (auto simp: visits_def)
  note rel = sweep_req_tick [OF e Cons.prems(1) b sr1(1)]
  have step: "take_turn (Timer e) \<lparr>th_sr = sr, th_send = pc, th_timer = Sweeping e (hd_opt (b # as))\<rparr> =
      Some \<lparr>th_sr = sr1, th_send = pc, th_timer = Sweeping e (hd_opt as)\<rparr>"
    using sr1(1) nxt by (simp add: hd_opt_def [of "b # as"])
  show ?case
  proof (cases "deref_req (cache sr1) a")
    case None
    with step show ?thesis by (intro exI [of _ 1] exI [of _ sr1] exI [of _ "Sweeping e (hd_opt as)"]) simp
  next
    case (Some r1)
    then have r1: "r1 \<in> set (requests (cache sr1))" "req_self r1 = a" using deref_req_Some by auto
    with rel old obtain x where x: "x \<in> set (requests (cache sr))" "req_self x = req_self r1"
        "if req_self x \<in> {b} then ticked (now e) x r1 else same_history x r1"
      unfolding tick_rel_def by (metis (no_types, lifting))
    then have "x = r" using uniq r1(2) by simp
    with x Cons.prems(5,6) have "a \<noteq> b" and same: "req_sent r1 = req_sent r" "req_times_sent r1 = req_times_sent r"
      using r(2) by (auto simp: ticked_def same_history_def split: if_splits)
    then have "a \<in> set as" using Cons.prems(3) by simp
    moreover obtain pre' where "addrs sr1 = pre' @ as"
      using visit_suffix [OF Cons.prems(1,2)] sweep_req_visits [OF e Cons.prems(1) b] sr1(1) by metis
    ultimately obtain k sr' tm' where
      "schedule (replicate k (Timer e)) \<lparr>th_sr = sr1, th_send = pc, th_timer = Sweeping e (hd_opt as)\<rparr> =
        Some \<lparr>th_sr = sr', th_send = pc, th_timer = tm'\<rparr>" "deref_req (cache sr') a = None"
      using Cons.IH [OF sr1(2) _ _ Some] Cons.prems(5,6) same by metis
    with step show ?thesis by (intro exI [of _ "Suc k"] exI [of _ sr'] exI [of _ tm']) simp
  qed
qed simp

lemma round_destroys:
  assumes e: "env_ok e" and run: "running sr" and r: "deref_req (cache sr) a = Some r"
    and old: "5 \<le> req_times_sent r" "1 \<le> now e - req_sent r"
  obtains k sr' tm' where
    "schedule (replicate k (Timer e)) \<lparr>th_sr = sr, th_send = pc, th_timer = Asleep\<rparr> =
      Some \<lparr>th_sr = sr', th_send = pc, th_timer = tm'\<rparr>" "deref_req (cache sr') a = None"
proof -
  let ?sr = "sr\<lparr>cache := expire_entries (now e) (cache sr)\<rparr>"
  have d: "deref_req (cache ?sr) a = Some r" using r by (simp add: deref_req_def)
  have "a \<in> set (addrs ?sr)" using deref_req_Some [OF r] by force
  from sweep_destroys [OF e running_expire [OF run] _ this d old, of "[]" pc] obtain k sr' tm' where
    "schedule (replicate k (Timer e)) \<lparr>th_sr = ?sr, th_send = pc, th_timer = Sweeping e (hd_opt (addrs ?sr))\<rparr> =
      Some \<lparr>th_sr = sr', th_send = pc, th_timer = tm'\<rparr>" "deref_req (cache sr') a = None" by auto
  moreover have "first_req (cache ?sr) = hd_opt (addrs ?sr)"
    by (simp add: first_req_def hd_opt_def split: list.split)
  ultimately show thesis using that [of "Suc k" sr' tm'] by (simp add: Let_def)
qed

text \<open>The receiver's first turns, for a packet whose next hop's address is not known.\<close>

lemma send_up_to_enqueue:
  assumes e: "env_ok e" and len: "34 \<le> length p"
    and h: "ld_ip p 14 = Some h" and r: "route_to sr (ip_dst h) = Some (out, nh)"
    and m: "arp_mac (cache sr) nh = None"
  obtains q where "schedule (replicate 2 (Receiver e)) (sending sr p (length p)) =
    Some \<lparr>th_sr = sr, th_send = Enqueue q (length q) out nh, th_timer = Asleep\<rparr>" "length q = length p"
proof -
  obtain g where g: "ld_eth p 0 = Some g" using len by (simp add: eth.ld_in_bounds)
  obtain rt where rt: "sr_find_lpm_route sr (ip_dst h) = Some rt"
      "sr_get_interface sr (rt_interface rt) = Some out" "nh = next_hop rt (ip_dst h)"
    using r by (auto simp: route_to_def split: option.splits)
  let ?p = "overwrite p 0 (enc_eth (g\<lparr>ether_shost := if_addr out\<rparr>))"
  have nh: "(if rt_gw rt \<noteq> 0 then rt_gw rt else ip_dst h) = nh" by (simp add: rt(3) next_hop_def)
  have "send_start e sr p (length p) = Some (Resolve ?p (length p) out nh)"
    using rt(1,2) g h len e nh by (simp add: send_start_def load_in_bounds eth.st_in_bounds)
  moreover have "lookup_loop (entries (cache sr)) nh None = None" using m by (simp add: arp_mac_def)
  moreover have "length ?p = length p" using len by (simp add: eth.length_over)
  ultimately show thesis
    using that [of ?p] e by (simp add: numeral_2_eq_2 send_step_def arpcache_lookup_ok)
qed

text \<open>One more if the next hop has been asked for.\<close>

lemma send_up_to_check:
  assumes e: "env_ok e" and run: "running sr" and len: "34 \<le> length p" "length p < 2 ^ 31"
    and h: "ld_ip p 14 = Some h" and r: "route_to sr (ip_dst h) = Some (out, nh)"
    and m: "arp_mac (cache sr) nh = None" and rq: "find_req (requests (cache sr)) nh = Some rq"
  obtains pkt where "schedule (replicate 3 (Receiver e)) (sending sr p (length p)) =
    Some \<lparr>th_sr = sr\<lparr>cache := update_req (req_self rq) (add_packet pkt) (cache sr)\<rparr>,
      th_send = Check (req_self rq) out, th_timer = Asleep\<rparr>" "pkt_ok pkt"
proof -
  obtain q where q: "schedule (replicate 2 (Receiver e)) (sending sr p (length p)) =
      Some \<lparr>th_sr = sr, th_send = Enqueue q (length q) out nh, th_timer = Asleep\<rparr>" "length q = length p"
    by (rule send_up_to_enqueue [OF e len(1) h r m])
  have "q \<noteq> []" using q(2) len by auto
  with queuereq_eq [of e q "cache sr" nh "if_name out"] e rq
  have "sr_arpcache_queuereq e (cache sr) nh q (length q) (if_name out) =
      Some (req_self rq, update_req (req_self rq) (add_packet (queued_packet q (if_name out))) (cache sr))"
    by simp
  moreover have "pkt_ok (queued_packet q (if_name out))"
    using q(2) len by (simp add: pkt_ok_def queued_packet_def)
  moreover have "replicate 3 (Receiver e) = replicate 2 (Receiver e) @ [Receiver e]" by (simp add: numeral_eq_Suc)
  ultimately show thesis using that q(1) by (simp add: schedule_append send_step_def del: replicate.simps)
qed

text \<open>
  The timer can repeat a request that the receiver is just about to send for the first time: then two
  requests go out at once, where one a second is meant to.
\<close>

lemma schedule_on: "schedule turns s = Some s' \<Longrightarrow> schedule (turns @ more_turns) s = schedule more_turns s'"
  by (simp add: schedule_append)

lemma visit_before_ask:
  assumes e: "env_ok e" "env_ok e'" and r: "deref_req (cache sr) a = Some r"
    and fresh: "req_sent r = 0" "req_times_sent r = 0" "1 \<le> now e'"
    and out: "sr_get_interface sr (if_name out) = Some out" "req_packets r = pkt # pkts"
      "sr_get_interface sr (pkt_iface pkt) = Some out"
  obtains s where
    "schedule [Timer e', Receiver e] \<lparr>th_sr = sr, th_send = Ask a out, th_timer = Sweeping e' (Some a)\<rparr> = Some s"
    "sock_out (th_sr s) = sock_out sr @ [vns_packet (pkt_iface pkt) (arp_request_frame out (req_ip r)),
       vns_packet (if_name out) (arp_request_frame out (req_ip r))]"
proof -
  let ?sr1 = "(emit e' (pkt_iface pkt) (arp_request_frame out (req_ip r)) sr)
    \<lparr>cache := update_req a (mark_sent e') (cache sr)\<rparr>"
  have s: "sweep_req e' sr a = Some ?sr1"
    using r fresh out(2) send_arp_request_emit [OF e(2) out(3), of "req_ip r"]
    by (simp add: sweep_req_def arpcache_send_arp_request_eq)
  have d: "deref_req (cache ?sr1) a = Some (mark_sent e' r)" using r by (simp add: deref_req_update)
  have "sr_get_interface ?sr1 (if_name out) = Some out" using out(1) by (simp add: emit_def)
  from send_arp_request_emit [OF e(1) this, of "req_ip r"] s d that show ?thesis
    by (auto simp: send_step_def mark_sent_def)
qed

lemma asked_twice_at_once:
  assumes e: "env_ok e" "env_ok e'" and run: "running sr" and len: "34 \<le> length p"
    and h: "ld_ip p 14 = Some h" and r: "route_to sr (ip_dst h) = Some (out, nh)"
    and m: "arp_mac (cache sr) nh = None" and rq: "find_req (requests (cache sr)) nh = None" and t: "1 \<le> now e'"
  obtains s where "schedule (replicate 4 (Receiver e) @ [Timer e', Timer e', Receiver e]) (sending sr p (length p)) = Some s"
    "sock_out (th_sr s) = sock_out sr @ replicate 2 (vns_packet (if_name out) (arp_request_frame out nh))"
proof -
  obtain q where q: "schedule (replicate 2 (Receiver e)) (sending sr p (length p)) =
      Some \<lparr>th_sr = sr, th_send = Enqueue q (length q) out nh, th_timer = Asleep\<rparr>" "length q = length p"
    by (rule send_up_to_enqueue [OF e(1) len h r m])
  let ?a = "next_addr (cache sr)" and ?pkt = "queued_packet q (if_name out)"
  let ?r = "\<lparr>req_self = ?a, req_ip = nh, req_sent = 0, req_times_sent = 0, req_packets = [?pkt]\<rparr>"
  let ?c = "update_req ?a (add_packet ?pkt) (new_request (cache sr) nh)"
  let ?sr = "sr\<lparr>cache := expire_entries (now e') ?c\<rparr>"
  have "q \<noteq> []" using q(2) len by auto
  with queuereq_eq [of e q "cache sr" nh "if_name out"] e(1) rq
  have enq: "sr_arpcache_queuereq e (cache sr) nh q (length q) (if_name out) = Some (?a, ?c)" by simp
  have "names_ok sr" using run by (simp add: running_def router_inv_def)
  note out = route_to_iface [OF this r]
  have d: "deref_req ?c ?a = Some ?r"
    by (simp add: deref_req_def update_req_def new_request_def add_packet_def)
  have f: "first_req ?c = Some ?a"
    by (simp add: first_req_def update_req_def new_request_def add_packet_def)
  have steps: "schedule (replicate 2 (Receiver e) @ [Timer e'])
      \<lparr>th_sr = sr, th_send = Enqueue q (length q) out nh, th_timer = Asleep\<rparr> =
    Some \<lparr>th_sr = ?sr, th_send = Ask ?a out, th_timer = Sweeping e' (Some ?a)\<rparr>"
    using enq d f by (simp add: numeral_2_eq_2 send_step_def Let_def first_req_def)
  obtain s where s: "schedule [Timer e', Receiver e]
      \<lparr>th_sr = ?sr, th_send = Ask ?a out, th_timer = Sweeping e' (Some ?a)\<rparr> = Some s"
    "sock_out (th_sr s) = sock_out ?sr @ [vns_packet (pkt_iface ?pkt) (arp_request_frame out (req_ip ?r)),
       vns_packet (if_name out) (arp_request_frame out (req_ip ?r))]"
    by (rule visit_before_ask [OF e, of ?sr ?a ?r out ?pkt "[]"])
      (use d out t in \<open>simp_all add: queued_packet_def deref_req_def\<close>)
  have "replicate 4 (Receiver e) @ [Timer e', Timer e', Receiver e] =
      replicate 2 (Receiver e) @ (replicate 2 (Receiver e) @ [Timer e']) @ [Timer e', Receiver e]"
    by (simp add: numeral_eq_Suc)
  then have "schedule (replicate 4 (Receiver e) @ [Timer e', Timer e', Receiver e]) (sending sr p (length p)) = Some s"
    using schedule_on [OF q(1)] schedule_on [OF steps] s(1) by (simp only:)
  moreover have "vns_packet (pkt_iface ?pkt) fr = vns_packet (if_name out) fr" for fr
    by (simp add: queued_packet_def vns_packet_def strncpy_field_def strncpy_def sr_IFACE_NAMELEN_def)
  ultimately show thesis using that s(2) by (simp add: numeral_2_eq_2)
qed

lemma running_add_packet:
  assumes "running sr" and "pkt_ok pkt"
  shows "running (sr\<lparr>cache := update_req a (add_packet pkt) (cache sr)\<rparr>)"
proof -
  have "queue_pkts_ok (update_req a (add_packet pkt) (cache sr))"
    using assms by (auto simp: running_def router_inv_def queue_pkts_ok_def update_req_def add_packet_def)
  with assms(1) show ?thesis
    by (simp add: running_def router_inv_def cache_inv_def update_req_queue_inv asked_add_packet names_ok_def)
qed

end
