(* ===== verification/Two_Threads.thy ===== *)
theory Two_Threads
  imports Concurrency_Safety
begin

text \<open>
  The whole program as two threads: the receiving thread takes frame after frame through
  \<^verbatim>\<open>sr_handlepacket\<close> of \<^verbatim>\<open>src/sr_router.c\<close>, the timer thread does round after round. A frame is
  handled up to the first operation on the cache in one piece, since until then a handler only
  looks at the frame, the interfaces and the routes; from there on it goes through the pieces of
  theory \<open>Concurrency\<close>. Shown here: with the other thread asleep, the pieces make up the handler
  and the round, so the sequences of theory \<open>System\<close> are among the schedules.
\<close>

section \<open>Handlers up to the cache\<close>

text \<open>What is left of \<^verbatim>\<open>sr_handle_arp\<close> after \<^verbatim>\<open>sr_cache_arp_mapping\<close>: for a request, the reply.\<close>

datatype rest = Return | Compare sr_arp_hdr sr_if cstring

definition arp_start :: "sr_instance \<Rightarrow> u8 list \<Rightarrow> nat \<Rightarrow> cstring \<Rightarrow> (send_pc \<times> rest) option" where
  "arp_start sr packet len interface =
     (if len < 14 + 28 then Some (Done, Return)
      else do {
        arp_hdr \<leftarrow> ld_arp packet 14;
        Some (case sr_get_interface sr interface of
           None \<Rightarrow> (Done, Return)
         | Some recv_iface \<Rightarrow>
             if ar_sip arp_hdr = 0 then (Done, Return)
             else if ntohs (ar_op arp_hdr) = arp_op_request then
               (Learn arp_hdr, Compare arp_hdr recv_iface interface)
             else if ntohs (ar_op arp_hdr) = arp_op_reply then
               if \<not> sr_is_router_ip sr (ar_tip arp_hdr) then (Done, Return)
               else (Learn arp_hdr, Return)
             else (Done, Return)) })"

definition error_start :: "env \<Rightarrow> sr_instance \<Rightarrow> u8 list \<Rightarrow> nat \<Rightarrow> u8 \<Rightarrow> u8 \<Rightarrow> send_pc option" where
  "error_start e sr packet len type code =
     do { reply \<leftarrow> icmp_error_packet e sr packet len type code;
          Some (case reply of None \<Rightarrow> Done | Some reply \<Rightarrow> Start reply 70) }"

definition forward_start :: "env \<Rightarrow> sr_instance \<Rightarrow> u8 list \<Rightarrow> nat \<Rightarrow> send_pc option" where
  "forward_start e sr packet len =
     do { ip_hdr \<leftarrow> ld_ip packet 14;
          if sr_find_lpm_route sr (ip_dst ip_hdr) = None
          then error_start e sr packet len 3 0
          else Some (Start packet len) }"

definition ip_start ::
  "env \<Rightarrow> sr_instance \<Rightarrow> u8 list \<Rightarrow> nat \<Rightarrow> cstring \<Rightarrow> (sr_instance \<times> send_pc) option" where
  "ip_start e sr packet len interface =
     do { (valid, packet) \<leftarrow> sr_valid_ip_packet packet len;
          if \<not> valid then Some (sr, Done)
          else do {
            ip_hdr \<leftarrow> ld_ip packet 14;
            let ip_header_len = unat (ip_hl ip_hdr) * 4;
            if sr_is_router_ip sr (ip_dst ip_hdr) then
              if ip_p ip_hdr = ip_protocol_icmp \<and>
                 unat (ntohs (ip_len ip_hdr)) \<ge> ip_header_len + 8 then
                do { icmp_hdr \<leftarrow> ld_icmp08 packet (14 + ip_header_len);
                     let icmp_len =
                       u32_sub (unat (ntohs (ip_len ip_hdr))) ip_header_len;
                     let received_sum = icmp08_sum icmp_hdr;
                     packet \<leftarrow> st_icmp08 packet (14 + ip_header_len) (icmp_hdr\<lparr>icmp08_sum := 0\<rparr>);
                     is_echo \<leftarrow>
                       (if icmp08_type icmp_hdr = 8
                        then map_option (\<lambda>s. received_sum = s)
                               (cksum_at packet (14 + ip_header_len) icmp_len)
                        else Some False);
                     packet \<leftarrow> st_icmp08 packet (14 + ip_header_len)
                       (icmp_hdr\<lparr>icmp08_sum := received_sum\<rparr>);
                     if is_echo
                     then do { sr \<leftarrow> sr_send_icmp_echo_reply e sr packet len interface; Some (sr, Done) }
                     else Some (sr, Done) }
              else if ip_p ip_hdr = ip_protocol_tcp \<or> ip_p ip_hdr = ip_protocol_udp then
                map_option (Pair sr) (error_start e sr packet len 3 3)
              else Some (sr, Done)
            else if ip_ttl ip_hdr \<le> 1 then map_option (Pair sr) (error_start e sr packet len 11 0)
            else do {
              packet \<leftarrow> st_ip packet 14 (ip_hdr\<lparr>ip_ttl := ip_ttl ip_hdr - 1, ip_sum := 0\<rparr>);
              isum \<leftarrow> cksum_at packet 14 ip_header_len;
              ip_hdr \<leftarrow> ld_ip packet 14;
              packet \<leftarrow> st_ip packet 14 (ip_hdr\<lparr>ip_sum := isum\<rparr>);
              map_option (Pair sr) (forward_start e sr packet len) } } }"

definition handler_start ::
  "env \<Rightarrow> sr_instance \<Rightarrow> u8 list \<Rightarrow> nat \<Rightarrow> cstring \<Rightarrow> (sr_instance \<times> send_pc \<times> rest) option" where
  "handler_start e sr packet len interface =
     (if len < 14 then Some (sr, Done, Return)
      else do {
        t \<leftarrow> ethertype packet;
        if t = ethertype_arp then map_option (Pair sr) (arp_start sr packet len interface)
        else if t = ethertype_ip then
          do { (sr, pc) \<leftarrow> ip_start e sr packet len interface; Some (sr, pc, Return) }
        else Some (sr, Done, Return) })"

fun rest_step :: "env \<Rightarrow> sr_instance \<Rightarrow> rest \<Rightarrow> sr_instance option" where
  "rest_step e sr Return = Some sr"
| "rest_step e sr (Compare arp_hdr recv_iface interface) =
     (if ar_tip arp_hdr = if_ip recv_iface then sr_send_arp_reply e sr arp_hdr interface else Some sr)"

section \<open>The program\<close>

record program =
  pr_threads :: threads
  pr_rest :: rest

text \<open>
  A frame is read when the receiving thread is done with the one before; a turn that comes
  earlier leaves it in the socket.
\<close>

datatype act = Frame env "u8 list" cstring | Move turn

definition idle :: "program \<Rightarrow> bool" where
  "idle s \<longleftrightarrow> th_send (pr_threads s) = Done \<and> pr_rest s = Return"

fun program_step :: "act \<Rightarrow> program \<Rightarrow> program option" where
  "program_step (Frame e p interface) s =
     (if idle s then
        do { (sr, pc, rest) \<leftarrow> handler_start e (th_sr (pr_threads s)) p (length p) interface;
             Some \<lparr>pr_threads = (pr_threads s)\<lparr>th_sr := sr, th_send := pc\<rparr>, pr_rest = rest\<rparr> }
      else Some s)"
| "program_step (Move (Receiver e)) s =
     (if th_send (pr_threads s) = Done then
        do { sr \<leftarrow> rest_step e (th_sr (pr_threads s)) (pr_rest s);
             Some \<lparr>pr_threads = (pr_threads s)\<lparr>th_sr := sr\<rparr>, pr_rest = Return\<rparr> }
      else do { t \<leftarrow> take_turn (Receiver e) (pr_threads s); Some (s\<lparr>pr_threads := t\<rparr>) })"
| "program_step (Move (Timer e)) s =
     do { t \<leftarrow> take_turn (Timer e) (pr_threads s); Some (s\<lparr>pr_threads := t\<rparr>) }"

fun program_run :: "act list \<Rightarrow> program \<Rightarrow> program option" where
  "program_run [] s = Some s"
| "program_run (a # acts) s = do { s \<leftarrow> program_step a s; program_run acts s }"

definition resting :: "sr_instance \<Rightarrow> program" where
  "resting sr = \<lparr>pr_threads = finished sr, pr_rest = Return\<rparr>"

fun act_ok :: "act \<Rightarrow> bool" where
  "act_ok (Frame e p interface) \<longleftrightarrow> env_ok e \<and> length p < 2 ^ 31"
| "act_ok (Move t) = turn_ok t"

lemma program_run_append: "program_run (as @ bs) s = program_run as s \<bind> program_run bs"
proof (induction as arbitrary: s)
  case (Cons a as)
  then show ?case by (cases "program_step a s") (simp_all del: program_step.simps)
qed simp

section \<open>Undisturbed, the pieces make up the handlers\<close>

text \<open>The send operation a handler ends in.\<close>

definition perform :: "env \<Rightarrow> sr_instance \<Rightarrow> send_pc \<Rightarrow> sr_instance option" where
  "perform e sr pc =
     (case pc of Start packet len \<Rightarrow> sr_send_routed_ip_packet e sr packet len
      | Learn arp_hdr \<Rightarrow> sr_cache_arp_mapping e sr arp_hdr
      | _ \<Rightarrow> Some sr)"

lemma error_start_perform:
  "sr_send_icmp_error e sr p len type code = error_start e sr p len type code \<bind> perform e sr"
  by (cases "icmp_error_packet e sr p len type code")
    (auto simp: sr_send_icmp_error_def error_start_def perform_def split: option.split)

lemma forward_start_perform:
  "sr_forward_ip_packet e sr p len = forward_start e sr p len \<bind> perform e sr"
  by (cases "ld_ip p 14")
    (simp_all add: sr_forward_ip_packet_def forward_start_def error_start_perform, simp add: perform_def)

lemma ip_start_perform:
  "sr_handle_ip e sr p len iface = do { (sr, pc) \<leftarrow> ip_start e sr p len iface; perform e sr pc }"
proof -
  have pair: "(do { (sr, pc) \<leftarrow> map_option (Pair sr) m; perform e sr pc }) = m \<bind> perform e sr" for m
    by (cases m) simp_all
  have same: "(do { (sr, pc) \<leftarrow> (do { sr \<leftarrow> m; Some (sr, Done) }); perform e sr pc }) = m" for m
    by (cases m) (simp_all add: perform_def)
  have fin: "perform e sr Done = Some sr" for sr by (simp add: perform_def)
  show ?thesis
  proof (cases "sr_valid_ip_packet p len")
    case None
    then show ?thesis by (simp add: sr_handle_ip_def ip_start_def)
  next
    case (Some vq)
    obtain v q where vq: "vq = (v, q)" by (cases vq)
    show ?thesis
      unfolding sr_handle_ip_def ip_start_def error_start_perform forward_start_perform Let_def Some vq
      by (simp add: bind_assoc pair same fin if_distrib [of "\<lambda>m. Option.bind m f" for f] cong: if_cong)
  qed
qed

lemma arp_start_perform:
  "sr_handle_arp e sr p len iface =
    do { (pc, rest) \<leftarrow> arp_start sr p len iface; sr \<leftarrow> perform e sr pc; rest_step e sr rest }"
  by (cases "ld_arp p 14")
    (auto simp: sr_handle_arp_def arp_start_def perform_def split: option.split)

lemma handler_start_perform:
  "sr_handlepacket e sr p len iface =
    do { (sr, pc, rest) \<leftarrow> handler_start e sr p len iface; sr \<leftarrow> perform e sr pc; rest_step e sr rest }"
proof -
  have pair: "(do { (sr, pc, rest) \<leftarrow> map_option (Pair sr) m; f sr pc rest }) = do { (pc, rest) \<leftarrow> m; f sr pc rest }"
    for m :: "(send_pc \<times> rest) option" and f :: "_ \<Rightarrow> _ \<Rightarrow> _ \<Rightarrow> sr_instance option"
    by (cases m) auto
  show ?thesis
    unfolding sr_handlepacket_def handler_start_def arp_start_perform ip_start_perform
    by (cases "ethertype p"; cases "ip_start e sr p len iface") (auto simp: pair perform_def)
qed

fun begins :: "send_pc \<Rightarrow> bool" where
  "begins (Start p len) = True"
| "begins (Learn h) = True"
| "begins Done = True"
| "begins pc = False"

lemma perform_in_steps:
  assumes "begins pc" and "turns_left sr pc \<le> k"
  shows "schedule (replicate k (Receiver e)) \<lparr>th_sr = sr, th_send = pc, th_timer = Asleep\<rparr> =
    map_option finished (perform e sr pc)"
proof -
  have "replicate k (Receiver e) = replicate (turns_left sr pc) (Receiver e) @ replicate (k - turns_left sr pc) (Receiver e)"
    using assms(2) by (simp flip: replicate_add)
  moreover have "schedule (replicate (turns_left sr pc) (Receiver e)) \<lparr>th_sr = sr, th_send = pc, th_timer = Asleep\<rparr> =
      map_option finished (perform e sr pc)"
    using assms(1) send_in_steps [of e sr] answer_in_steps [of sr _ e]
    by (cases pc) (simp_all add: perform_def finished_def)
  moreover have "schedule (replicate n (Receiver e)) (finished sr) = Some (finished sr)" for n sr
    by (simp add: finished_def schedule_done)
  ultimately show ?thesis by (cases "perform e sr pc") (simp_all add: schedule_append)
qed

lemma resting_stays: "program_run (replicate n (Move (Receiver e))) (resting sr) = Some (resting sr)"
  by (induction n) (simp_all add: resting_def finished_def)

lemma take_receiver_turn:
  "th_timer t = Asleep \<Longrightarrow> take_turn (Receiver e) t = Some t' \<Longrightarrow> th_timer t' = Asleep"
  by (auto simp: bind_eq_Some_conv)

text \<open>After the pieces of the operation comes the rest of the handler.\<close>

lemma receiver_in_steps:
  "schedule (replicate k (Receiver e)) t = map_option finished res \<Longrightarrow> th_timer t = Asleep \<Longrightarrow>
   program_run (replicate (Suc k) (Move (Receiver e))) \<lparr>pr_threads = t, pr_rest = r\<rparr> =
   map_option resting (do { sr \<leftarrow> res; rest_step e sr r })"
proof (induction k arbitrary: t)
  case 0
  then obtain sr where "res = Some sr" "t = finished sr" by (cases res) auto
  then show ?case
    by (cases "rest_step e sr r") (simp_all add: finished_def resting_def)
next
  case (Suc k)
  show ?case
  proof (cases "th_send t = Done")
    case True
    with Suc.prems(2) have t: "t = finished (th_sr t)" by (simp add: finished_def)
    then have "schedule (replicate (Suc k) (Receiver e)) t = Some (finished (th_sr t))"
      using schedule_done [of "Suc k" e "th_sr t"] by (simp add: finished_def)
    with Suc.prems(1) have res: "res = Some (th_sr t)" by (cases res) (auto simp: finished_def)
    have "program_step (Move (Receiver e)) \<lparr>pr_threads = t, pr_rest = r\<rparr> =
        map_option resting (rest_step e (th_sr t) r)"
      using True t by (cases t; cases "rest_step e (th_sr t) r") (auto simp: resting_def finished_def)
    with res resting_stays [of "Suc k" e] show ?thesis
      by (cases "rest_step e (th_sr t) r") (simp_all del: program_step.simps replicate.simps add: replicate_Suc [of "Suc k"])
  next
    case False
    show ?thesis
    proof (cases "take_turn (Receiver e) t")
      case None
      with Suc.prems(1) have "res = None" by (cases res) simp_all
      with None False show ?thesis by simp
    next
      case (Some t1)
      with Suc.prems(1) have "schedule (replicate k (Receiver e)) t1 = map_option finished res" by simp
      from Suc.IH [OF this take_receiver_turn [OF Suc.prems(2) Some]] Some False show ?thesis
        by (simp del: take_turn.simps)
    qed
  qed
qed

text \<open>How many turns a frame takes at most.\<close>

definition frame_turns :: "sr_instance \<Rightarrow> u8 list \<Rightarrow> nat" where
  "frame_turns sr p = (case ld_arp p 14 of None \<Rightarrow> 8 | Some h \<Rightarrow> 8 + turns_for sr (ar_sip h))"

lemma pred_bindI: "(\<And>x. m = Some x \<Longrightarrow> pred_option Q (f x)) \<Longrightarrow> pred_option Q (m \<bind> f)"
  by (cases m) simp_all

abbreviation brief :: "send_pc \<Rightarrow> bool" where
  "brief pc \<equiv> begins pc \<and> (\<forall>sr. turns_left sr pc \<le> 7)"

lemma error_start_brief: "pred_option brief (error_start e sr p len t c)"
  unfolding error_start_def by (rule pred_bindI) (simp split: option.split)

lemma forward_start_brief: "pred_option brief (forward_start e sr p len)"
  unfolding forward_start_def by (rule pred_bindI) (simp add: error_start_brief)

lemma ip_start_brief: "pred_option (\<lambda>r. brief (snd r)) (ip_start e sr p len iface)"
proof -
  have pair: "pred_option (\<lambda>r. brief (snd r)) (map_option (Pair sr) m) = pred_option brief m" for sr m
    by (cases m) auto
  show ?thesis
    unfolding ip_start_def Let_def split_beta
    by (rule pred_bindI | simp add: pair error_start_brief forward_start_brief split: prod.split | intro conjI impI)+
qed

lemma arp_start_begins:
  "arp_start sr p len iface = Some (pc, r) \<Longrightarrow> begins pc \<and> Suc (turns_left sr pc) \<le> frame_turns sr p"
  by (auto simp: arp_start_def frame_turns_def bind_eq_Some_conv split: if_splits option.splits)

lemma handler_start_begins:
  assumes "handler_start e sr p len iface = Some (sr', pc, r)"
  shows "begins pc \<and> Suc (turns_left sr' pc) \<le> frame_turns sr p"
proof -
  have "8 \<le> frame_turns sr p" by (simp add: frame_turns_def split: option.split)
  moreover have "begins pc \<and> turns_left sr' pc \<le> 7" if "ip_start e sr p len iface = Some (sr', pc)"
    using ip_start_brief [of e sr p len iface] that by simp
  ultimately show ?thesis
    using assms arp_start_begins [of sr p len iface pc r]
    by (auto simp: handler_start_def bind_eq_Some_conv split: if_splits)
qed

lemma handler_in_steps:
  "program_run (Frame e p iface # replicate (frame_turns sr p) (Move (Receiver e))) (resting sr) =
   map_option resting (sr_handlepacket e sr p (length p) iface)"
proof (cases "handler_start e sr p (length p) iface")
  case None
  then show ?thesis by (simp add: handler_start_perform resting_def finished_def idle_def)
next
  case (Some res)
  obtain sr' pc r where res: "res = (sr', pc, r)" by (cases res)
  have b: "begins pc" "Suc (turns_left sr' pc) \<le> frame_turns sr p"
    using handler_start_begins Some res by auto
  then obtain k where k: "frame_turns sr p = Suc k" "turns_left sr' pc \<le> k" by (cases "frame_turns sr p") auto
  have "program_step (Frame e p iface) (resting sr) =
      Some \<lparr>pr_threads = \<lparr>th_sr = sr', th_send = pc, th_timer = Asleep\<rparr>, pr_rest = r\<rparr>"
    using Some res by (simp add: resting_def finished_def idle_def)
  moreover note receiver_in_steps [OF perform_in_steps [OF b(1) k(2), of e], of r]
  ultimately show ?thesis
    using Some res k(1) by (simp add: handler_start_perform del: program_step.simps replicate.simps)
qed

section \<open>And the visits make up the round\<close>

lemma sweep_in_steps:
  assumes e: "env_ok e"
  shows "running sr \<Longrightarrow> addrs sr = pre @ as \<Longrightarrow>
    schedule (replicate (Suc (length as)) (Timer e)) \<lparr>th_sr = sr, th_send = pc, th_timer = Sweeping e (hd_opt as)\<rparr> =
    map_option (\<lambda>sr. \<lparr>th_sr = sr, th_send = pc, th_timer = Asleep\<rparr>) (sweep_all e sr as)"
proof (induction as arbitrary: sr pre)
  case Nil
  then show ?case by (simp add: hd_opt_def)
next
  case (Cons a as)
  have run: "running_but 5 {} sr" using Cons.prems(1) by (simp add: running_but_none)
  obtain sr' pre' where v: "timer_step e sr (Sweeping e (hd_opt (a # as))) = Some (sr', Sweeping e (hd_opt as))"
      "running_but 5 {} sr'" "addrs sr' = pre' @ as"
    by (rule sweep_visit [OF e run Cons.prems(2) order_refl])
  then have "sweep_req e sr a = Some sr'" by (auto simp: hd_opt_def [of "a # as"] bind_eq_Some_conv)
  with v Cons.IH [of sr' pre'] show ?case by (simp add: running_but_none del: timer_step.simps)
qed

definition round_turns :: "sr_instance \<Rightarrow> nat" where
  "round_turns sr = Suc (Suc (length (requests (cache sr))))"

lemma round_in_steps:
  assumes e: "env_ok e" and run: "running sr"
  shows "program_run (replicate (round_turns sr) (Move (Timer e))) (resting sr) =
    map_option resting (sr_arpcache_timeout e sr)"
proof -
  let ?sr = "sr\<lparr>cache := expire_entries (now e) (cache sr)\<rparr>"
  have lift: "program_run (map Move turns) (resting sr) = map_option (\<lambda>t. \<lparr>pr_threads = t, pr_rest = Return\<rparr>)
      (schedule turns (finished sr))" if "\<forall>t \<in> set turns. \<exists>e. t = Timer e" for turns
  proof -
    have "program_run (map Move turns) \<lparr>pr_threads = t, pr_rest = Return\<rparr> =
        map_option (\<lambda>t. \<lparr>pr_threads = t, pr_rest = Return\<rparr>) (schedule turns t)" for t
      using that
    proof (induction turns arbitrary: t)
      case (Cons u turns)
      then obtain e where "u = Timer e" by auto
      with Cons show ?case by (cases "take_turn u t") (simp_all del: take_turn.simps)
    qed simp
    then show ?thesis by (simp add: resting_def)
  qed
  have "schedule (replicate (round_turns sr) (Timer e)) (finished sr) =
      schedule (replicate (Suc (length (addrs ?sr))) (Timer e))
        \<lparr>th_sr = ?sr, th_send = Done, th_timer = Sweeping e (hd_opt (addrs ?sr))\<rparr>"
    by (simp add: finished_def round_turns_def Let_def first_req_def hd_opt_def split: list.split)
  also have "\<dots> = map_option (\<lambda>sr. \<lparr>th_sr = sr, th_send = Done, th_timer = Asleep\<rparr>) (sweep_all e ?sr (addrs ?sr))"
    by (rule sweep_in_steps [OF e running_expire [OF run], where pre = "[]"]) simp
  also have "sweep_all e ?sr (addrs ?sr) = sr_arpcache_timeout e sr"
    using sweepreqs_eq [OF e running_expire [OF run, of "now e"]] by (metis sr_arpcache_timeout_def)
  finally show ?thesis
    using lift [of "replicate (round_turns sr) (Timer e)"]
    by (cases "sr_arpcache_timeout e sr") (simp_all add: resting_def finished_def)
qed

text \<open>So what runs one after the other is one of the schedules.\<close>

fun event_acts :: "sr_instance \<Rightarrow> event \<Rightarrow> act list" where
  "event_acts sr (Receive e p iface) = Frame e p iface # replicate (frame_turns sr p) (Move (Receiver e))"
| "event_acts sr (Tick e) = replicate (round_turns sr) (Move (Timer e))"

lemma event_in_steps:
  "running sr \<Longrightarrow> event_ok ev \<Longrightarrow> program_run (event_acts sr ev) (resting sr) = map_option resting (exec ev sr)"
  by (cases ev) (simp_all only: event_acts.simps exec.simps handler_in_steps round_in_steps event_ok.simps)

lemma run_in_steps:
  "running sr \<Longrightarrow> \<forall>ev \<in> set evs. event_ok ev \<Longrightarrow>
   \<exists>acts. (\<forall>a \<in> set acts. act_ok a) \<and> program_run acts (resting sr) = map_option resting (run evs sr)"
proof (induction evs arbitrary: sr)
  case Nil
  show ?case by (intro exI [where x = "[]"]) simp
next
  case (Cons ev evs)
  then obtain sr1 where sr1: "exec ev sr = Some sr1" "running sr1" using exec_running [of sr ev] by auto
  obtain acts where acts: "\<forall>a \<in> set acts. act_ok a" "program_run acts (resting sr1) = map_option resting (run evs sr1)"
    using Cons.IH [OF sr1(2)] Cons.prems(2) by auto
  have "\<forall>a \<in> set (event_acts sr ev). act_ok a" using Cons.prems(2) by (cases ev) auto
  moreover have "program_run (event_acts sr ev) (resting sr) = Some (resting sr1)"
    using event_in_steps [OF Cons.prems(1)] Cons.prems(2) sr1(1) by simp
  ultimately show ?case
    using acts sr1(1) by (intro exI [of _ "event_acts sr ev @ acts"]) (auto simp: program_run_append)
qed

end
