(* ===== verification/Two_Threads_Safety.thy ===== *)
theory Two_Threads_Safety
  imports Two_Threads
begin

text \<open>
  What can go wrong between the two threads, for the whole program and every schedule: exactly
  that the receiving thread looks at a request the timer has destroyed. And when this cannot be:
  if the timer does not move between \<^verbatim>\<open>sr_arpcache_queuereq\<close> and the last access to the request
  it returned.
\<close>

section \<open>Starting to handle a frame\<close>

text \<open>Nothing but the socket and the log is touched.\<close>

definition untouched :: "sr_instance \<Rightarrow> sr_instance \<Rightarrow> bool" where
  "untouched sr sr' \<longleftrightarrow> same_config sr sr' \<and> cache sr' = cache sr"

lemma untouched_refl [simp]: "untouched sr sr"
  by (simp add: untouched_def)

lemma untouched_emit [simp]: "untouched sr (emit e name fr sr)"
  by (simp add: untouched_def)

definition starts :: "sr_instance \<Rightarrow> (sr_instance \<times> send_pc) option \<Rightarrow> bool" where
  "starts sr res \<longleftrightarrow>
     (\<exists>sr' pc. res = Some (sr', pc) \<and> untouched sr sr' \<and> begins pc \<and> (\<exists>nh. send_inv nh sr' pc))"

lemma starts_done [simp]: "starts sr (Some (sr', Done)) \<longleftrightarrow> untouched sr sr'"
  by (simp add: starts_def)

lemma starts_sending:
  assumes "frame_ok p len"
  shows "starts sr (Some (sr, Start p len))"
proof -
  have "\<exists>nh. \<forall>h out ip. ld_ip p 14 = Some h \<longrightarrow> route_to sr (ip_dst h) = Some (out, ip) \<longrightarrow> ip = nh"
  proof (cases "ld_ip p 14")
    case (Some h)
    then show ?thesis by (cases "route_to sr (ip_dst h)") auto
  qed simp
  with assms show ?thesis by (simp add: starts_def)
qed

lemma error_start_ok:
  assumes e: "env_ok e"
  shows "starts sr (map_option (Pair sr) (error_start e sr p (length p) type code))"
proof (cases "\<exists>h. ip_valid p h")
  case True
  then obtain h where h: "ip_valid p h" by blast
  then have "34 \<le> length p" using ip_valid_forwarded_len by blast
  then obtain eh where eh: "ld_eth p 0 = Some eh" by (simp add: eth.ld_in_bounds)
  have "length (icmp_error_frame out ha ip type code (quoted p h)) = 70" for out ha ip
    by (simp add: length_quoted)
  then have "starts sr (Some (sr, Start (icmp_error_frame out ha ip type code (quoted p h)) 70))" for out ha ip
    by (intro starts_sending) (simp add: frame_ok_def)
  with e show ?thesis
    by (simp add: error_start_def icmp_error_packet_eq [OF _ h eh] split: option.split)
next
  case False
  then show ?thesis by (simp add: error_start_def icmp_error_packet_invalid)
qed

lemma ip_start_eq:
  assumes v: "ip_valid p h"
  shows "ip_start e sr p (length p) iface =
    (if sr_is_router_ip sr (ip_dst h) then
       if ip_p h = ip_protocol_icmp \<and> hlen h + 8 \<le> tlen h then
         if echo_request p h
         then do { sr \<leftarrow> sr_send_icmp_echo_reply e sr p (length p) iface; Some (sr, Done) } else Some (sr, Done)
       else if ip_p h = ip_protocol_tcp \<or> ip_p h = ip_protocol_udp
       then map_option (Pair sr) (error_start e sr p (length p) 3 3) else Some (sr, Done)
     else if ip_ttl h \<le> 1 then map_option (Pair sr) (error_start e sr p (length p) 11 0)
     else map_option (Pair sr) (forward_start e sr (forwarded p h) (length p)))"
proof -
  have s: "ip_shape p h" and ex: "\<exists>h. ip_valid p h" using v by (auto simp: ip_valid_def)
  note b = ip_shapeD [OF s]
  show ?thesis
  proof (cases "hlen h + 8 \<le> tlen h")
    case True
    then have "14 + hlen h + 8 \<le> length p" using b by linarith
    then obtain ic where ic: "ld_icmp08 p (14 + hlen h) = Some ic" by (simp add: icmp08.ld_in_bounds)
    have same: "ic\<lparr>icmp08_sum := icmp08_sum ic\<rparr> = ic" by simp
    show ?thesis
      by (simp add: ip_start_def valid_ip_packet_eq ex b(6) ic icmp_len_exact [OF b(4)] same
          handle_ip_echo [OF s True ic] handle_ip_forward [OF s] Let_def True split del: if_split
          cong: if_cong)
  next
    case False
    then show ?thesis
      by (simp add: ip_start_def valid_ip_packet_eq ex b(6) handle_ip_forward [OF s] Let_def)
  qed
qed

lemma echo_reply_untouched:
  assumes e: "env_ok e" and s: "ip_shape p h" and n: "hlen h + 8 \<le> tlen h" and max: "length p < 2 ^ 31"
  obtains sr' where "sr_send_icmp_echo_reply e sr p (length p) iface = Some sr'" "untouched sr sr'"
proof (cases "sr_get_interface sr iface")
  case None
  with that [of sr] show thesis by (simp add: sr_send_icmp_echo_reply_def)
next
  case (Some out)
  have "14 + hlen h + 8 \<le> length p" "34 \<le> length p" using ip_shapeD [OF s] n by linarith+
  then obtain eh ic where "ld_eth p 0 = Some eh" "ld_icmp08 p (14 + hlen h) = Some ic"
    by (simp add: eth.ld_in_bounds icmp08.ld_in_bounds)
  from that echo_reply_emit [OF e Some s n this max] show thesis by simp
qed

lemma ip_start_ok:
  assumes e: "env_ok e" and max: "length p < 2 ^ 31"
  shows "starts sr (ip_start e sr p (length p) iface)"
proof (cases "\<exists>h. ip_valid p h")
  case False
  then show ?thesis by (simp add: ip_start_def valid_ip_packet_eq)
next
  case True
  then obtain h where h: "ip_valid p h" by blast
  then have s: "ip_shape p h" by (simp add: ip_valid_def)
  have len: "34 \<le> length p" "length (forwarded p h) = length p" using ip_valid_forwarded_len [OF h] by auto
  then obtain g where g: "ld_ip (forwarded p h) 14 = Some g" by (simp add: iph.ld_in_bounds)
  have "starts sr (Some (sr, Start (forwarded p h) (length p)))"
    using len max by (intro starts_sending) (simp add: frame_ok_def)
  then have "starts sr (map_option (Pair sr) (forward_start e sr (forwarded p h) (length p)))"
    using g error_start_ok [OF e, of sr "forwarded p h"] len(2) by (simp add: forward_start_def)
  moreover have "starts sr (do { sr \<leftarrow> sr_send_icmp_echo_reply e sr p (length p) iface; Some (sr, Done) })"
    if n: "hlen h + 8 \<le> tlen h"
    by (rule echo_reply_untouched [OF e s n max, of sr iface]) simp
  ultimately show ?thesis
    by (simp add: ip_start_eq [OF h] error_start_ok [OF e])
qed

lemma handler_start_ok:
  assumes e: "env_ok e" and max: "length p < 2 ^ 31"
  obtains sr' pc r nh where "handler_start e sr p (length p) iface = Some (sr', pc, r)" "untouched sr sr'"
    "begins pc" "send_inv nh sr' pc"
proof -
  have arp: "\<exists>pc r. arp_start sr p (length p) iface = Some (pc, r) \<and> begins pc \<and> (\<exists>nh. send_inv nh sr pc)"
    by (auto simp: arp_start_def arp.ld_in_bounds split: option.split)
  obtain sr1 pc1 nh1 where "ip_start e sr p (length p) iface = Some (sr1, pc1)" "untouched sr sr1" "begins pc1"
      "send_inv nh1 sr1 pc1"
    using ip_start_ok [OF assms, of sr iface] by (auto simp: starts_def)
  with arp have "\<exists>sr' pc r nh. handler_start e sr p (length p) iface = Some (sr', pc, r) \<and> untouched sr sr' \<and>
      begins pc \<and> send_inv nh sr' pc"
    by (auto simp: handler_start_def ethertype_def eth.ld_in_bounds)
  with that show thesis by blast
qed

section \<open>The invariant of the program\<close>

text \<open>A request has been at this address, and has been destroyed.\<close>

definition gone :: "sr_arpcache \<Rightarrow> nat \<Rightarrow> bool" where
  "gone c a \<longleftrightarrow> a < next_addr c \<and> deref_req c a = None"

definition dangling :: "threads \<Rightarrow> bool" where
  "dangling t \<longleftrightarrow> (\<exists>a \<in> held (th_send t). gone (cache (th_sr t)) a)"

definition program_inv :: "u32 \<Rightarrow> threads \<Rightarrow> bool" where
  "program_inv m t \<longleftrightarrow>
     running_but m (held (th_send t)) (th_sr t) \<and> low m (th_sr t) (th_send t) \<and>
     timer_inv False 0 0 (th_sr t) (th_timer t) \<and>
     (dangling t \<or> (\<exists>nh. send_inv nh (th_sr t) (th_send t)))"

lemma send_inv_not_dangling: "send_inv nh (th_sr t) (th_send t) \<Longrightarrow> \<not> dangling t"
  by (cases "th_send t") (auto simp: dangling_def gone_def)

lemma program_inv_finished: "running sr \<Longrightarrow> 5 \<le> m \<Longrightarrow> program_inv m (finished sr)"
  by (auto simp: program_inv_def finished_def low_def running_def running_but_def asked_def asked_but_def)

lemma program_inv_done: "program_inv 5 t \<Longrightarrow> th_send t = Done \<Longrightarrow> running (th_sr t)"
  by (simp add: program_inv_def running_but_none)

lemma begins_held: "begins pc \<Longrightarrow> held pc = {} \<and> asking pc = {}"
  by (cases pc) auto

lemma program_inv_starts:
  assumes "program_inv m t" and "cache sr = cache (th_sr t)" and "running_but m {} sr" and "begins pc"
    and "send_inv nh sr pc"
  shows "program_inv m (t\<lparr>th_sr := sr, th_send := pc\<rparr>)"
proof -
  have "timer_inv False 0 0 sr (th_timer t)"
    using assms(1,2) timer_inv_cache by (auto simp: program_inv_def)
  then show ?thesis
    using assms(3-5) begins_held [OF assms(4)] by (auto simp: program_inv_def low_def)
qed

lemma running_but_untouched:
  "program_inv m t \<Longrightarrow> th_send t = Done \<Longrightarrow> untouched (th_sr t) sr \<Longrightarrow>
   cache sr = cache (th_sr t) \<and> running_but m {} sr"
  using running_but_same by (auto simp: program_inv_def untouched_def)

text \<open>The receiving thread: either it is stuck with a request that is gone, or all is well.\<close>

lemma program_receiver:
  assumes e: "env_ok e" and m: "5 \<le> m" and I: "program_inv m t" and d: "\<not> dangling t"
  obtains t' where "take_turn (Receiver e) t = Some t'" "program_inv m t'" "\<not> dangling t'"
    "same_config (th_sr t) (th_sr t')" "th_timer t' = th_timer t"
proof (cases "needs_lock (th_send t) \<and> th_timer t \<noteq> Asleep")
  case True
  with I d that [of t] show thesis by simp
next
  case False
  obtain nh where run: "running_but m (held (th_send t)) (th_sr t)" and low: "low m (th_sr t) (th_send t)"
    and tm: "timer_inv False 0 0 (th_sr t) (th_timer t)" and pc: "send_inv nh (th_sr t) (th_send t)"
    using I d by (auto simp: program_inv_def)
  obtain sr' pc' where s': "send_step e (th_sr t) (th_send t) = Some (sr', pc')" "same_config (th_sr t) sr'"
      "running_but m (held pc') sr'" "send_inv nh sr' pc'" "low m sr' pc'"
      "counting pc' \<longrightarrow> counting (th_send t) \<and> same_counts nh (cache (th_sr t)) (cache sr')"
      "\<not> needs_lock (th_send t) \<longrightarrow> addrs sr' = addrs (th_sr t)"
    by (rule send_step_inv [OF e run pc low m])
  have "timer_inv False 0 0 sr' (th_timer t)"
  proof (cases "th_timer t = Asleep")
    case awake: False
    with False s'(7) have same: "addrs sr' = addrs (th_sr t)" by blast
    show ?thesis by (rule timer_inv_same [OF tm same]) simp
  qed simp
  with s' have "program_inv m (t\<lparr>th_sr := sr', th_send := pc'\<rparr>)" by (auto simp: program_inv_def)
  moreover have "\<not> dangling (t\<lparr>th_sr := sr', th_send := pc'\<rparr>)"
    by (rule send_inv_not_dangling [of nh]) (simp add: s'(4))
  moreover have "take_turn (Receiver e) t = Some (t\<lparr>th_sr := sr', th_send := pc'\<rparr>)" using s'(1) False by auto
  ultimately show thesis using that s'(2) by simp
qed

lemma dangling_faults: "dangling t \<Longrightarrow> take_turn (Receiver e) t = None"
  by (cases "th_send t") (auto simp: dangling_def gone_def send_step_def)

text \<open>The timer thread: it may destroy the request, but not break anything else.\<close>

lemma gone_visited:
  assumes "gone c a" and "visited b c c'"
  shows "gone c' a"
proof -
  have new: "\<forall>r \<in> set (requests c). req_self r \<noteq> a" using assms(1) by (auto simp: gone_def deref_req_None_iff)
  have "req_self r' \<noteq> a" if "r' \<in> set (requests c')" for r'
    using assms(2) that new assms(1) unfolding visited_def gone_def by (metis linorder_not_le)
  then have "deref_req c' a = None" by (auto simp: deref_req_None_iff)
  moreover have "a < next_addr c'" using assms by (auto simp: gone_def visited_def)
  ultimately show ?thesis by (simp add: gone_def)
qed

lemma fresh_visited:
  assumes "visited b c c'" and "deref_req c a = None" and "deref_req c' a = Some r'"
  shows "req_times_sent r' = 1"
proof -
  have r': "r' \<in> set (requests c')" "req_self r' = a" using deref_req_Some [OF assms(3)] by auto
  moreover have "\<forall>r \<in> set (requests c). req_self r \<noteq> a" using assms(2) by (auto simp: deref_req_None_iff)
  ultimately show ?thesis using assms(1) unfolding visited_def by metis
qed

lemma held_visited:
  assumes v: "visited b c c'" and q: "queue_inv c" "queue_inv c'" and r: "deref_req c a = Some r"
  shows "gone c' a \<or> (\<exists>r'. deref_req c' a = Some r' \<and> req_ip r' = req_ip r \<and>
    unat (req_times_sent r') \<le> max 1 (unat (req_times_sent r)) + (if req_times_sent r < 5 then 1 else 0))"
proof (cases "deref_req c' a")
  case None
  have "a < next_addr c" using q(1) deref_req_Some [OF r] by (auto simp: queue_inv_def)
  with v None show ?thesis by (auto simp: gone_def visited_def)
next
  case (Some r')
  then have r': "r' \<in> set (requests c')" "req_self r' = a" using deref_req_Some by auto
  have "a < next_addr c" using q(1) deref_req_Some [OF r] by (auto simp: queue_inv_def)
  with v r' obtain x where x: "x \<in> set (requests c)" "req_self x = a" "req_ip r' = req_ip x"
      "unat (req_times_sent r') \<le> max 1 (unat (req_times_sent x)) + (if req_self x = b \<and> req_times_sent x < 5 then 1 else 0)"
    unfolding visited_def by (metis linorder_not_le)
  moreover have "x = r" using deref_req_unique [OF q(1) x(1)] x(2) r by simp
  ultimately show ?thesis using Some by (auto split: if_splits)
qed

lemma send_inv_or_dangling:
  assumes pc: "send_inv nh sr pc" and cfg: "same_config sr sr'"
    and alive: "\<And>a r. a \<in> held pc \<Longrightarrow> deref_req (cache sr) a = Some r \<Longrightarrow>
      gone (cache sr') a \<or> (\<exists>r'. deref_req (cache sr') a = Some r' \<and> req_ip r' = req_ip r)"
  shows "(\<exists>a \<in> held pc. gone (cache sr') a) \<or> send_inv nh sr' pc"
proof -
  have "route_to sr' = route_to sr" using route_lookups_config [OF cfg] by simp
  with pc alive show ?thesis by (cases pc) (auto; fastforce)+
qed

text \<open>A turn of the timer changes no request, or those it may while it visits one.\<close>

definition turned :: "sr_arpcache \<Rightarrow> sr_arpcache \<Rightarrow> bool" where
  "turned c c' \<longleftrightarrow>
     requests c' = requests c \<and> next_addr c' = next_addr c \<or> (\<exists>b. visited b c c')"

lemma timer_step_turned:
  assumes e: "env_ok e" and m: "5 \<le> m" and run: "running_but m B sr" and tm: "timer_inv False 0 0 sr tm"
  obtains sr' tm' where "timer_step e sr tm = Some (sr', tm')" "same_config sr sr'"
    "running_but m B sr'" "timer_inv False 0 0 sr' tm'" "turned (cache sr) (cache sr')"
proof (cases tm)
  case Asleep
  let ?sr = "sr\<lparr>cache := expire_entries (now e) (cache sr)\<rparr>"
  have cur: "first_req (cache ?sr) = hd_opt (addrs ?sr)"
    by (simp add: first_req_def hd_opt_def split: list.split)
  have "timer_inv False 0 0 ?sr (Sweeping e (first_req (cache ?sr)))"
    unfolding cur timer_inv.simps by (intro conjI exI [of _ "[]"] exI [of _ "addrs ?sr"]) (simp_all add: e)
  moreover have "turned (cache sr) (cache ?sr)" by (simp add: turned_def) (simp add: expire_entries_def)
  ultimately show thesis
    using that [of ?sr "Sweeping e (first_req (cache ?sr))"] Asleep running_but_expire [OF run]
    by (simp add: Let_def same_config_def)
next
  case (Sweeping e0 cur)
  then obtain pre as where as: "addrs sr = pre @ as" "cur = hd_opt as" "env_ok e0" using tm by auto
  show thesis
  proof (cases as)
    case Nil
    with that [of sr Asleep] as Sweeping run show thesis by (simp add: hd_opt_def turned_def)
  next
    case (Cons a as')
    obtain sr' pre' where v: "timer_step e sr (Sweeping e0 (hd_opt (a # as'))) = Some (sr', Sweeping e0 (hd_opt as'))"
        "same_config sr sr'" "running_but m B sr'" "addrs sr' = pre' @ as'" "visited a (cache sr) (cache sr')"
      by (rule sweep_visit [OF as(3) run as(1) [unfolded Cons] m])
    have "timer_inv False 0 0 sr' (Sweeping e0 (hd_opt as'))"
      using as(3) v(4) unfolding timer_inv.simps by (intro conjI exI [of _ pre'] exI [of _ as']) simp_all
    with that v Sweeping as(2) Cons show thesis by (auto simp: turned_def simp del: timer_step.simps timer_inv.simps)
  qed
qed

lemma held_turned:
  assumes "turned c c'" and "queue_inv c" and "queue_inv c'" and "deref_req c a = Some r"
  shows "gone c' a \<or> (\<exists>r'. deref_req c' a = Some r' \<and> req_ip r' = req_ip r \<and>
    unat (req_times_sent r') \<le> max 1 (unat (req_times_sent r)) + (if req_times_sent r < 5 then 1 else 0))"
  using assms(1) unfolding turned_def
proof
  assume "\<exists>b. visited b c c'"
  with held_visited [OF _ assms(2-4)] show ?thesis by blast
qed (use assms(4) in \<open>auto simp: deref_req_def\<close>)

lemma gone_turned: "turned c c' \<Longrightarrow> gone c a \<Longrightarrow> gone c' a"
  unfolding turned_def by (elim disjE exE) (simp_all add: gone_visited, simp add: gone_def deref_req_def)

lemma low_turned:
  assumes t: "turned (cache sr) (cache sr')" and q: "queue_inv (cache sr)" "queue_inv (cache sr')"
    and low: "low m sr pc" and big: "held pc = {} \<or> 6 \<le> m"
  shows "low m sr' pc"
  unfolding low_def
proof (intro ballI allI impI)
  fix a r' assume a: "a \<in> asking pc" and r': "deref_req (cache sr') a = Some r'"
  then have m: "6 \<le> m" using big by (cases pc) auto
  show "req_times_sent r' < m"
  proof (cases "deref_req (cache sr) a")
    case None
    have "req_times_sent r' = 1"
      using t fresh_visited [OF _ None r'] None r' by (auto simp: turned_def deref_req_def)
    with m show ?thesis by (simp add: word_le_nat_alt word_less_nat_alt)
  next
    case (Some r)
    with low a have "req_times_sent r < m" by (simp add: low_def)
    with held_turned [OF t q Some] r' m show ?thesis
      by (auto simp: gone_def word_le_nat_alt word_less_nat_alt split: if_splits)
  qed
qed

lemma program_timer:
  assumes e: "env_ok e" and m: "5 \<le> m" and I: "program_inv m t" and h: "held (th_send t) = {} \<or> 6 \<le> m"
  obtains t' where "take_turn (Timer e) t = Some t'" "program_inv m t'"
    "same_config (th_sr t) (th_sr t')" "th_send t' = th_send t"
proof -
  define sr pc where "sr = th_sr t" and "pc = th_send t"
  have run: "running_but m (held pc) sr" and low: "low m sr pc" and tm: "timer_inv False 0 0 sr (th_timer t)"
    using I by (auto simp: program_inv_def sr_def pc_def)
  obtain sr' tm' where s': "timer_step e sr (th_timer t) = Some (sr', tm')" "same_config sr sr'"
      "running_but m (held pc) sr'" "timer_inv False 0 0 sr' tm'" and c: "turned (cache sr) (cache sr')"
    by (rule timer_step_turned [OF e m run tm])
  have q: "queue_inv (cache sr)" "queue_inv (cache sr')"
    using run s'(3) by (simp_all add: running_but_def router_inv_def cache_inv_def)
  have "low m sr' pc" by (rule low_turned [OF c q low]) (use h in \<open>simp add: pc_def\<close>)
  moreover have "dangling (t\<lparr>th_sr := sr', th_timer := tm'\<rparr>) \<or> (\<exists>nh. send_inv nh sr' pc)"
  proof (cases "dangling t")
    case True
    then show ?thesis using gone_turned [OF c] by (auto simp: dangling_def sr_def pc_def)
  next
    case False
    then obtain nh where pc: "send_inv nh sr pc" using I by (auto simp: program_inv_def sr_def pc_def)
    have "(\<exists>a \<in> held pc. gone (cache sr') a) \<or> send_inv nh sr' pc"
      using held_turned [OF c q] by (intro send_inv_or_dangling [OF pc s'(2)]) blast
    then show ?thesis by (auto simp: dangling_def pc_def)
  qed
  ultimately have "program_inv m (t\<lparr>th_sr := sr', th_timer := tm'\<rparr>)"
    using s' by (simp add: program_inv_def pc_def)
  moreover have "take_turn (Timer e) t = Some (t\<lparr>th_sr := sr', th_timer := tm'\<rparr>)" using s'(1) by (simp add: sr_def)
  ultimately show thesis using that s'(2) by (simp add: sr_def)
qed

section \<open>Schedules of the program\<close>

definition program_ok :: "u32 \<Rightarrow> program \<Rightarrow> bool" where
  "program_ok m s \<longleftrightarrow> program_inv m (pr_threads s)"

definition stuck :: "program \<Rightarrow> bool" where
  "stuck s \<longleftrightarrow> dangling (pr_threads s)"

abbreviation config_of :: "program \<Rightarrow> sr_instance" where
  "config_of s \<equiv> th_sr (pr_threads s)"

fun timer_act :: "act \<Rightarrow> bool" where
  "timer_act (Move (Timer e)) = True"
| "timer_act a = False"

text \<open>A turn of the timer comes between two accesses to a request.\<close>

definition disturbs :: "act \<Rightarrow> program \<Rightarrow> bool" where
  "disturbs a s \<longleftrightarrow> timer_act a \<and> held (th_send (pr_threads s)) \<noteq> {}"

lemma rest_step_ok:
  assumes "env_ok e"
  obtains sr' where "rest_step e sr r = Some sr'" "untouched sr sr'"
proof (cases r)
  case (Compare a i iface)
  show thesis
  proof (cases "sr_get_interface sr iface")
    case None
    with that [of sr] Compare show thesis by (simp add: sr_send_arp_reply_def)
  next
    case (Some out)
    from that [of sr] that [of "emit e iface (arp_reply_frame out a) sr"] Compare send_arp_reply_emit [OF assms Some]
    show thesis by (cases "ar_tip a = if_ip i") simp_all
  qed
qed (use that in simp)

lemma program_step_ok:
  assumes I: "program_ok m s" and a: "act_ok a" and m: "5 \<le> m" and d: "disturbs a s \<Longrightarrow> 6 \<le> m"
    and free: "timer_act a \<or> \<not> stuck s"
  shows "\<exists>s'. program_step a s = Some s' \<and> program_ok m s' \<and> same_config (config_of s) (config_of s') \<and>
    (\<not> stuck s \<and> \<not> disturbs a s \<longrightarrow> \<not> stuck s')"
proof (cases a)
  case (Frame e p iface)
  then have e: "env_ok e" "length p < 2 ^ 31" using a by simp_all
  show ?thesis
  proof (cases "idle s")
    case False
    with Frame I free show ?thesis by (simp add: program_ok_def)
  next
    case True
    obtain sr' pc r nh where h: "handler_start e (config_of s) p (length p) iface = Some (sr', pc, r)"
        "untouched (config_of s) sr'" "begins pc" "send_inv nh sr' pc"
      by (rule handler_start_ok [OF e])
    let ?t = "(pr_threads s)\<lparr>th_sr := sr', th_send := pc\<rparr>"
    have "cache sr' = cache (config_of s)" "running_but m {} sr'"
      using running_but_untouched [OF _ _ h(2)] I True by (simp_all add: program_ok_def idle_def)
    then have "program_inv m ?t"
      by (intro program_inv_starts [OF _ _ _ h(3,4)]) (use I in \<open>simp_all add: program_ok_def\<close>)
    moreover have "\<not> dangling ?t" by (rule send_inv_not_dangling [of nh]) (simp add: h(4))
    ultimately show ?thesis
      using Frame True h(1,2) by (simp add: program_ok_def stuck_def untouched_def)
  qed
next
  case (Move t)
  show ?thesis
  proof (cases t)
    case (Timer e)
    have h: "held (th_send (pr_threads s)) = {} \<or> 6 \<le> m" using d Move Timer by (auto simp: disturbs_def)
    have e: "env_ok e" and inv: "program_inv m (pr_threads s)" using a I Move Timer by (simp_all add: program_ok_def)
    obtain t' where t': "take_turn (Timer e) (pr_threads s) = Some t'" "program_inv m t'"
        "same_config (config_of s) (th_sr t')" "th_send t' = th_send (pr_threads s)"
      by (rule program_timer [OF e m inv h])
    have "\<not> disturbs a s \<longrightarrow> \<not> dangling t'" using t'(4) Move Timer by (simp add: disturbs_def dangling_def)
    with t' Move Timer show ?thesis by (simp add: program_ok_def stuck_def)
  next
    case (Receiver e)
    have e: "env_ok e" using a Move Receiver by simp
    show ?thesis
    proof (cases "th_send (pr_threads s) = Done")
      case True
      obtain sr' where r: "rest_step e (config_of s) (pr_rest s) = Some sr'" "untouched (config_of s) sr'"
        by (rule rest_step_ok [OF e])
      have "cache sr' = cache (config_of s)" "running_but m {} sr'"
        using running_but_untouched [OF _ True r(2)] I by (simp_all add: program_ok_def)
      then have "program_inv m ((pr_threads s)\<lparr>th_sr := sr', th_send := Done\<rparr>)"
        by (intro program_inv_starts) (use I in \<open>simp_all add: program_ok_def\<close>)
      moreover have "(pr_threads s)\<lparr>th_sr := sr', th_send := Done\<rparr> = (pr_threads s)\<lparr>th_sr := sr'\<rparr>"
        using True by simp
      ultimately show ?thesis
        using Move Receiver True r by (simp add: program_ok_def stuck_def dangling_def untouched_def)
    next
      case False
      have "program_inv m (pr_threads s)" "\<not> dangling (pr_threads s)"
        using I free Move Receiver by (simp_all add: program_ok_def stuck_def)
      then obtain t' where "take_turn (Receiver e) (pr_threads s) = Some t'" "program_inv m t'" "\<not> dangling t'"
          "same_config (config_of s) (th_sr t')"
        using program_receiver [OF e m] by metis
      with Move Receiver False show ?thesis by (simp add: program_ok_def stuck_def)
    qed
  qed
qed

text \<open>A stuck receiver faults as soon as it moves; the timer and frames that wait do not.\<close>

lemma stuck_busy: "stuck s \<Longrightarrow> th_send (pr_threads s) \<noteq> Done"
  by (auto simp: stuck_def dangling_def)

lemma stuck_receiver: "stuck s \<Longrightarrow> program_step (Move (Receiver e)) s = None"
  using stuck_busy [of s] dangling_faults [of "pr_threads s" e] by (simp add: stuck_def)

lemma stuck_frame: "stuck s \<Longrightarrow> program_step (Frame e p iface) s = Some s"
  using stuck_busy [of s] by (simp add: idle_def)

declare program_step.simps [simp del]

lemma stuck_act:
  "stuck s \<Longrightarrow> \<not> timer_act a \<Longrightarrow>
   program_step a s = (case a of Frame e p iface \<Rightarrow> Some s | Move t \<Rightarrow> None)"
proof (cases a)
  case (Move t)
  assume "stuck s" "\<not> timer_act a"
  with Move show ?thesis by (cases t) (simp_all add: stuck_receiver)
qed (simp add: stuck_frame)

lemma program_step_None:
  assumes "program_ok 6 s" and "act_ok a"
  shows "program_step a s = None \<longleftrightarrow> (\<exists>e. a = Move (Receiver e)) \<and> stuck s"
proof (cases "timer_act a \<or> \<not> stuck s")
  case True
  with program_step_ok [OF assms] show ?thesis by (auto simp: stuck_receiver)
next
  case False
  then have "program_step a s = (case a of Frame e p iface \<Rightarrow> Some s | Move t \<Rightarrow> None)"
    by (intro stuck_act) auto
  with False show ?thesis by (cases a rule: timer_act.cases) auto
qed

lemma program_step_keeps:
  assumes "program_ok 6 s" and "act_ok a" and "program_step a s = Some s'"
  shows "program_ok 6 s' \<and> same_config (config_of s) (config_of s')"
proof (cases "timer_act a \<or> \<not> stuck s")
  case True
  with program_step_ok [OF assms(1,2)] assms(3) show ?thesis by auto
next
  case False
  then have "program_step a s = (case a of Frame e p iface \<Rightarrow> Some s | Move t \<Rightarrow> None)"
    by (intro stuck_act) auto
  with assms show ?thesis by (cases a) auto
qed

text \<open>Every schedule, as far as it goes; and what stops it.\<close>

lemma program_run_keeps:
  "program_ok 6 s \<Longrightarrow> \<forall>a \<in> set acts. act_ok a \<Longrightarrow> program_run acts s = Some s' \<Longrightarrow>
   program_ok 6 s' \<and> same_config (config_of s) (config_of s')"
proof (induction acts arbitrary: s)
  case (Cons a acts)
  then obtain s1 where s1: "program_step a s = Some s1" "program_run acts s1 = Some s'"
    by (auto simp: bind_eq_Some_conv)
  with program_step_keeps [of s a s1] Cons show ?case by (auto intro: same_config_trans)
qed simp

interpretation prog: faulting_system program_step "\<lambda>acts s. program_ok 6 s \<and> (\<forall>a \<in> set acts. act_ok a)"
  "\<lambda>a s. (\<exists>e. a = Move (Receiver e)) \<and> stuck s"
proof unfold_locales
  fix a acts s assume I: "program_ok 6 s \<and> (\<forall>a \<in> set (a # acts). act_ok a)"
  then show "program_step a s = None \<longleftrightarrow> (\<exists>e. a = Move (Receiver e)) \<and> stuck s" by (intro program_step_None) simp_all
  show "program_ok 6 s' \<and> (\<forall>a \<in> set acts. act_ok a)" if "program_step a s = Some s'" for s'
    using I program_step_keeps [OF _ _ that] by simp
qed

lemma program_run_all: "program_run acts s = prog.run_all acts s"
  by (induction acts arbitrary: s) (simp_all cong: Option.bind_cong)

lemma program_run_None:
  "program_ok 6 s \<Longrightarrow> \<forall>a \<in> set acts. act_ok a \<Longrightarrow>
   program_run acts s = None \<longleftrightarrow>
   (\<exists>before e after s'. acts = before @ Move (Receiver e) # after \<and> program_run before s = Some s' \<and> stuck s')"
  unfolding program_run_all by (subst prog.run_all_None) (simp, metis (no_types))

text \<open>Schedules in which the timer does not come between two accesses to a request.\<close>

fun undisturbed :: "act list \<Rightarrow> program \<Rightarrow> bool" where
  "undisturbed [] s = True"
| "undisturbed (a # acts) s =
     (\<not> disturbs a s \<and> (case program_step a s of None \<Rightarrow> True | Some s \<Rightarrow> undisturbed acts s))"

lemma undisturbed_run:
  "program_ok 5 s \<Longrightarrow> \<not> stuck s \<Longrightarrow> \<forall>a \<in> set acts. act_ok a \<Longrightarrow> undisturbed acts s \<Longrightarrow>
   \<exists>s'. program_run acts s = Some s' \<and> program_ok 5 s' \<and> \<not> stuck s' \<and> same_config (config_of s) (config_of s')"
proof (induction acts arbitrary: s)
  case (Cons a acts)
  then obtain s1 where "program_step a s = Some s1" "program_ok 5 s1" "same_config (config_of s) (config_of s1)"
      "\<not> stuck s1"
    using program_step_ok [of 5 s a] by auto
  with Cons show ?case by (fastforce intro: same_config_trans)
qed simp

lemma resting_ok: "running sr \<Longrightarrow> 5 \<le> m \<Longrightarrow> program_ok m (resting sr)"
  by (simp add: program_ok_def resting_def program_inv_finished)

lemma resting_not_stuck [simp]: "\<not> stuck (resting sr)"
  by (simp add: stuck_def dangling_def resting_def finished_def)

lemma config_of_resting [simp]: "config_of (resting sr) = sr"
  by (simp add: resting_def finished_def)

section \<open>Both threads get to rest\<close>

abbreviation timer_of :: "program \<Rightarrow> timer_pc" where
  "timer_of s \<equiv> th_timer (pr_threads s)"

abbreviation pc_of :: "program \<Rightarrow> send_pc" where
  "pc_of s \<equiv> th_send (pr_threads s)"

lemma undisturbed_append:
  "undisturbed (as @ bs) s \<longleftrightarrow>
   undisturbed as s \<and> (case program_run as s of None \<Rightarrow> True | Some s \<Rightarrow> undisturbed bs s)"
proof (induction as arbitrary: s)
  case (Cons a as)
  then show ?case by (cases "program_step a s") auto
qed simp

lemma undisturbed_receiver: "undisturbed (replicate k (Move (Receiver e))) s"
  by (induction k arbitrary: s) (auto simp: disturbs_def split: option.split)

text \<open>Rounds that come before the first piece of a handler do not disturb.\<close>

lemma undisturbed_timer:
  "held (pc_of s) = {} \<Longrightarrow> undisturbed (replicate m (Move (Timer e)) @ replicate k (Move (Receiver e'))) s"
proof (induction m arbitrary: s)
  case (Suc m)
  have "held (pc_of s1) = {}" if "program_step (Move (Timer e)) s = Some s1" for s1
    using that Suc.prems by (auto simp: program_step.simps bind_eq_Some_conv)
  with Suc show ?case by (auto simp: disturbs_def split: option.split)
qed (simp add: undisturbed_receiver)

lemma undisturbed_frame:
  "undisturbed (Frame e p iface # replicate m (Move (Timer e1)) @ replicate k (Move (Receiver e2))) (resting sr)"
proof -
  have "held (pc_of s) = {}" if "program_step (Frame e p iface) (resting sr) = Some s" for s
    using that handler_start_begins begins_held
    by (force simp: program_step.simps bind_eq_Some_conv resting_def finished_def idle_def)
  then show ?thesis by (auto simp: disturbs_def undisturbed_timer split: option.split)
qed

lemma receiver_moves_on:
  assumes I: "program_ok 5 s" "\<not> stuck s" and e: "env_ok e" and busy: "pc_of s \<noteq> Done"
    and free: "needs_lock (pc_of s) \<Longrightarrow> timer_of s = Asleep"
  obtains s' where "program_step (Move (Receiver e)) s = Some s'" "program_ok 5 s'" "\<not> stuck s'"
    "timer_of s' = timer_of s" "pr_rest s' = pr_rest s"
    "turns_left (config_of s') (pc_of s') < turns_left (config_of s) (pc_of s)"
proof -
  have "program_inv 5 (pr_threads s)" "\<not> dangling (pr_threads s)" using I by (simp_all add: program_ok_def stuck_def)
  then obtain t' where t': "take_turn (Receiver e) (pr_threads s) = Some t'" "program_inv 5 t'" "\<not> dangling t'"
      "th_timer t' = timer_of s"
    using program_receiver [OF e order_refl] by metis
  have "\<not> (needs_lock (pc_of s) \<and> timer_of s \<noteq> Asleep)" using free by blast
  with t'(1) have "send_step e (config_of s) (pc_of s) = Some (th_sr t', th_send t')"
    by (auto simp: bind_eq_Some_conv)
  from send_step_progress [OF this] busy
  have "turns_left (th_sr t') (th_send t') < turns_left (config_of s) (pc_of s)"
    using turns_left_0 [of "config_of s" "pc_of s"] by linarith
  with t' busy that [of "s\<lparr>pr_threads := t'\<rparr>"] show thesis
    by (simp add: program_step.simps program_ok_def stuck_def del: take_turn.simps)
qed

lemma receiver_rests:
  assumes e: "env_ok e"
  shows "program_ok 5 s \<Longrightarrow> \<not> stuck s \<Longrightarrow>
    \<exists>k s'. program_run (replicate k (Move (Receiver e))) s = Some s' \<and> program_ok 5 s' \<and> \<not> stuck s' \<and>
      timer_of s' = timer_of s \<and> held (pc_of s') = {} \<and> (timer_of s = Asleep \<longrightarrow> idle s')"
proof (induction "turns_left (config_of s) (pc_of s)" arbitrary: s rule: less_induct)
  case less
  consider "held (pc_of s) = {}" "timer_of s \<noteq> Asleep" | "pc_of s = Done" "timer_of s = Asleep"
    | "pc_of s \<noteq> Done" "needs_lock (pc_of s) \<Longrightarrow> timer_of s = Asleep"
    by (cases "pc_of s") auto
  then show ?case
  proof cases
    case 1
    with less.prems show ?thesis by (intro exI [of _ 0] exI [of _ s]) simp
  next
    case 2
    obtain sr' where r: "rest_step e (config_of s) (pr_rest s) = Some sr'" by (rule rest_step_ok [OF e])
    then have "program_step (Move (Receiver e)) s =
        Some \<lparr>pr_threads = (pr_threads s)\<lparr>th_sr := sr'\<rparr>, pr_rest = Return\<rparr>" (is "_ = Some ?s")
      using 2 by (simp add: program_step.simps)
    moreover from this have "program_ok 5 ?s" "\<not> stuck ?s"
      using program_step_ok [OF less.prems(1), of "Move (Receiver e)"] less.prems(2) e by (simp_all add: disturbs_def)
    ultimately show ?thesis
      using 2 by (intro exI [of _ 1] exI [of _ ?s]) (simp add: idle_def)
  next
    case 3
    obtain s1 where s1: "program_step (Move (Receiver e)) s = Some s1" "program_ok 5 s1" "\<not> stuck s1"
        "timer_of s1 = timer_of s" "turns_left (config_of s1) (pc_of s1) < turns_left (config_of s) (pc_of s)"
      using receiver_moves_on [OF less.prems e 3] by metis
    obtain k s' where "program_run (replicate k (Move (Receiver e))) s1 = Some s'" "program_ok 5 s'" "\<not> stuck s'"
        "timer_of s' = timer_of s" "held (pc_of s') = {}" "timer_of s = Asleep \<longrightarrow> idle s'"
      using less.hyps [OF s1(5,2,3)] s1(4) by auto
    with s1(1) show ?thesis by (intro exI [of _ "Suc k"] exI [of _ s']) simp
  qed
qed

lemma timer_move:
  assumes I: "program_ok 5 s" and e: "env_ok e" and h: "held (pc_of s) = {}"
  obtains t' where "take_turn (Timer e) (pr_threads s) = Some t'" "program_ok 5 (s\<lparr>pr_threads := t'\<rparr>)"
    "\<not> stuck (s\<lparr>pr_threads := t'\<rparr>)" "th_send t' = pc_of s"
    "program_step (Move (Timer e)) s = Some (s\<lparr>pr_threads := t'\<rparr>)"
proof -
  have "program_inv 5 (pr_threads s)" using I by (simp add: program_ok_def)
  then obtain t' where "take_turn (Timer e) (pr_threads s) = Some t'" "program_inv 5 t'" "th_send t' = pc_of s"
    using program_timer [OF e order_refl] h by metis
  with h that show thesis
    by (simp add: program_ok_def stuck_def dangling_def program_step.simps del: take_turn.simps)
qed

lemma timer_rests:
  assumes e: "env_ok e"
  shows "program_ok 5 s \<Longrightarrow> held (pc_of s) = {} \<Longrightarrow>
    \<exists>k s'. program_run (replicate k (Move (Timer e))) s = Some s' \<and> undisturbed (replicate k (Move (Timer e))) s \<and>
      program_ok 5 s' \<and> \<not> stuck s' \<and> timer_of s' = Asleep"
proof (cases "timer_of s")
  case Asleep
  assume "program_ok 5 s" "held (pc_of s) = {}"
  with Asleep show ?thesis by (intro exI [of _ 0] exI [of _ s]) (simp add: stuck_def dangling_def)
next
  case (Sweeping e0 cur)
  assume I: "program_ok 5 s" and h: "held (pc_of s) = {}"
  have go: "\<exists>k s'. program_run (replicate k (Move (Timer e))) s = Some s' \<and> undisturbed (replicate k (Move (Timer e))) s \<and>
      program_ok 5 s' \<and> \<not> stuck s' \<and> timer_of s' = Asleep"
    if "program_ok 5 s" "held (pc_of s) = {}" "timer_of s = Sweeping e0 (hd_opt as)" "addrs (config_of s) = pre @ as"
      "env_ok e0" for s pre as
    using that
  proof (induction as arbitrary: s pre)
    case Nil
    obtain t' where t': "take_turn (Timer e) (pr_threads s) = Some t'" "program_ok 5 (s\<lparr>pr_threads := t'\<rparr>)"
        "\<not> stuck (s\<lparr>pr_threads := t'\<rparr>)" "program_step (Move (Timer e)) s = Some (s\<lparr>pr_threads := t'\<rparr>)"
      by (rule timer_move [OF Nil.prems(1) e Nil.prems(2)])
    moreover have "th_timer t' = Asleep" using t'(1) Nil.prems(3) by (auto simp: hd_opt_def)
    ultimately show ?case
      using Nil.prems(2) by (intro exI [of _ 1] exI [of _ "s\<lparr>pr_threads := t'\<rparr>"]) (simp add: disturbs_def)
  next
    case (Cons a as)
    obtain t' where t': "take_turn (Timer e) (pr_threads s) = Some t'" "program_ok 5 (s\<lparr>pr_threads := t'\<rparr>)"
        "\<not> stuck (s\<lparr>pr_threads := t'\<rparr>)" "th_send t' = pc_of s"
        "program_step (Move (Timer e)) s = Some (s\<lparr>pr_threads := t'\<rparr>)"
      by (rule timer_move [OF Cons.prems(1) e Cons.prems(2)])
    have run: "running_but 5 {} (config_of s)" using Cons.prems(1,2) by (simp add: program_ok_def program_inv_def)
    obtain sr' pre' where v: "timer_step e (config_of s) (Sweeping e0 (hd_opt (a # as))) =
          Some (sr', Sweeping e0 (hd_opt as))" "addrs sr' = pre' @ as"
      by (rule sweep_visit [OF Cons.prems(5) run Cons.prems(4) order_refl])
    with t'(1) Cons.prems(3) have "th_sr t' = sr'" "th_timer t' = Sweeping e0 (hd_opt as)"
      by (auto simp del: timer_step.simps)
    then obtain k s' where "program_run (replicate k (Move (Timer e))) (s\<lparr>pr_threads := t'\<rparr>) = Some s'"
        "undisturbed (replicate k (Move (Timer e))) (s\<lparr>pr_threads := t'\<rparr>)" "program_ok 5 s'" "\<not> stuck s'"
        "timer_of s' = Asleep"
      using Cons.IH [OF t'(2), of pre'] t'(4) v(2) Cons.prems(2,5) by auto
    with t'(5) Cons.prems(2) show ?case
      by (intro exI [of _ "Suc k"] exI [of _ s']) (simp add: disturbs_def)
  qed
  from I Sweeping obtain pre as where "addrs (config_of s) = pre @ as" "cur = hd_opt as" "env_ok e0"
    by (auto simp: program_ok_def program_inv_def)
  with go [OF I h] Sweeping show ?thesis by blast
qed

lemma comes_to_rest:
  assumes e: "env_ok e" and I: "program_ok 5 s" "\<not> stuck s"
  shows "\<exists>turns s'. (\<forall>t \<in> set turns. turn_ok t) \<and> undisturbed (map Move turns) s \<and>
    program_run (map Move turns) s = Some s' \<and> s' = resting (config_of s') \<and> running (config_of s')"
proof -
  obtain k s1 where s1: "program_run (replicate k (Move (Receiver e))) s = Some s1" "program_ok 5 s1"
      "held (pc_of s1) = {}" using receiver_rests [OF e I] by blast
  obtain m s2 where s2: "program_run (replicate m (Move (Timer e))) s1 = Some s2"
      "undisturbed (replicate m (Move (Timer e))) s1" "program_ok 5 s2" "\<not> stuck s2" "timer_of s2 = Asleep"
    using timer_rests [OF e s1(2,3)] by blast
  obtain n s3 where s3: "program_run (replicate n (Move (Receiver e))) s2 = Some s3" "program_ok 5 s3"
      "timer_of s3 = Asleep" "idle s3" using receiver_rests [OF e s2(3,4)] s2(5) by auto
  let ?turns = "replicate k (Receiver e) @ replicate m (Timer e) @ replicate n (Receiver e)"
  have "s3 = resting (config_of s3)"
    using s3(3,4) by (cases s3, cases "pr_threads s3") (simp add: resting_def finished_def idle_def)
  moreover have "running (config_of s3)" using s3(2,4) by (simp add: program_ok_def program_inv_done idle_def)
  moreover have "undisturbed (map Move ?turns) s" "program_run (map Move ?turns) s = Some s3"
    using s1(1) s2(1,2) s3(1) by (simp_all add: undisturbed_append program_run_append undisturbed_receiver)
  ultimately show ?thesis using e by (intro exI [of _ ?turns] exI [of _ s3]) auto
qed

end
