(* ===== verification/Live_Session.thy ===== *)
theory Live_Session
  imports Two_Threads_Safety Hwinfo
begin

text \<open>
  The main loop of \<^verbatim>\<open>src/sr_main.c\<close> beside the timer thread, over a socket whose bytes arrive while
  both run. A command is read, and acted upon, in one piece up to the first operation on the
  cache; the rest of a packet's handling goes through the pieces of theories \<open>Concurrency\<close> and
  \<open>Two_Threads\<close>. Shown here: with the timer asleep this is \<^verbatim>\<open>sr_read_from_server\<close>. What holds
  of any schedule, for the messages a server sends once it has announced the interfaces, is theory
  \<open>Live_Safety\<close>.
\<close>

section \<open>The main loop as a thread\<close>

text \<open>The switch on the command, up to the first operation on the cache, with its \<^verbatim>\<open>ret\<close>.\<close>

definition command_start ::
  "os \<Rightarrow> session \<Rightarrow> u8 list \<Rightarrow> nat \<Rightarrow> u32 \<Rightarrow> (int \<times> session \<times> send_pc \<times> rest) option" where
  "command_start v ss buf len command =
     (if command = VNSPACKET then do {
        let plen = unat (of_nat len - 38 + 14 :: u32);
        let packet = drop sizeof_c_packet_header buf;
        interface \<leftarrow> ld_strn sr_IFACE_NAMELEN buf 8;
        foreign \<leftarrow> sr_arp_req_not_for_us (router ss) packet plen interface;
        if foreign then Some (1, ss, Done, Return)
        else do {
          mLen \<leftarrow> ld_u32 buf 0;
          sr \<leftarrow> sr_log_packet (base v) (router ss) packet (sint (ntohl mLen - 24));
          (sr, pc, rest) \<leftarrow> handler_start (base v) sr packet plen interface;
          Some (1, ss\<lparr>router := sr\<rparr>, pc, rest) }}
      else do { (ret, ss) \<leftarrow> vns_command v ss buf len command; Some (ret, ss, Done, Return) })"

text \<open>
  The process: the two threads, what has arrived at the socket and was not read, the files. When
  \<^verbatim>\<open>sr_read_from_server\<close> has returned anything but 1 the loop ends, and the process with it.
\<close>

record live =
  lv_program :: program
  lv_in :: "recv_event list"
  lv_closed :: bool
  lv_files :: "cstring \<Rightarrow> u8 list option"
  lv_over :: bool

definition session_of :: "live \<Rightarrow> session" where
  "session_of l = \<lparr>router = config_of (lv_program l), sock_in = lv_in l, sock_closed = lv_closed l, files = lv_files l\<rparr>"

text \<open>What the receiving thread goes on with; the timer stays where it is.\<close>

definition resume :: "live \<Rightarrow> int \<Rightarrow> session \<Rightarrow> send_pc \<Rightarrow> rest \<Rightarrow> live" where
  "resume l ret ss pc rest =
     \<lparr>lv_program = \<lparr>pr_threads = (pr_threads (lv_program l))\<lparr>th_sr := router ss, th_send := pc\<rparr>, pr_rest = rest\<rparr>,
      lv_in = sock_in ss, lv_closed = sock_closed ss, lv_files = files ss, lv_over = (ret \<noteq> 1)\<rparr>"

text \<open>
  A turn of the process: something arrives at the socket; the receiving thread, when it is done
  with the command before, calls \<^verbatim>\<open>sr_read_from_server\<close>; or one of the threads goes on. All but the
  handling of a packet happens in the turn that reads the message. For hardware information this is coarser than the
  program: \<^verbatim>\<open>sr_add_interface\<close> takes no lock and links a node before it clears its \<^verbatim>\<open>next\<close>, so the timer thread
  could come in between. Theory \<open>Shared_Interfaces\<close> has these pieces; what theory \<open>Live_Safety\<close> shows
  is about messages of the other kinds.
\<close>

datatype live_act = Arrive recv_event | Read os | Turn turn

fun live_step :: "live_act \<Rightarrow> live \<Rightarrow> live option" where
  "live_step (Arrive ev) l = Some (l\<lparr>lv_in := lv_in l @ [ev]\<rparr>)"
| "live_step (Read v) l =
     (if lv_over l \<or> \<not> idle (lv_program l) then Some l
      else do {
        r \<leftarrow> read_command v (session_of l) 0;
        case r of
          Waiting \<Rightarrow> Some l
        | Returned (Bail ret ss) \<Rightarrow> Some (resume l ret ss Done Return)
        | Returned (Command ss buf len command) \<Rightarrow> do {
            (ret, ss, pc, rest) \<leftarrow> command_start v ss buf len command;
            Some (resume l ret ss pc rest) } })"
| "live_step (Turn t) l =
     (if lv_over l then Some l
      else do { s \<leftarrow> program_step (Move t) (lv_program l); Some (l\<lparr>lv_program := s\<rparr>) })"

fun live_run :: "live_act list \<Rightarrow> live \<Rightarrow> live option" where
  "live_run [] l = Some l"
| "live_run (a # acts) l = do { l \<leftarrow> live_step a l; live_run acts l }"

definition at_rest :: "session \<Rightarrow> live" where
  "at_rest ss = \<lparr>lv_program = resting (router ss), lv_in = sock_in ss, lv_closed = sock_closed ss,
     lv_files = files ss, lv_over = False\<rparr>"

lemma session_at_rest [simp]: "session_of (at_rest ss) = ss"
  by (simp add: session_of_def at_rest_def)

lemma at_rest_simps [simp]:
  "lv_over (at_rest ss) = False" "lv_in (at_rest ss) = sock_in ss"
  "lv_program (at_rest ss) = resting (router ss)"
  by (simp_all add: at_rest_def)

lemma idle_resting [simp]: "idle (resting sr)"
  by (simp add: resting_def finished_def idle_def)

lemma live_run_append: "live_run (as @ bs) l = live_run as l \<bind> live_run bs"
proof (induction as arbitrary: l)
  case (Cons a as)
  then show ?case by (cases "live_step a l") (simp_all del: live_step.simps)
qed simp

section \<open>With the timer asleep it is \<open>sr_read_from_server\<close>\<close>

lemma command_start_perform:
  "vns_command v ss buf len command =
    do { (ret, ss, pc, rest) \<leftarrow> command_start v ss buf len command;
         sr \<leftarrow> perform (base v) (router ss) pc; sr \<leftarrow> rest_step (base v) sr rest;
         Some (ret, ss\<lparr>router := sr\<rparr>) }"
proof (cases "command = VNSPACKET")
  case True
  have fin: "perform e sr Done = Some sr" for e sr by (simp add: perform_def)
  show ?thesis
    unfolding vns_command_def command_start_def if_P [OF True] handler_start_perform Let_def
    by (simp add: bind_assoc split_beta if_distrib [of "\<lambda>m. Option.bind m f" for f] fin cong: if_cong)
next
  case False
  then show ?thesis
    by (cases "vns_command v ss buf len command") (auto simp: command_start_def perform_def)
qed

text \<open>How many turns a command takes at most.\<close>

definition command_turns :: "session \<Rightarrow> u8 list \<Rightarrow> nat" where
  "command_turns ss buf = frame_turns (router ss) (drop sizeof_c_packet_header buf)"

lemma frame_turns_pos: "0 < frame_turns sr p"
  by (simp add: frame_turns_def split: option.split)

lemma log_packet_requests:
  "sr_log_packet e sr buf n = Some sr' \<Longrightarrow> frame_turns sr' p = frame_turns sr p"
  by (drule sr_log_packet_frame) (simp add: frame_turns_def turns_for_def split: option.split)

lemma command_start_begins:
  assumes "command_start v ss buf len command = Some (ret, ss', pc, r)"
  shows "begins pc \<and> Suc (turns_left (router ss') pc) \<le> command_turns ss buf \<and>
    (ret \<noteq> 1 \<longrightarrow> pc = Done \<and> r = Return)"
proof (cases "command = VNSPACKET")
  case True
  let ?p = "drop sizeof_c_packet_header buf"
  consider "pc = Done" "r = Return"
    | sr1 sr' n i where "sr_log_packet (base v) (router ss) ?p n = Some sr1" "ret = 1"
      "handler_start (base v) sr1 ?p (unat (of_nat len - 38 + 14 :: u32)) i = Some (sr', pc, r)" "router ss' = sr'"
    using assms True by (auto simp: command_start_def Let_def bind_eq_Some_conv split: if_splits)
  then show ?thesis
  proof cases
    case 1
    then show ?thesis using frame_turns_pos by (simp add: command_turns_def Suc_le_eq)
  next
    case 2
    with handler_start_begins [OF 2(3)] log_packet_requests [OF 2(1)] show ?thesis by (simp add: command_turns_def)
  qed
next
  case False
  then show ?thesis
    using assms frame_turns_pos by (auto simp: command_start_def command_turns_def Suc_le_eq bind_eq_Some_conv)
qed

text \<open>The turns a call of \<^verbatim>\<open>sr_read_from_server\<close> is made of, and what it leaves.\<close>

definition read_acts :: "os \<Rightarrow> session \<Rightarrow> live_act list" where
  "read_acts v ss = Read v #
     (case read_command v ss 0 of
        Some (Returned (Command ss' buf len command)) \<Rightarrow> replicate (command_turns ss' buf) (Turn (Receiver (base v)))
      | _ \<Rightarrow> [])"

fun left_by :: "session \<Rightarrow> (int \<times> session) wait \<Rightarrow> live" where
  "left_by ss Waiting = at_rest ss"
| "left_by ss (Returned (ret, ss')) = (at_rest ss')\<lparr>lv_over := (ret \<noteq> 1)\<rparr>"

lemma live_turns:
  "\<not> lv_over l \<Longrightarrow> live_run (map Turn turns) l =
     map_option (\<lambda>s. l\<lparr>lv_program := s\<rparr>) (program_run (map Move turns) (lv_program l))"
proof (induction turns arbitrary: l)
  case (Cons t turns)
  then show ?case by (cases "program_step (Move t) (lv_program l)") simp_all
qed simp

lemma live_turns_over: "lv_over l \<Longrightarrow> live_run (map Turn turns) l = Some l"
  by (induction turns) simp_all

text \<open>A call that returns at once, and one that leaves the handling of a packet to the pieces.\<close>

lemma resume_done: "resume (at_rest ss) ret ss' Done Return = (at_rest ss')\<lparr>lv_over := (ret \<noteq> 1)\<rparr>"
  by (simp add: resume_def at_rest_def resting_def finished_def)

lemma resumed_in_steps:
  assumes "begins pc" and "turns_left (router ss') pc \<le> k"
  shows "live_run (map Turn (replicate (Suc k) (Receiver e))) (resume (at_rest ss) 1 ss' pc r) =
    map_option (\<lambda>sr. at_rest (ss'\<lparr>router := sr\<rparr>)) (do { sr \<leftarrow> perform e (router ss') pc; rest_step e sr r })"
    (is "live_run _ ?l = map_option _ ?res")
proof -
  have l: "lv_program ?l = \<lparr>pr_threads = \<lparr>th_sr = router ss', th_send = pc, th_timer = Asleep\<rparr>, pr_rest = r\<rparr>"
    by (simp add: resume_def at_rest_def resting_def finished_def)
  have "live_run (map Turn (replicate (Suc k) (Receiver e))) ?l =
      map_option (\<lambda>s. ?l\<lparr>lv_program := s\<rparr>) (program_run (replicate (Suc k) (Move (Receiver e))) (lv_program ?l))"
    by (subst live_turns) (simp_all add: resume_def del: replicate.simps)
  also have "program_run (replicate (Suc k) (Move (Receiver e))) (lv_program ?l) = map_option resting ?res"
    unfolding l by (rule receiver_in_steps [OF perform_in_steps [OF assms]]) simp
  also have "map_option (\<lambda>s. ?l\<lparr>lv_program := s\<rparr>) (map_option resting ?res) =
      map_option (\<lambda>sr. at_rest (ss'\<lparr>router := sr\<rparr>)) ?res"
    by (simp add: option.map_comp comp_def resume_def at_rest_def)
  finally show ?thesis .
qed

lemma command_in_steps:
  "do { (ret, ss', pc, r) \<leftarrow> command_start v ss1 buf len command;
        live_run (replicate (command_turns ss1 buf) (Turn (Receiver (base v)))) (resume (at_rest ss) ret ss' pc r) } =
   map_option (\<lambda>r. left_by ss (Returned r)) (vns_command v ss1 buf len command)"
proof (cases "command_start v ss1 buf len command")
  case None
  then show ?thesis by (simp add: command_start_perform)
next
  case (Some st)
  obtain ret ss' pc r where st: "st = (ret, ss', pc, r)" by (cases st) auto
  have b: "begins pc" "Suc (turns_left (router ss') pc) \<le> command_turns ss1 buf"
      "ret \<noteq> 1 \<longrightarrow> pc = Done \<and> r = Return"
    using command_start_begins Some st by auto
  then obtain k where k: "command_turns ss1 buf = Suc k" "turns_left (router ss') pc \<le> k"
    by (cases "command_turns ss1 buf") auto
  have turns: "replicate (Suc k) (Turn (Receiver e)) = map Turn (replicate (Suc k) (Receiver e))" for e
    by (simp add: map_replicate del: replicate.simps)
  have over: "(at_rest ss)\<lparr>lv_over := False\<rparr> = at_rest ss" for ss by (simp add: at_rest_def)
  show ?thesis
  proof (cases "ret = 1")
    case False
    with b(3) show ?thesis
      by (simp add: Some st command_start_perform k(1) turns resume_done live_turns_over perform_def
          del: map_replicate replicate.simps)
  next
    case True
    show ?thesis
      unfolding Some st command_start_perform True k(1) turns
      by (cases "perform (base v) (router ss') pc")
        (simp_all add: resumed_in_steps [OF b(1) k(2)] option.map_comp comp_def over map_conv_bind_option
          del: map_replicate replicate.simps)
  qed
qed

lemma read_in_steps:
  "live_run (read_acts v ss) (at_rest ss) = map_option (left_by ss) (sr_read_from_server v ss)"
proof -
  note defs = read_acts_def sr_read_from_server_def sr_read_from_server_expect_def
  consider "read_command v ss 0 = None" | "read_command v ss 0 = Some Waiting"
    | ret ss' where "read_command v ss 0 = Some (Returned (Bail ret ss'))"
    | ss' buf len command where "read_command v ss 0 = Some (Returned (Command ss' buf len command))"
    by (metis option.exhaust wait.exhaust reading.exhaust)
  then show ?thesis
  proof cases
    case 4
    from command_in_steps [of v ss' buf len command ss] show ?thesis
      by (simp add: defs 4 bind_assoc case_prod_beta' option.map_comp comp_def)
  qed (simp_all add: defs resume_done)
qed

text \<open>And the loop is one of its schedules.\<close>

fun loop_acts :: "os list \<Rightarrow> session \<Rightarrow> live_act list" where
  "loop_acts [] ss = []"
| "loop_acts (v # vs) ss = read_acts v ss @
     (case sr_read_from_server v ss of
        Some (Returned (ret, ss')) \<Rightarrow> if ret = 1 then loop_acts vs ss' else []
      | _ \<Rightarrow> [])"

fun loop_left :: "loop_result \<Rightarrow> live" where
  "loop_left (Still_running ss) = at_rest ss"
| "loop_left (Stopped ss) = (at_rest ss)\<lparr>lv_over := True\<rparr>"

lemma loop_in_steps: "live_run (loop_acts vs ss) (at_rest ss) = map_option loop_left (main_loop vs ss)"
proof (induction vs arbitrary: ss)
  case (Cons v vs)
  have over: "(at_rest ss')\<lparr>lv_over := False\<rparr> = at_rest ss'" for ss' by (simp add: at_rest_def)
  show ?case
    using Cons.IH
    by (cases "sr_read_from_server v ss")
      (auto simp: live_run_append read_in_steps over split: wait.split prod.split)
qed simp

end
