(* ===== verification/Live_Safety.thy ===== *)
theory Live_Safety
  imports Live_Session
begin

text \<open>
  What a server sends once it has announced the interfaces - frames, banners, and the
  message that closes the session - reaches the router whole and in order whatever the network, signals
  and the timer thread do meanwhile, and is worked off. Hardware information is not among these messages:
  \<^verbatim>\<open>sr_add_interface\<close> links a new node before it is filled in and takes no lock, so the timer thread
  could see it; theory \<open>Shared_Interfaces\<close> is about that.
\<close>

section \<open>Messages of an open session\<close>

datatype server_msg = Frame_Msg cstring "u8 list" | Banner_Msg cstring | Close_Msg cstring

fun msg_type :: "server_msg \<Rightarrow> u32" where
  "msg_type (Frame_Msg name fr) = VNSPACKET"
| "msg_type (Banner_Msg s) = VNSBANNER"
| "msg_type (Close_Msg s) = VNSCLOSE"

fun msg_payload :: "server_msg \<Rightarrow> u8 list" where
  "msg_payload (Frame_Msg name fr) = strncpy_field 16 name @ fr"
| "msg_payload (Banner_Msg s) = strncpy_field 256 s"
| "msg_payload (Close_Msg s) = strncpy_field 256 s"

definition msg_bytes :: "server_msg \<Rightarrow> u8 list" where
  "msg_bytes m = vns_msg (msg_type m) (msg_payload m)"

fun closes :: "server_msg \<Rightarrow> bool" where
  "closes (Close_Msg s) = True"
| "closes m = False"

text \<open>The interface names that are known.\<close>

definition knows :: "cstring list \<Rightarrow> cstring \<Rightarrow> bool" where
  "knows ns name \<longleftrightarrow> (\<exists>n \<in> set ns. strncmp n name sr_IFACE_NAMELEN = 0)"

abbreviation names_of :: "sr_instance \<Rightarrow> cstring list" where
  "names_of sr \<equiv> map if_name (if_list sr)"

text \<open>What the router relies on: frames name an interface announced before.\<close>

fun msg_ok :: "cstring list \<Rightarrow> server_msg \<Rightarrow> bool" where
  "msg_ok ns (Frame_Msg name fr) \<longleftrightarrow> c_str name \<and> length name < 16 \<and> length fr \<le> 9976 \<and> knows ns name"
| "msg_ok ns (Banner_Msg s) \<longleftrightarrow> c_str s \<and> length s < 256"
| "msg_ok ns (Close_Msg s) \<longleftrightarrow> c_str s \<and> length s < 256"

text \<open>Nothing is said of what follows a closing message.\<close>

fun msgs_ok :: "cstring list \<Rightarrow> server_msg list \<Rightarrow> bool" where
  "msgs_ok ns [] = True"
| "msgs_ok ns (m # ms) \<longleftrightarrow> msg_ok ns m \<and> (closes m \<or> msgs_ok ns ms)"

lemma length_msg_bytes [simp]: "length (msg_bytes m) = 8 + length (msg_payload m)"
  by (simp add: msg_bytes_def)

lemma msg_ok_length: "msg_ok ns m \<Longrightarrow> length (msg_payload m) \<le> 9992"
  by (cases m) simp_all

lemma get_interface_knows: "sr_get_interface sr name \<noteq> None \<longleftrightarrow> knows (names_of sr) name"
  by (auto simp: sr_get_interface_def get_interface_walk_find knows_def find_None_iff)

section \<open>The start of a message's handling\<close>

lemma command_start_packet:
  assumes "c_str name" and "length name < 16" and "length fr \<le> 9976"
    and "sr_get_interface (router ss) name = Some i"
  shows "command_start v ss (host_msg VNSPACKET (strncpy_field 16 name @ fr)) (24 + length fr) VNSPACKET =
    (if foreign_arp i fr then Some (1, ss, Done, Return)
     else map_option (\<lambda>(sr, pc, r). (1, ss\<lparr>router := sr\<rparr>, pc, r))
       (handler_start (base v) ((router ss)\<lparr>logfile := log_frame (base v) fr (logfile (router ss))\<rparr>) fr (length fr) name))"
  using packet_fields [OF assms(1-3)] arp_req_not_for_us [OF assms(4), of fr]
  unfolding command_start_def Let_def
  by (auto simp: sr_log_packet_eq map_option_case split: option.split)

text \<open>What the handling of a message starts with keeps the router ready for the other thread.\<close>

definition begun :: "u32 \<Rightarrow> session \<Rightarrow> server_msg \<Rightarrow> (int \<times> session \<times> send_pc \<times> rest) option \<Rightarrow> bool" where
  "begun k ss m res \<longleftrightarrow>
     (\<exists>ret ss' pc r nh. res = Some (ret, ss', pc, r) \<and> sock_in ss' = sock_in ss \<and>
        cache (router ss') = cache (router ss) \<and> running_but k {} (router ss') \<and> begins pc \<and> send_inv nh (router ss') pc \<and>
        same_config (router ss) (router ss') \<and> (ret \<noteq> 1 \<longleftrightarrow> closes m))"

lemma text_at_8: "c_str s \<Longrightarrow> length s < 256 \<Longrightarrow> ld_cstr (host_msg ty (strncpy_field 256 s)) 8 = Some s"
proof -
  assume s: "c_str s" "length s < 256"
  then obtain k where "256 - length s = Suc k" by (metis Suc_diff_Suc)
  with s show ?thesis
    by (intro ld_cstr_at [where rest = "replicate k 0"]) (simp_all add: drop_msg strncpy_field_def)
qed

lemma frame_started:
  assumes e: "env_ok (base v)" and run: "running_but k {} (router ss)"
    and ok: "msg_ok (names_of (router ss)) (Frame_Msg name fr)"
  shows "begun k ss (Frame_Msg name fr)
    (command_start v ss (host_msg VNSPACKET (strncpy_field 16 name @ fr)) (24 + length fr) VNSPACKET)"
proof -
  let ?sr = "(router ss)\<lparr>logfile := log_frame (base v) fr (logfile (router ss))\<rparr>"
  have o: "c_str name" "length name < 16" "length fr \<le> 9976" "length fr < 2 ^ 31" using ok by simp_all
  from ok obtain i where i: "sr_get_interface (router ss) name = Some i"
    using get_interface_knows [of "router ss" name] by auto
  obtain sr' pc r nh where h: "handler_start (base v) ?sr fr (length fr) name = Some (sr', pc, r)" "untouched ?sr sr'"
      "begins pc" "send_inv nh sr' pc"
    by (rule handler_start_ok [OF e o(4)])
  have "running_but k {} ?sr" using run by (simp add: running_but_def names_ok_def)
  then have "running_but k {} sr'" using h(2) running_but_same by (auto simp: untouched_def)
  with h run show ?thesis
    unfolding command_start_packet [OF o(1-3) i] begun_def
    by (auto simp: untouched_def same_config_def)
qed

lemma message_started:
  assumes "env_ok (base v)" and "running_but k {} (router ss)"
    and ok: "msg_ok (names_of (router ss)) m"
  shows "begun k ss m (command_start v ss (host_msg (msg_type m) (msg_payload m)) (8 + length (msg_payload m)) (msg_type m))"
proof (cases m)
  case (Frame_Msg name fr)
  with frame_started [of v k ss name fr] assms show ?thesis by simp
next
  case (Banner_Msg s)
  with assms(2) ok show ?thesis
    by (simp add: begun_def command_start_def vns_command_def vns_types text_at_8 [unfolded vns_types])
next
  case (Close_Msg s)
  with assms(2) ok show ?thesis
    by (simp add: begun_def command_start_def vns_command_def vns_types text_at_8 [unfolded vns_types])
qed

section \<open>Reading a message that has arrived, and one that has not\<close>

lemma read_command_waits:
  assumes "Failed \<notin> set (sock_in ss)" and "stream_data (sock_in ss) @ later = vns_msg ty p @ rest"
    and "length (stream_data (sock_in ss)) < 8 + length p" and "length p \<le> 9992"
    and "malloc_ok (base v) (8 + length p)"
  shows "read_command v ss x = Some Waiting"
proof (cases "length (stream_data (sock_in ss)) < 4")
  case True
  then show ?thesis using assms(1) by (simp add: read_command_def recv_loop_blocked)
next
  case False
  let ?len = "of_nat (8 + length p) :: u32"
  have "take 4 (stream_data (sock_in ss)) = take 4 (vns_msg ty p @ rest)"
    using False by (metis assms(2) diff_is_0_eq' linorder_not_less take0 append_Nil2 take_append)
  then have h: "take 4 (stream_data (sock_in ss)) = bytes32 (htonl ?len)" by (simp add: vns_msg_def)
  obtain es where r1: "recv_loop 4 (sock_in ss) = Got (bytes32 (htonl ?len)) es" "Failed \<notin> set es"
    "stream_data es = drop 4 (stream_data (sock_in ss))"
    using recv_loop_got [OF assms(1), of 4] False by (auto simp: h)
  have "recv_loop (4 + length p) es = Blocked"
    by (rule recv_loop_blocked [OF r1(2)]) (use r1(3) assms(3) False in simp)
  moreover have len: "sint ?len = int (8 + length p)" using assms(4) by (intro sint_of_nat_len) simp
  have n: "nat (int (8 + length p) - 4) = 4 + length p" by simp
  ultimately show ?thesis
    using assms(4,5)
    unfolding read_command_def r1(1) read_result.case le32_of_bytes32 order32.swap_swap len Let_def nat_int n
    by (simp del: of_nat_add)
qed

section \<open>The invariant\<close>

abbreviation live_router :: "live \<Rightarrow> sr_instance" where
  "live_router l \<equiv> config_of (lv_program l)"

definition live_inv :: "u32 \<Rightarrow> server_msg list \<Rightarrow> u8 list \<Rightarrow> live \<Rightarrow> bool" where
  "live_inv k ms later l \<longleftrightarrow>
     program_ok k (lv_program l) \<and> Failed \<notin> set (lv_in l) \<and>
     stream_data (lv_in l) @ later = concat (map msg_bytes ms) \<and>
     (lv_over l \<or> msgs_ok (names_of (live_router l)) ms)"

fun live_ok :: "live_act \<Rightarrow> bool" where
  "live_ok (Arrive ev) \<longleftrightarrow> ev \<noteq> Failed"
| "live_ok (Read v) \<longleftrightarrow> env_ok (base v)"
| "live_ok (Turn t) \<longleftrightarrow> turn_ok t"

fun arrives :: "live_act \<Rightarrow> u8 list" where
  "arrives (Arrive ev) = stream_data [ev]"
| "arrives a = []"

text \<open>A turn of the timer between two accesses of the receiving thread to a request.\<close>

fun live_disturbs :: "live_act \<Rightarrow> live \<Rightarrow> bool" where
  "live_disturbs (Turn t) l \<longleftrightarrow> \<not> lv_over l \<and> disturbs (Move t) (lv_program l)"
| "live_disturbs a l = False"

fun live_undisturbed :: "live_act list \<Rightarrow> live \<Rightarrow> bool" where
  "live_undisturbed [] l = True"
| "live_undisturbed (a # acts) l =
     (\<not> live_disturbs a l \<and> (case live_step a l of None \<Rightarrow> True | Some l \<Rightarrow> live_undisturbed acts l))"

text \<open>What a step of the process did: messages \<open>ds\<close> of \<open>ms\<close> have been taken.\<close>

definition took :: "live \<Rightarrow> server_msg list \<Rightarrow> live \<Rightarrow> bool" where
  "took l ds l' \<longleftrightarrow> same_config (live_router l) (live_router l') \<and>
     (lv_over l' \<longleftrightarrow> lv_over l \<or> (\<exists>m \<in> set ds. closes m))"

lemma took_nothing: "same_config (live_router l) (live_router l') \<Longrightarrow> lv_over l' = lv_over l \<Longrightarrow> took l [] l'"
  by (simp add: took_def)

lemma took_trans: "took l ds l1 \<Longrightarrow> took l1 ds1 l2 \<Longrightarrow> took l (ds @ ds1) l2"
  using same_config_trans by (auto simp: took_def)

lemma stream_append [simp]: "stream_data (as @ bs) = stream_data as @ stream_data bs"
  by (simp add: stream_data_def)

lemma idle_running: "program_ok k s \<Longrightarrow> idle s \<Longrightarrow> running_but k {} (config_of s)"
  by (simp add: program_ok_def idle_def program_inv_def)

lemma idle_not_stuck: "idle s \<Longrightarrow> \<not> stuck s"
  using stuck_busy by (auto simp: idle_def)

lemma live_read_command:
  assumes I: "live_inv k (m # ms) later l" and ok: "msg_ok ns m" and e: "env_ok (base v)"
    and there: "length (msg_bytes m) \<le> length (stream_data (lv_in l))"
  obtains es where "Failed \<notin> set es" "stream_data es @ later = concat (map msg_bytes ms)"
    "read_command v (session_of l) 0 = Some (Returned (Command ((session_of l)\<lparr>sock_in := es\<rparr>)
      (host_msg (msg_type m) (msg_payload m)) (8 + length (msg_payload m)) (msg_type m)))"
proof -
  let ?ss = "session_of l" and ?rest = "drop (length (msg_bytes m)) (stream_data (lv_in l))"
  have s: "Failed \<notin> set (sock_in ?ss)" "stream_data (lv_in l) @ later = msg_bytes m @ concat (map msg_bytes ms)"
    using I by (simp_all add: live_inv_def session_of_def)
  have "msg_bytes m = take (length (msg_bytes m)) (stream_data (lv_in l))" and
    rest: "?rest @ later = concat (map msg_bytes ms)"
    using there s(2) [symmetric] by (simp_all add: append_eq_append_conv_if [of "msg_bytes m"])
  then have "stream_data (lv_in l) = vns_msg (msg_type m) (msg_payload m) @ ?rest"
    by (metis append_take_drop_id msg_bytes_def)
  then have split: "stream_data (sock_in ?ss) = vns_msg (msg_type m) (msg_payload m) @ ?rest"
    by (simp add: session_of_def)
  have mal: "malloc_ok (base v) n" for n using e by simp
  show thesis
    by (rule read_command_message [OF s(1) split msg_ok_length [OF ok] mal, of 0])
      (use that rest in simp)
qed

lemma live_reads:
  assumes I: "live_inv k (m # ms) later l" and i: "idle (lv_program l)" "\<not> lv_over l" and e: "env_ok (base v)"
    and there: "length (msg_bytes m) \<le> length (stream_data (lv_in l))"
  obtains l' where "live_step (Read v) l = Some l'" "live_inv k ms later l'" "took l [m] l'" "\<not> stuck (lv_program l')"
proof -
  let ?ss = "session_of l"
  have ok: "msg_ok (names_of (router ?ss)) m" "closes m \<or> msgs_ok (names_of (router ?ss)) ms"
    using I i by (simp_all add: live_inv_def session_of_def)
  obtain es where r: "Failed \<notin> set es" "stream_data es @ later = concat (map msg_bytes ms)" "read_command v ?ss 0 =
      Some (Returned (Command (?ss\<lparr>sock_in := es\<rparr>) (host_msg (msg_type m) (msg_payload m)) (8 + length (msg_payload m)) (msg_type m)))"
    by (rule live_read_command [OF I ok(1) e there])
  let ?s1 = "?ss\<lparr>sock_in := es\<rparr>"
  have "running_but k {} (router ?ss)" using I i(1) idle_running by (simp add: live_inv_def session_of_def)
  then have "begun k ?s1 m
      (command_start v ?s1 (host_msg (msg_type m) (msg_payload m)) (8 + length (msg_payload m)) (msg_type m))"
    using ok(1) by (intro message_started [OF e]) simp_all
  then obtain ret ss' pc r nh where st: "command_start v ?s1 (host_msg (msg_type m) (msg_payload m))
      (8 + length (msg_payload m)) (msg_type m) = Some (ret, ss', pc, r)"
    and s': "sock_in ss' = sock_in ?s1" "cache (router ss') = cache (router ?s1)" "running_but k {} (router ss')" "begins pc"
      "send_inv nh (router ss') pc" "same_config (router ?s1) (router ss')" "ret \<noteq> 1 \<longleftrightarrow> closes m"
    unfolding begun_def by blast
  let ?l = "resume l ret ss' pc r"
  have "program_inv k (pr_threads (lv_program ?l))"
    unfolding resume_def live.simps program.simps
    by (rule program_inv_starts [OF _ _ _ s'(4,5)])
      (use I s'(2,3) in \<open>simp_all add: live_inv_def program_ok_def session_of_def\<close>)
  then have "live_inv k ms later ?l"
    using s'(1,6,7) r(1,2) ok(2) by (auto simp: live_inv_def program_ok_def resume_def same_config_def)
  moreover have "\<not> stuck (lv_program ?l)"
    unfolding stuck_def by (rule send_inv_not_dangling [of nh]) (simp add: resume_def s'(5))
  moreover have "took l [m] ?l" using s'(6,7) i(2) by (simp add: took_def resume_def session_of_def)
  moreover have "live_step (Read v) l = Some ?l" using i r(3) st by simp
  ultimately show thesis using that by simp
qed

lemma live_waits:
  assumes I: "live_inv k ms later l" and e: "env_ok (base v)" and "\<not> lv_over l"
    and short: "ms = [] \<or> length (stream_data (lv_in l)) < length (msg_bytes (hd ms))"
  shows "live_step (Read v) l = Some l"
proof (cases ms)
  case Nil
  with I have "Failed \<notin> set (lv_in l)" "stream_data (lv_in l) = []" by (simp_all add: live_inv_def)
  then have "read_command v (session_of l) 0 = Some Waiting"
    by (simp add: read_command_def recv_loop_blocked session_of_def)
  then show ?thesis by simp
next
  case (Cons m ms')
  with I assms(3) have ok: "msg_ok (names_of (live_router l)) m"
    by (simp add: live_inv_def)
  have mal: "malloc_ok (base v) n" for n using e by simp
  have "read_command v (session_of l) 0 = Some Waiting"
    by (rule read_command_waits [OF _ _ _ msg_ok_length [OF ok] mal, of _ later "msg_type m" "concat (map msg_bytes ms')"])
      (use I Cons short in \<open>simp_all add: live_inv_def session_of_def msg_bytes_def\<close>)
  then show ?thesis by simp
qed

section \<open>Every step and every schedule\<close>

lemma took_none [simp]: "took l [] l"
  by (simp add: took_def)

fun timer_turn :: "live_act \<Rightarrow> bool" where
  "timer_turn (Turn t) = timer_act (Move t)"
| "timer_turn a = False"

lemma live_step_ok:
  assumes I: "live_inv k ms (arrives a @ later) l" and a: "live_ok a" and k: "5 \<le> k"
    and d: "live_disturbs a l \<Longrightarrow> 6 \<le> k" and free: "(\<exists>e. a = Turn (Receiver e)) \<Longrightarrow> lv_over l \<or> \<not> stuck (lv_program l)"
  obtains l' ds rest where "live_step a l = Some l'" "ms = ds @ rest" "live_inv k rest later l'" "took l ds l'"
    "\<not> live_disturbs a l \<Longrightarrow> \<not> stuck (lv_program l) \<Longrightarrow> \<not> stuck (lv_program l')"
proof (cases a)
  case (Arrive ev)
  have "live_inv k ms later (l\<lparr>lv_in := lv_in l @ [ev]\<rparr>)" using I a Arrive by (auto simp: live_inv_def)
  with that [of _ "[]" ms] Arrive show thesis by (simp add: took_def)
next
  case (Read v)
  then have J: "live_inv k ms later l" and e: "env_ok (base v)" using I a by simp_all
  show thesis
  proof (cases "lv_over l \<or> \<not> idle (lv_program l) \<or> ms = [] \<or> length (stream_data (lv_in l)) < length (msg_bytes (hd ms))")
    case True
    then have "live_step a l = Some l" using Read live_waits [OF J e] by auto
    with that [of l "[]" ms] J show thesis by simp
  next
    case False
    then obtain m ms' where ms: "ms = m # ms'" by (cases ms) auto
    obtain l' where "live_step (Read v) l = Some l'" "live_inv k ms' later l'" "took l [m] l'" "\<not> stuck (lv_program l')"
      by (rule live_reads [OF J [unfolded ms] _ _ e]) (use False ms in auto)
    with that [of l' "[m]" ms'] Read ms show thesis by simp
  qed
next
  case (Turn t)
  show thesis
  proof (cases "lv_over l")
    case True
    with that [of l "[]" ms] I Turn show thesis by simp
  next
    case False
    have free': "timer_act (Move t) \<or> \<not> stuck (lv_program l)" using free Turn False by (cases t) auto
    have "disturbs (Move t) (lv_program l) \<Longrightarrow> 6 \<le> k" using d Turn False by simp
    then obtain s' where s': "program_step (Move t) (lv_program l) = Some s'" "program_ok k s'"
        "same_config (live_router l) (config_of s')"
        "\<not> stuck (lv_program l) \<and> \<not> disturbs (Move t) (lv_program l) \<longrightarrow> \<not> stuck s'"
      using program_step_ok [of k "lv_program l" "Move t", OF _ _ k _ free'] I a Turn by (auto simp: live_inv_def)
    have "live_inv k ms later (l\<lparr>lv_program := s'\<rparr>)"
      using I s' Turn by (auto simp: live_inv_def same_config_def)
    moreover have "took l [] (l\<lparr>lv_program := s'\<rparr>)" using s'(3) by (intro took_nothing) simp_all
    ultimately show thesis using that [of _ "[]" ms] s'(1,4) Turn False by simp
  qed
qed

lemma live_step_None:
  assumes I: "live_inv 6 ms (arrives a @ later) l" and a: "live_ok a"
  shows "live_step a l = None \<longleftrightarrow> (\<exists>e. a = Turn (Receiver e)) \<and> \<not> lv_over l \<and> stuck (lv_program l)"
proof (cases "(\<exists>e. a = Turn (Receiver e)) \<and> \<not> lv_over l \<and> stuck (lv_program l)")
  case True
  then show ?thesis using stuck_receiver by auto
next
  case False
  then obtain l' where "live_step a l = Some l'"
    using live_step_ok [OF I a, of thesis for thesis] by auto
  with False show ?thesis by simp
qed

definition arrived :: "live_act list \<Rightarrow> u8 list" where
  "arrived acts = concat (map arrives acts)"

lemma arrived_simps [simp]:
  "arrived [] = []" "arrived (a # as) = arrives a @ arrived as" "arrived (as @ bs) = arrived as @ arrived bs"
  by (simp_all add: arrived_def)

lemma arrived_Cons: "arrived (a # acts) @ later = arrives a @ arrived acts @ later"
  by (simp add: arrived_def)

lemma live_run_ok:
  "live_inv 5 ms (arrived acts @ later) l \<Longrightarrow> \<not> stuck (lv_program l) \<Longrightarrow> \<forall>a \<in> set acts. live_ok a \<Longrightarrow>
   live_undisturbed acts l \<Longrightarrow>
   \<exists>l' ds rest. live_run acts l = Some l' \<and> ms = ds @ rest \<and> live_inv 5 rest later l' \<and> \<not> stuck (lv_program l') \<and>
     took l ds l'"
proof (induction acts arbitrary: ms l)
  case Nil
  then show ?case by (intro exI [of _ l] exI [of _ "[]"] exI [of _ ms]) (simp add: arrived_def)
next
  case (Cons a acts)
  have "live_ok a" "\<not> live_disturbs a l" using Cons.prems(3,4) by simp_all
  then obtain l1 ds rest where l1: "live_step a l = Some l1" "ms = ds @ rest" "live_inv 5 rest (arrived acts @ later) l1"
      "took l ds l1" "\<not> stuck (lv_program l1)"
    using live_step_ok [OF Cons.prems(1) [unfolded arrived_Cons] _ order_refl] Cons.prems(2) by metis
  then obtain l' ds' rest' where "live_run acts l1 = Some l'" "rest = ds' @ rest'" "live_inv 5 rest' later l'"
      "took l1 ds' l'" "\<not> stuck (lv_program l')"
    using Cons.IH [OF l1(3,5)] Cons.prems(3,4) by auto
  with l1 took_trans [OF l1(4)] show ?case
    by (intro exI [of _ l'] exI [of _ "ds @ ds'"] exI [of _ rest']) simp
qed

text \<open>Schedules in which the timer comes at any point: what they keep, and what ends them.\<close>

lemma live_step_keeps:
  assumes I: "live_inv 6 ms (arrives a @ later) l" and a: "live_ok a" and s: "live_step a l = Some l1"
  obtains ds rest where "ms = ds @ rest" "live_inv 6 rest later l1" "took l ds l1"
proof -
  have "lv_over l \<or> \<not> stuck (lv_program l)" if "\<exists>e. a = Turn (Receiver e)"
    using that s live_step_None [OF I a] by auto
  then obtain l2 ds rest where "live_step a l = Some l2" "ms = ds @ rest" "live_inv 6 rest later l2" "took l ds l2"
    by (rule live_step_ok [OF I a, rotated 2]) simp_all
  with s that show thesis by simp
qed

lemma live_run_any:
  "live_inv 6 ms (arrived acts @ later) l \<Longrightarrow> \<forall>a \<in> set acts. live_ok a \<Longrightarrow> live_run acts l = Some l' \<Longrightarrow>
   \<exists>ds rest. ms = ds @ rest \<and> live_inv 6 rest later l' \<and> took l ds l'"
proof (induction acts arbitrary: ms l)
  case Nil
  then show ?case by (intro exI [of _ "[]"] exI [of _ ms]) (simp add: arrived_def)
next
  case (Cons a acts)
  then obtain l1 where l1: "live_step a l = Some l1" "live_run acts l1 = Some l'"
    by (auto simp: bind_eq_Some_conv)
  obtain ds rest where "ms = ds @ rest" "live_inv 6 rest (arrived acts @ later) l1" "took l ds l1"
    by (rule live_step_keeps [OF Cons.prems(1) [unfolded arrived_Cons] _ l1(1)]) (use Cons.prems(2) in simp_all)
  moreover from this obtain ds' rest' where "rest = ds' @ rest'" "live_inv 6 rest' later l'" "took l1 ds' l'"
    using Cons.IH [of rest l1] Cons.prems(2) l1(2) by auto
  ultimately show ?case
    using took_trans [of l ds l1 ds' l'] by (intro exI [of _ "ds @ ds'"] exI [of _ rest']) simp
qed

interpretation lv: faulting_system live_step
  "\<lambda>acts l. (\<exists>ms. live_inv 6 ms (arrived acts @ later) l) \<and> (\<forall>a \<in> set acts. live_ok a)"
  "\<lambda>a l. (\<exists>e. a = Turn (Receiver e)) \<and> \<not> lv_over l \<and> stuck (lv_program l)"
proof unfold_locales
  fix a acts l assume "(\<exists>ms. live_inv 6 ms (arrived (a # acts) @ later) l) \<and> (\<forall>a \<in> set (a # acts). live_ok a)"
  then obtain ms where I: "live_inv 6 ms (arrives a @ arrived acts @ later) l" "live_ok a" "\<forall>a \<in> set acts. live_ok a"
    by auto
  show "live_step a l = None \<longleftrightarrow> (\<exists>e. a = Turn (Receiver e)) \<and> \<not> lv_over l \<and> stuck (lv_program l)"
    by (rule live_step_None [OF I(1,2)])
  show "(\<exists>ms. live_inv 6 ms (arrived acts @ later) l') \<and> (\<forall>a \<in> set acts. live_ok a)" if "live_step a l = Some l'" for l'
    by (rule live_step_keeps [OF I(1,2) that]) (use I(3) in blast)
qed

lemma live_run_all: "live_run acts l = lv.run_all acts l"
  by (induction acts arbitrary: l) (simp_all cong: Option.bind_cong)

lemma live_run_None:
  "live_inv 6 ms (arrived acts @ later) l \<Longrightarrow> \<forall>a \<in> set acts. live_ok a \<Longrightarrow>
   live_run acts l = None \<longleftrightarrow>
   (\<exists>before e after l'. acts = before @ Turn (Receiver e) # after \<and> live_run before l = Some l' \<and>
      \<not> lv_over l' \<and> stuck (lv_program l'))"
  unfolding live_run_all by (subst lv.run_all_None [where later = later]) (blast, metis (no_types))

lemma live_inv_at_rest:
  assumes "running (router ss)" and "Failed \<notin> set (sock_in ss)" and "msgs_ok (names_of (router ss)) ms"
    and "stream_data (sock_in ss) @ later = concat (map msg_bytes ms)" and "5 \<le> k"
  shows "live_inv k ms later (at_rest ss)"
  using assms by (simp add: live_inv_def resting_ok)

section \<open>The stream is worked off\<close>

lemma live_undisturbed_append:
  "live_undisturbed (as @ bs) l \<longleftrightarrow>
   live_undisturbed as l \<and> (case live_run as l of None \<Rightarrow> True | Some l \<Rightarrow> live_undisturbed bs l)"
proof (induction as arbitrary: l)
  case (Cons a as)
  then show ?case by (cases "live_step a l") (simp_all del: live_step.simps)
qed simp

lemma live_undisturbed_turns:
  "\<not> lv_over l \<Longrightarrow> live_undisturbed (map Turn turns) l = undisturbed (map Move turns) (lv_program l)"
proof (induction turns arbitrary: l)
  case (Cons t turns)
  then show ?case by (cases "program_step (Move t) (lv_program l)") simp_all
qed simp

lemma live_undisturbed_quiet: "\<forall>a \<in> set acts. \<not> timer_turn a \<Longrightarrow> live_undisturbed acts l"
proof (induction acts arbitrary: l)
  case (Cons a acts)
  have "\<not> live_disturbs a l" for l using Cons.prems by (cases a) (auto simp: disturbs_def)
  with Cons show ?case by (auto split: option.split)
qed simp

text \<open>A way from \<open>l\<close> to \<open>l'\<close> on which nothing arrives.\<close>

definition leads_to :: "live \<Rightarrow> live \<Rightarrow> bool" where
  "leads_to l l' \<longleftrightarrow> (\<exists>acts. (\<forall>a \<in> set acts. live_ok a) \<and> arrived acts = [] \<and> live_undisturbed acts l \<and>
     live_run acts l = Some l')"

lemma leads_to_refl: "leads_to l l"
  unfolding leads_to_def by (rule exI [of _ "[]"]) (simp add: arrived_def)

lemma leads_to_trans: "leads_to l l1 \<Longrightarrow> leads_to l1 l2 \<Longrightarrow> leads_to l l2"
  unfolding leads_to_def
proof (elim exE)
  fix as bs
  assume "(\<forall>a \<in> set as. live_ok a) \<and> arrived as = [] \<and> live_undisturbed as l \<and> live_run as l = Some l1"
    and "(\<forall>a \<in> set bs. live_ok a) \<and> arrived bs = [] \<and> live_undisturbed bs l1 \<and> live_run bs l1 = Some l2"
  then show "\<exists>acts. (\<forall>a \<in> set acts. live_ok a) \<and> arrived acts = [] \<and> live_undisturbed acts l \<and> live_run acts l = Some l2"
    by (intro exI [of _ "as @ bs"]) (auto simp: live_run_append live_undisturbed_append arrived_def)
qed

lemma live_rests:
  assumes I: "live_inv 5 ms later l" "\<not> stuck (lv_program l)" and "\<not> lv_over l" and e: "env_ok e"
  obtains l' where "leads_to l l'" "live_inv 5 ms later l'" "\<not> lv_over l'"
    "lv_program l' = resting (live_router l')" "running (live_router l')"
proof -
  have ok: "program_ok 5 (lv_program l)" "\<not> stuck (lv_program l)" using I by (simp_all add: live_inv_def)
  obtain turns s' where t: "\<forall>t \<in> set turns. turn_ok t" "undisturbed (map Move turns) (lv_program l)"
      "program_run (map Move turns) (lv_program l) = Some s'" "s' = resting (config_of s')" "running (config_of s')"
    using comes_to_rest [OF e ok] by blast
  then have cfg: "program_ok 5 s'" "\<not> stuck s'" "same_config (live_router l) (config_of s')"
    using undisturbed_run [OF ok _ t(2)] by auto
  let ?l = "l\<lparr>lv_program := s'\<rparr>"
  have "leads_to l ?l"
    unfolding leads_to_def
    using t assms(3) by (intro exI [of _ "map Turn turns"]) (simp add: live_turns live_undisturbed_turns arrived_def comp_def)
  moreover have "live_inv 5 ms later ?l" using I cfg by (auto simp: live_inv_def same_config_def)
  ultimately show thesis using that t(4,5) assms(3) by simp
qed

definition worked_off :: "live \<Rightarrow> bool" where
  "worked_off l \<longleftrightarrow> lv_over l \<or>
     lv_program l = resting (live_router l) \<and> running (live_router l) \<and> stream_data (lv_in l) = []"

lemma live_works_off:
  fixes v :: os
  assumes e: "env_ok (base v)"
  shows "live_inv 5 ms [] l \<Longrightarrow> \<not> stuck (lv_program l) \<Longrightarrow> \<exists>l'. leads_to l l' \<and> worked_off l'"
proof (induction ms arbitrary: l)
  case Nil
  show ?case
  proof (cases "lv_over l")
    case False
    obtain l' where "leads_to l l'" "live_inv 5 [] [] l'" "lv_program l' = resting (live_router l')"
        "running (live_router l')" by (rule live_rests [OF Nil False e])
    then show ?thesis by (auto simp: worked_off_def live_inv_def)
  qed (use leads_to_refl in \<open>auto simp: worked_off_def\<close>)
next
  case (Cons m ms)
  show ?case
  proof (cases "lv_over l")
    case False
    obtain l1 where l1: "leads_to l l1" "live_inv 5 (m # ms) [] l1" "\<not> lv_over l1"
        "lv_program l1 = resting (live_router l1)" by (rule live_rests [OF Cons.prems False e])
    have i: "idle (lv_program l1)" by (subst l1(4)) simp
    obtain l2 where l2: "live_step (Read v) l1 = Some l2" "live_inv 5 ms [] l2" "\<not> stuck (lv_program l2)"
      by (rule live_reads [OF l1(2) i l1(3) e]) (use l1(2) in \<open>simp add: live_inv_def\<close>)
    have "leads_to l1 l2"
      unfolding leads_to_def using l2(1) e by (intro exI [of _ "[Read v]"]) (simp add: arrived_def)
    with Cons.IH [OF l2(2,3)] l1(1) show ?thesis by (blast intro: leads_to_trans)
  qed (use leads_to_refl in \<open>auto simp: worked_off_def\<close>)
qed

end
