(* ===== verification/Example_Session.thy ===== *)
theory Example_Session
  imports Example Startup Live_Safety
begin

text \<open>A session with the server for the small network: what it answers and what it sends.\<close>

definition os0 :: os where
  "os0 = \<lparr>base = ideal_env, send_ret = int, can_write = (\<lambda>_. True), key_junk = replicate 65 0xAA,
     sha_junk = blank, if_junk = (\<lambda>_. eth0), host_found = True, socket_fd = 3, connect_ret = 0,
     pw_name = None\<rparr>"

lemma os0_ok [simp]: "os_ok os0" "base os0 = ideal_env" "host_found os0" "0 \<le> socket_fd os0"
  "0 \<le> connect_ret os0" "can_write os0 f"
  by (simp_all add: os_ok_def os0_def blank_def ideal_env_ok)

definition key0 :: "u8 list" where "key0 = replicate 64 0x6B @ [10]"

definition announced :: "hw_info list" where
  "announced = [Other 16 (replicate 32 0), Announce ''eth0'' (if_addr eth0) (if_ip eth0),
     Announce ''eth1'' (if_addr eth1) (if_ip eth1)]"

definition packets0 :: "packet_event list" where
  "packets0 = [(os0, ''eth0'', ip_frame 64 17 dst_b)]"

text \<open>The server's bytes, in three portions with a signal between them.\<close>

definition portions :: "u8 list \<Rightarrow> recv_event list" where
  "portions bs = [Bytes (take 3 bs), Interrupted, Bytes (take 50 (drop 3 bs)), Bytes (drop 53 bs)]"

lemma stream_data_portions [simp]: "stream_data (portions bs) = bs" "Failed \<notin> set (portions bs)"
proof -
  have "drop 53 bs = drop 50 (drop 3 bs)" by simp
  then have "take 3 bs @ take 50 (drop 3 bs) @ drop 53 bs = bs" by (simp only: append_take_drop_id)
  then show "stream_data (portions bs) = bs" by (simp add: portions_def)
qed (simp add: portions_def)

definition session0 :: "u8 list \<Rightarrow> session" where
  "session0 bs = \<lparr>router = rtr0, sock_in = portions bs, sock_closed = False,
     files = [''auth_key'' \<mapsto> key0]\<rparr>"

lemma session0_simps [simp]:
  "router (session0 bs) = rtr0" "sock_in (session0 bs) = portions bs"
  "files (session0 bs) ''auth_key'' = Some key0"
  by (simp_all add: session0_def)

lemma announced_ok: "\<forall>x \<in> set announced. hw_ok x" "length (concat (map hw_bytes announced)) \<le> 9992"
  by (simp_all add: announced_def HWINTERFACE_def HWETHER_def HWETHIP_def c_str_def enc_hw_def)

lemma announced_ifaces: "hw_ifaces os0 0 announced = [eth0, eth1]"
  by (simp add: announced_def os0_def eth0_def eth1_def)

lemma announced_printable: "printable [eth0, eth1]"
  by (simp add: eth0_def eth1_def sr_IFACE_NAMELEN_def)

text \<open>A server that announces a name of 32 characters.\<close>

definition long_name :: cstring where
  "long_name = replicate 32 (CHR ''e'')"

lemma long_name_ok: "\<forall>x \<in> set [Announce long_name (if_addr eth0) (if_ip eth0)]. hw_ok x"
  "length (concat (map hw_bytes [Announce long_name (if_addr eth0) (if_ip eth0)])) \<le> 9992"
  "\<not> printable (hw_ifaces os0 0 [Announce long_name (if_addr eth0) (if_ip eth0)])"
  by (simp_all add: long_name_def c_str_def enc_hw_def sr_IFACE_NAMELEN_def)

lemma routes_ok: "\<forall>rt \<in> set routes. route_ok rt" "routes \<noteq> []"
  by (simp_all add: routes_def route_ok_def word_ok_def isspace_def)

section \<open>A session beside the timer\<close>

text \<open>One frame whose message arrives in two portions, the first one too short to be taken.\<close>

definition frame4 :: server_msg where
  "frame4 = Frame_Msg ''eth0'' (ip_frame 64 17 dst_b)"

definition watched :: "live_act list" where
  "watched = [Arrive (Bytes (take 30 (msg_bytes frame4))), Read os0, Arrive Interrupted,
     Arrive (Bytes (drop 30 (msg_bytes frame4))), Read os0, Turn (Receiver ideal_env)]"

definition session4 :: "sr_instance \<Rightarrow> session" where
  "session4 sr = \<lparr>router = sr, sock_in = [], sock_closed = False, files = Map.empty\<rparr>"

lemma session4_simps [simp]: "router (session4 sr) = sr" "sock_in (session4 sr) = []"
  by (simp_all add: session4_def)

lemma watched_facts:
  "\<forall>a \<in> set watched. live_ok a" "arrived watched = msg_bytes frame4" "\<forall>a \<in> set watched. \<not> timer_turn a"
  by (simp_all add: watched_def arrived_def ideal_env_ok)

lemma watched_undisturbed: "live_undisturbed (Turn (Timer ideal_env) # watched) (at_rest ss)"
  using live_undisturbed_quiet [OF watched_facts(3)]
  by (simp add: disturbs_def resting_def finished_def split: option.split)

lemma frame4_ok: "if_list sr = if_list rtr0 \<Longrightarrow> msg_ok (names_of sr) frame4"
proof -
  assume "if_list sr = if_list rtr0"
  moreover have "sr_get_interface rtr0 ''eth0'' \<noteq> None" by code_simp
  ultimately show ?thesis by (simp add: frame4_def c_str_def get_interface_knows [symmetric, simplified] sr_get_interface_def)
qed

lemma rtr4_ifaces: "if_list rtr4 = if_list rtr0"
  by (simp add: rtr4_def rtr3_def)

lemma farewell_ok:
  assumes "same_config rtr0 sr"
  shows "msgs_ok (names_of sr) [frame4, Banner_Msg ''soon'', Close_Msg ''bye'']"
  using assms frame4_ok [of sr] by (simp add: same_config_def c_str_def frame4_def)

end
