(* ===== verification/Shared_Log.thy ===== *)
theory Shared_Log
  imports Vns_Send
begin

text \<open>
  The dump file with two writers. Both threads send packets, and \<^verbatim>\<open>sr_send_packet\<close> of
  \<^verbatim>\<open>src/sr_vns_comm.c\<close> logs each of them; \<^verbatim>\<open>sr_dump\<close> of \<^verbatim>\<open>src/sr_dumper.c\<close> writes a record with two
  calls of \<^verbatim>\<open>fwrite\<close>. The C library keeps each call whole, but nothing keeps the two together. A
  file that two threads wrote is the file header followed by an interleaving of their calls.
\<close>

section \<open>The calls\<close>

text \<open>What the two calls of \<^verbatim>\<open>sr_dump\<close> write.\<close>

definition dump_writes :: "pcap_pkthdr \<Rightarrow> u8 list \<Rightarrow> u8 list list option" where
  "dump_writes h sp =
     (let sf_hdr = \<lparr>sf_tv_sec = word_of_int (fst (ts h)), sf_tv_usec = word_of_int (snd (ts h)),
                    sf_caplen = caplen h, sf_len = pcap_len h\<rparr>
      in map_option (\<lambda>data. [enc_sf_pkthdr sf_hdr, data]) (load sp 0 (unat (caplen h))))"

lemma sr_dump_writes: "sr_dump fp h sp = map_option (\<lambda>ws. fp @ concat ws) (dump_writes h sp)"
  by (simp add: sr_dump_def dump_writes_def Let_def option.map_comp comp_def)

text \<open>What \<^verbatim>\<open>sr_log_packet\<close> writes for a frame, and a thread for a list of frames.\<close>

definition record_writes :: "pcap_sf_pkthdr \<times> u8 list \<Rightarrow> u8 list list" where
  "record_writes r = [enc_sf_pkthdr (fst r), snd r]"

lemma concat_record_writes: "concat (record_writes r) = rec_bytes r"
  by (simp add: record_writes_def rec_bytes_def)

lemma sr_log_packet_writes:
  "sr_log_packet e sr fr (int (length fr)) =
    Some (sr\<lparr>logfile := map_option (\<lambda>fp. fp @ concat (record_writes (log_record e fr))) (logfile sr)\<rparr>)"
  by (simp add: sr_log_packet_eq log_frame_def concat_record_writes)

definition thread_writes :: "(env \<times> u8 list) list \<Rightarrow> u8 list list" where
  "thread_writes frs = concat (map (\<lambda>(e, fr). record_writes (log_record e fr)) frs)"

section \<open>Records kept together\<close>

text \<open>If no call comes between the two of a record, the file reads back as the records of both
  threads, those of each in the order it wrote them.\<close>

lemma whole_records_read_back:
  assumes "rs \<in> shuffles (map (\<lambda>(e, fr). log_record e fr) xs) (map (\<lambda>(e, fr). log_record e fr) ys)"
  shows "concat (map record_writes rs) \<in> shuffles (thread_writes xs) (thread_writes ys)"
    and "read_dump (enc_file_header h @ concat (concat (map record_writes rs))) = Some (h, rs)"
proof -
  have append: "us @ ws \<in> shuffles (us @ as) bs" if "ws \<in> shuffles as bs" for us ws as bs :: "u8 list list"
    using that by (induction us) (auto intro: Cons_in_shuffles_leftI)
  have append': "us @ ws \<in> shuffles as (us @ bs)" if "ws \<in> shuffles as bs" for us ws as bs :: "u8 list list"
    using append [of ws bs as us] that shuffles_commutes by metis
  show "concat (map record_writes rs) \<in> shuffles (thread_writes xs) (thread_writes ys)"
    using assms
  proof (induction rs arbitrary: xs ys)
    case (Cons r rs)
    from Cons.prems consider e fr xs' where "xs = (e, fr) # xs'" "r = log_record e fr"
        "rs \<in> shuffles (map (\<lambda>(e, fr). log_record e fr) xs') (map (\<lambda>(e, fr). log_record e fr) ys)"
      | e fr ys' where "ys = (e, fr) # ys'" "r = log_record e fr"
        "rs \<in> shuffles (map (\<lambda>(e, fr). log_record e fr) xs) (map (\<lambda>(e, fr). log_record e fr) ys')"
      by (auto simp: Cons_in_shuffles_iff neq_Nil_conv)
    then show ?case
    proof cases
      case 1
      with append [OF Cons.IH [OF 1(3)]] show ?thesis by (simp add: thread_writes_def)
    next
      case 2
      with append' [OF Cons.IH [OF 2(3)]] show ?thesis by (simp add: thread_writes_def)
    qed
  qed (simp add: thread_writes_def)
  have "set rs = set (map (\<lambda>(e, fr). log_record e fr) xs) \<union> set (map (\<lambda>(e, fr). log_record e fr) ys)"
    by (rule set_shuffles [OF assms])
  then have "\<forall>r \<in> set rs. rec_ok r" by (auto simp: rec_ok_log_record)
  moreover have "concat (concat (map record_writes rs)) = concat (map rec_bytes rs)"
    by (induction rs) (simp_all add: concat_record_writes)
  ultimately show "read_dump (enc_file_header h @ concat (concat (map record_writes rs))) = Some (h, rs)"
    using read_dump_bytes by simp
qed

section \<open>Records torn apart\<close>

text \<open>
  Nothing excludes the interleaving in which both threads write the header of their record before
  either writes the data. Then the reader takes the header of the second record for data of the
  first, and what it finds are not the records that were logged.
\<close>

lemma read_records_first:
  assumes "read_records fuel (enc_sf_pkthdr h @ bs) = Some rs"
  shows "hd rs = (h, take (unat (sf_caplen h)) bs)"
proof -
  have "enc_sf_pkthdr h \<noteq> []" using sfh.length_enc [of h] by auto
  with assms show ?thesis
    by (cases fuel) (auto simp: ld_append sfh.length_enc sfh.dec_enc bind_eq_Some_conv load_def split: if_splits)
qed

lemma torn_records:
  fixes a b :: "env \<times> u8 list"
  defines "ra \<equiv> log_record (fst a) (snd a)" and "rb \<equiv> log_record (fst b) (snd b)"
  defines "ws \<equiv> [enc_sf_pkthdr (fst ra), enc_sf_pkthdr (fst rb), snd ra, snd rb]"
  assumes len: "14 \<le> length (snd a)" and diff: "take 14 (snd a) \<noteq> take 14 (enc_sf_pkthdr (fst rb))"
  shows "ws \<in> shuffles (thread_writes [a]) (thread_writes [b])"
    and "read_dump (enc_file_header h @ concat ws) \<noteq> Some (h, [ra, rb])"
    and "fst ra \<noteq> fst rb \<Longrightarrow> read_dump (enc_file_header h @ concat ws) \<noteq> Some (h, [rb, ra])"
proof -
  show "ws \<in> shuffles (thread_writes [a]) (thread_writes [b])"
    by (simp add: ws_def thread_writes_def record_writes_def ra_def rb_def split_beta Cons_in_shuffles_iff)
  have n: "unat (sf_caplen (fst ra)) = length (snd ra)"
    using rec_ok_log_record [of "fst a" "snd a"] by (simp add: rec_ok_def ra_def)
  have d: "take 14 (snd ra) = take 14 (snd a)" "14 \<le> length (snd ra)"
    using len by (simp_all add: ra_def log_record_def Let_def PACKET_DUMP_SIZE_def)
  let ?rest = "enc_sf_pkthdr (fst rb) @ snd ra @ snd rb"
  have first: "hd rs = (fst ra, take (length (snd ra)) ?rest)"
    if read: "read_dump (enc_file_header h @ concat ws) = Some (h, rs)" for rs
  proof -
    obtain fuel where "read_records fuel (enc_sf_pkthdr (fst ra) @ ?rest) = Some rs"
      using read by (auto simp: read_dump_def ws_def ld_append pfh.length_enc pfh.dec_enc bind_eq_Some_conv)
    from read_records_first [OF this] n show ?thesis by simp
  qed
  have t: "take 14 (take (length (snd ra)) ?rest) = take 14 (enc_sf_pkthdr (fst rb))"
    using d(2) by (simp add: min_def sfh.length_enc)
  show "read_dump (enc_file_header h @ concat ws) \<noteq> Some (h, [ra, rb])"
  proof
    assume "read_dump (enc_file_header h @ concat ws) = Some (h, [ra, rb])"
    from first [OF this] have "snd ra = take (length (snd ra)) ?rest" by (metis list.sel(1) snd_conv)
    with t d(1) diff show False by metis
  qed
  show "read_dump (enc_file_header h @ concat ws) \<noteq> Some (h, [rb, ra])" if "fst ra \<noteq> fst rb"
    using first [of "[rb, ra]"] that by (cases rb) auto
qed

end
