(* ===== verification/Shared_Interfaces.thy ===== *)
theory Shared_Interfaces
  imports Interfaces
begin

text \<open>
  The interface list while it grows. \<^verbatim>\<open>sr_handle_hwinfo\<close> calls \<^verbatim>\<open>sr_add_interface\<close> of
  \<^verbatim>\<open>src/sr_if.c\<close> from the receiving thread, and no lock protects the list from the timer thread,
  which walks it when it repeats requests and reports errors. Here the list is what it is in memory,
  nodes with a pointer to the next one, and both threads move one access at a time.
\<close>

section \<open>The list in memory\<close>

text \<open>A pointer: null, to the node at an address, or whatever \<^verbatim>\<open>malloc\<close> left in it.\<close>

datatype link = Null | Ptr nat | Wild

record if_node =
  nd_if :: sr_if
  nd_next :: link

record if_heap =
  if_first :: link
  if_nodes :: "nat \<Rightarrow> if_node option"
  if_fresh :: nat

definition set_node :: "nat \<Rightarrow> if_node \<Rightarrow> if_heap \<Rightarrow> if_heap" where
  "set_node a n h = h\<lparr>if_nodes := (if_nodes h)(a := Some n)\<rparr>"

text \<open>\<^verbatim>\<open>malloc(sizeof(struct sr_if))\<close>: a new address, with \<open>junk\<close> in the node.\<close>

definition new_node :: "sr_if \<Rightarrow> if_heap \<Rightarrow> nat \<times> if_heap" where
  "new_node junk h =
     (if_fresh h, set_node (if_fresh h) \<lparr>nd_if = junk, nd_next = Wild\<rparr> (h\<lparr>if_fresh := Suc (if_fresh h)\<rparr>))"

section \<open>\<^verbatim>\<open>sr_add_interface\<close>, one access at a time\<close>

text \<open>
  Where \<^verbatim>\<open>sr_add_interface\<close> stands. In the empty list it clears the new node's pointer and then
  copies the name; otherwise it searches the last node, links the new one, copies the name and
  clears the pointer last.
\<close>

datatype add_pc =
    Add cstring
  | Add_Clear cstring nat
  | Add_Copy cstring nat
  | Seek cstring nat
  | Copy cstring nat
  | Clear nat
  | Added

definition add_step :: "env \<Rightarrow> sr_if \<Rightarrow> if_heap \<Rightarrow> add_pc \<Rightarrow> (if_heap \<times> add_pc) option" where
  "add_step e junk h pc =
     (case pc of
        Add name \<Rightarrow>
          (case if_first h of
             Null \<Rightarrow>
               if \<not> malloc_ok e sizeof_sr_if then None
               else let (a, h) = new_node junk h in Some (h\<lparr>if_first := Ptr a\<rparr>, Add_Clear name a)
           | Ptr w \<Rightarrow> Some (h, Seek name w)
           | Wild \<Rightarrow> None)
      | Add_Clear name a \<Rightarrow>
          do { n \<leftarrow> if_nodes h a; Some (set_node a (n\<lparr>nd_next := Null\<rparr>) h, Add_Copy name a) }
      | Add_Copy name a \<Rightarrow>
          do { n \<leftarrow> if_nodes h a;
               Some (set_node a (n\<lparr>nd_if := (nd_if n)\<lparr>if_name := strncpy sr_IFACE_NAMELEN name\<rparr>\<rparr>) h, Added) }
      | Seek name w \<Rightarrow>
          do { n \<leftarrow> if_nodes h w;
               (case nd_next n of
                  Null \<Rightarrow>
                    if \<not> malloc_ok e sizeof_sr_if then None
                    else let (a, h) = new_node junk h
                         in Some (set_node w (n\<lparr>nd_next := Ptr a\<rparr>) h, Copy name a)
                | Ptr w' \<Rightarrow> Some (h, Seek name w')
                | Wild \<Rightarrow> None) }
      | Copy name a \<Rightarrow>
          do { n \<leftarrow> if_nodes h a;
               Some (set_node a (n\<lparr>nd_if := (nd_if n)\<lparr>if_name := strncpy sr_IFACE_NAMELEN name\<rparr>\<rparr>) h, Clear a) }
      | Clear a \<Rightarrow>
          do { n \<leftarrow> if_nodes h a; Some (set_node a (n\<lparr>nd_next := Null\<rparr>) h, Added) }
      | Added \<Rightarrow> Some (h, Added))"

section \<open>A walk over the list, one access at a time\<close>

text \<open>
  The three walks of the program (\<^verbatim>\<open>sr_get_interface\<close>, \<^verbatim>\<open>sr_is_router_ip\<close>, \<^verbatim>\<open>sr_find_iface_by_mac\<close>)
  look for the first node with a property: read the head, look at a node, go on to the next.
  Following a pointer that has not been set is a fault.
\<close>

datatype find_pc = Begin | At link | Onward nat | Result "sr_if option"

fun find_step :: "(sr_if \<Rightarrow> bool) \<Rightarrow> if_heap \<Rightarrow> find_pc \<Rightarrow> find_pc option" where
  "find_step P h Begin = Some (At (if_first h))"
| "find_step P h (At Null) = Some (Result None)"
| "find_step P h (At (Ptr a)) =
     do { n \<leftarrow> if_nodes h a; Some (if P (nd_if n) then Result (Some (nd_if n)) else Onward a) }"
| "find_step P h (At Wild) = None"
| "find_step P h (Onward a) = do { n \<leftarrow> if_nodes h a; Some (At (nd_next n)) }"
| "find_step P h (Result i) = Some (Result i)"

section \<open>Both threads\<close>

record if_threads =
  ith_heap :: if_heap
  ith_add :: add_pc
  ith_find :: find_pc

datatype if_turn = Adds env sr_if | Finds

fun if_turn_step :: "(sr_if \<Rightarrow> bool) \<Rightarrow> if_turn \<Rightarrow> if_threads \<Rightarrow> if_threads option" where
  "if_turn_step P (Adds e junk) s =
     do { (h, pc) \<leftarrow> add_step e junk (ith_heap s) (ith_add s); Some (s\<lparr>ith_heap := h, ith_add := pc\<rparr>) }"
| "if_turn_step P Finds s =
     do { pc \<leftarrow> find_step P (ith_heap s) (ith_find s); Some (s\<lparr>ith_find := pc\<rparr>) }"

fun if_schedule :: "(sr_if \<Rightarrow> bool) \<Rightarrow> if_turn list \<Rightarrow> if_threads \<Rightarrow> if_threads option" where
  "if_schedule P [] s = Some s"
| "if_schedule P (t # turns) s = do { s \<leftarrow> if_turn_step P t s; if_schedule P turns s }"

fun if_turn_ok :: "if_turn \<Rightarrow> bool" where
  "if_turn_ok (Adds e junk) = malloc_ok e sizeof_sr_if"
| "if_turn_ok Finds = True"

definition extending :: "if_heap \<Rightarrow> cstring \<Rightarrow> if_threads" where
  "extending h name = \<lparr>ith_heap = h, ith_add = Add name, ith_find = Begin\<rparr>"

section \<open>What a heap represents\<close>

text \<open>From pointer \<open>p\<close> the nodes at the addresses hold the interfaces, and the last points to \<open>q\<close>.\<close>

fun chain :: "(nat \<Rightarrow> if_node option) \<Rightarrow> link \<Rightarrow> nat list \<Rightarrow> sr_if list \<Rightarrow> link \<Rightarrow> bool" where
  "chain m p [] l q \<longleftrightarrow> l = [] \<and> p = q"
| "chain m p (a # as) l q \<longleftrightarrow>
     (\<exists>n l'. p = Ptr a \<and> m a = Some n \<and> l = nd_if n # l' \<and> chain m (nd_next n) as l' q)"

definition holds_list :: "if_heap \<Rightarrow> nat list \<Rightarrow> sr_if list \<Rightarrow> bool" where
  "holds_list h as l \<longleftrightarrow> chain (if_nodes h) (if_first h) as l Null \<and> distinct as \<and> (\<forall>a \<in> set as. a < if_fresh h)"

lemma chain_join:
  "chain m p as l r \<Longrightarrow> chain m r bs k q \<Longrightarrow> chain m p (as @ bs) (l @ k) q"
  by (induction as arbitrary: p l) auto

lemma chain_elsewhere: "chain m p as l q \<Longrightarrow> \<forall>a \<in> set as. m' a = m a \<Longrightarrow> chain m' p as l q"
  by (induction as arbitrary: p l) auto

lemma chain_length: "chain m p as l q \<Longrightarrow> length as = length l"
  by (induction as arbitrary: p l) auto

text \<open>Every list is held by some heap, for instance with the nodes at addresses 0, 1, ...\<close>

definition heap_of :: "sr_if list \<Rightarrow> if_heap" where
  "heap_of l =
     (let link = (\<lambda>a. if a < length l then Ptr a else Null)
      in \<lparr>if_first = link 0,
          if_nodes = (\<lambda>a. if a < length l then Some \<lparr>nd_if = l ! a, nd_next = link (Suc a)\<rparr> else None),
          if_fresh = length l\<rparr>)"

lemma heap_of_holds: "holds_list (heap_of l) [0..<length l] l"
proof -
  have "chain (if_nodes (heap_of l)) (if a < length l then Ptr a else Null) [a..<length l] (drop a l) Null"
    if "a \<le> length l" for a
    using that
  proof (induction "length l - a" arbitrary: a)
    case (Suc k)
    from Suc.hyps(2) have a: "a < length l" by simp
    moreover have "k = length l - Suc a" using Suc.hyps(2) by simp
    ultimately show ?case
      using Suc.hyps(1) [of "Suc a"] by (simp add: upt_conv_Cons Cons_nth_drop_Suc [symmetric]) (simp add: heap_of_def)
  qed simp
  from this [of 0] show ?thesis by (simp add: holds_list_def) (simp add: heap_of_def)
qed

text \<open>Linking a node behind the last one changes where every rest of the list ends.\<close>

lemma chain_relink:
  assumes "chain m p as l Null" and "distinct as" and "w \<in> set as" and "m w = Some n" and "nd_next n = Null"
    and "m' = m(w := Some (n\<lparr>nd_next := r\<rparr>), b := x)" and "b \<notin> set as"
  shows "chain m' p as l r"
  using assms
proof (induction as arbitrary: p l)
  case (Cons a as)
  show ?case
  proof (cases "a = w")
    case True
    with Cons.prems have "as = []" by (cases as) auto
    with True Cons.prems show ?thesis by auto
  next
    case False
    with Cons show ?thesis by auto
  qed
qed simp


section \<open>The pieces of \<^verbatim>\<open>sr_add_interface\<close> together\<close>

lemma seek_in_steps:
  assumes "malloc_ok e sizeof_sr_if" and "chain (if_nodes h) (Ptr w) as l Null"
  shows "\<exists>v n. if_schedule P (replicate (length as) (Adds e junk)) \<lparr>ith_heap = h, ith_add = Seek name w, ith_find = f\<rparr> =
      Some \<lparr>ith_heap = set_node v (n\<lparr>nd_next := Ptr (if_fresh h)\<rparr>) (snd (new_node junk h)),
        ith_add = Copy name (if_fresh h), ith_find = f\<rparr> \<and>
    v \<in> set as \<and> if_nodes h v = Some n \<and> nd_next n = Null"
  using assms(2)
proof (induction as arbitrary: w l)
  case (Cons a as)
  then obtain n l' where n: "a = w" "if_nodes h w = Some n" "chain (if_nodes h) (nd_next n) as l' Null" by auto
  show ?case
  proof (cases as)
    case Nil
    with n assms(1) show ?thesis by (intro exI [of _ w] exI [of _ n]) (simp add: add_step_def new_node_def)
  next
    case (Cons c cs)
    with n(3) have "nd_next n = Ptr c" by auto
    with n Cons.IH [of c l'] show ?thesis by (auto simp: add_step_def)
  qed
qed simp

lemma link_in_steps:
  assumes e: "malloc_ok e sizeof_sr_if" and h: "holds_list h as l"
  obtains h' pc n where
    "if_schedule P (replicate (Suc (length l)) (Adds e junk)) \<lparr>ith_heap = h, ith_add = Add name, ith_find = f\<rparr> =
      Some \<lparr>ith_heap = h', ith_add = pc, ith_find = f\<rparr>"
    "chain (if_nodes h') (if_first h') as l (Ptr (if_fresh h))"
    "if_nodes h' (if_fresh h) = Some \<lparr>nd_if = junk, nd_next = Wild\<rparr>"
    "if_fresh h' = Suc (if_fresh h)"
    "pc = (if l = [] then Add_Clear name (if_fresh h) else Copy name (if_fresh h))"
proof (cases as)
  case Nil
  then have "l = []" "if_first h = Null" using h by (auto simp: holds_list_def)
  with e Nil that show ?thesis by (simp add: add_step_def new_node_def set_node_def)
next
  case (Cons a as')
  then have p: "if_first h = Ptr a" and c: "chain (if_nodes h) (Ptr a) as l Null" and l: "l \<noteq> []"
    using h by (auto simp: holds_list_def)
  obtain v n where s: "if_schedule P (replicate (length as) (Adds e junk)) \<lparr>ith_heap = h, ith_add = Seek name a, ith_find = f\<rparr> =
      Some \<lparr>ith_heap = set_node v (n\<lparr>nd_next := Ptr (if_fresh h)\<rparr>) (snd (new_node junk h)),
        ith_add = Copy name (if_fresh h), ith_find = f\<rparr>"
    and v: "v \<in> set as" "if_nodes h v = Some n" "nd_next n = Null"
    using seek_in_steps [OF e c] by blast
  have fresh: "if_fresh h \<notin> set as" "distinct as" using h by (auto simp: holds_list_def)
  let ?h = "set_node v (n\<lparr>nd_next := Ptr (if_fresh h)\<rparr>) (snd (new_node junk h))"
  have "chain (if_nodes ?h) (Ptr a) as l (Ptr (if_fresh h))"
    by (rule chain_relink [OF c fresh(2) v(1-3) _ fresh(1)])
      (use v(1) fresh(1) in \<open>auto simp: set_node_def new_node_def fun_upd_twist\<close>)
  moreover have "v \<noteq> if_fresh h" using v(1) fresh(1) by auto
  ultimately show ?thesis
    using s p l chain_length [OF c] by (intro that [of ?h]) (simp_all add: add_step_def set_node_def new_node_def)
qed

lemma if_schedule_append:
  "if_schedule P (turns @ more_turns) s = if_schedule P turns s \<bind> if_schedule P more_turns"
proof (induction turns arbitrary: s)
  case (Cons t turns)
  then show ?case by (cases "if_turn_step P t s") simp_all
qed simp

text \<open>With the walk at rest they append to the list what \<^verbatim>\<open>sr_add_interface\<close> of theory
  \<open>Interfaces\<close> appends.\<close>

lemma add_interface_in_steps:
  assumes e: "malloc_ok e sizeof_sr_if" and h: "holds_list h as (if_list sr)"
  shows "\<exists>sr' h'. sr_add_interface e junk sr name = Some sr' \<and> holds_list h' (as @ [if_fresh h]) (if_list sr') \<and>
    if_schedule P (replicate (length (if_list sr) + 3) (Adds e junk)) (extending h name) =
      Some \<lparr>ith_heap = h', ith_add = Added, ith_find = Begin\<rparr>"
proof -
  let ?l = "if_list sr" and ?b = "if_fresh h"
  let ?new = "junk\<lparr>if_name := strncpy sr_IFACE_NAMELEN name\<rparr>"
  obtain h1 pc where s: "if_schedule P (replicate (Suc (length ?l)) (Adds e junk)) (extending h name) =
      Some \<lparr>ith_heap = h1, ith_add = pc, ith_find = Begin\<rparr>"
    and c: "chain (if_nodes h1) (if_first h1) as ?l (Ptr ?b)"
    and n: "if_nodes h1 ?b = Some \<lparr>nd_if = junk, nd_next = Wild\<rparr>" "if_fresh h1 = Suc ?b"
    and pc: "pc = (if ?l = [] then Add_Clear name ?b else Copy name ?b)"
    unfolding extending_def by (rule link_in_steps [OF e h])
  let ?h2 = "h1\<lparr>if_nodes := (if_nodes h1)(?b := Some \<lparr>nd_if = ?new, nd_next = Null\<rparr>)\<rparr>"
  have more_turns: "if_schedule P (replicate 2 (Adds e junk)) \<lparr>ith_heap = h1, ith_add = pc, ith_find = Begin\<rparr> =
      Some \<lparr>ith_heap = ?h2, ith_add = Added, ith_find = Begin\<rparr>"
    using n(1) pc by (simp add: numeral_eq_Suc add_step_def set_node_def)
  have fresh: "?b \<notin> set as" "distinct as" "\<forall>a \<in> set as. a < Suc ?b"
    using h by (auto simp: holds_list_def)
  have "chain (if_nodes ?h2) (if_first ?h2) as ?l (Ptr ?b)"
    using chain_elsewhere [OF c, of "if_nodes ?h2"] fresh(1) by auto
  then have "chain (if_nodes ?h2) (if_first ?h2) (as @ [?b]) (?l @ [?new]) Null"
    by (rule chain_join) simp
  then have "holds_list ?h2 (as @ [?b]) (?l @ [?new])"
    using fresh n(2) by (simp add: holds_list_def)
  moreover have "replicate (length ?l + 3) (Adds e junk) =
      replicate (Suc (length ?l)) (Adds e junk) @ replicate 2 (Adds e junk)"
    using replicate_add [of "Suc (length ?l)" 2 "Adds e junk"] by (simp add: numeral_3_eq_3 del: replicate.simps)
  ultimately show ?thesis
    using e s more_turns by (simp add: if_schedule_append sr_add_interface_def del: replicate.simps)
qed

section \<open>Looking for an interface the list already has\<close>

text \<open>
  Where a walk can be that will find interface \<open>i\<close>, in at most \<open>d\<close> more accesses: in a rest of the
  list as it was.
\<close>

definition ahead :: "(sr_if \<Rightarrow> bool) \<Rightarrow> sr_if \<Rightarrow> nat list \<Rightarrow> link \<Rightarrow> (nat \<Rightarrow> if_node option) \<Rightarrow> link \<Rightarrow> nat \<Rightarrow> bool" where
  "ahead P i as q m p d \<longleftrightarrow>
     (\<exists>pre as' l. as = pre @ as' \<and> chain m p as' l q \<and> find P l = Some i \<and> 2 * length as' \<le> d)"

definition will_find ::
  "(sr_if \<Rightarrow> bool) \<Rightarrow> sr_if \<Rightarrow> nat list \<Rightarrow> link \<Rightarrow> (nat \<Rightarrow> if_node option) \<Rightarrow> find_pc \<Rightarrow> nat \<Rightarrow> bool" where
  "will_find P i as q m pc d \<longleftrightarrow>
     (case pc of
        Begin \<Rightarrow> 2 * length as < d
      | At p \<Rightarrow> ahead P i as q m p d
      | Onward a \<Rightarrow> (\<exists>n. a \<in> set as \<and> m a = Some n \<and> ahead P i as q m (nd_next n) (d - 1) \<and> 0 < d)
      | Result x \<Rightarrow> x = Some i)"

lemma aheadE:
  assumes "ahead P i as q m p d"
  obtains a n as' l where "p = Ptr a" "a \<in> set as" "m a = Some n" "chain m (nd_next n) as' l q"
    "find P (nd_if n # l) = Some i" "2 * length as' + 2 \<le> d" "\<exists>pre. as = pre @ as'"
proof -
  obtain pre as' l where c: "as = pre @ as'" "chain m p as' l q" "find P l = Some i" "2 * length as' \<le> d"
    using assms by (auto simp: ahead_def)
  then obtain a as'' where as': "as' = a # as''" by (cases as') auto
  with c(2) obtain n l' where n: "p = Ptr a" "m a = Some n" "l = nd_if n # l'" "chain m (nd_next n) as'' l' q" by auto
  have "\<exists>pre'. as = pre' @ as''" using c(1) as' by (intro exI [of _ "pre @ [a]"]) simp
  with that [OF n(1) _ n(2,4)] c as' n(3) show ?thesis by auto
qed

text \<open>What the writer has done to the list: nothing yet, or linked the node \<open>b\<close> behind its end \<open>q\<close>.\<close>

definition growing :: "nat list \<Rightarrow> sr_if list \<Rightarrow> nat \<Rightarrow> link \<Rightarrow> if_heap \<Rightarrow> add_pc \<Rightarrow> bool" where
  "growing as l b q h pc \<longleftrightarrow>
     chain (if_nodes h) (if_first h) as l q \<and> distinct as \<and> b \<notin> set as \<and> as \<noteq> [] \<and>
     (case pc of
        Add name \<Rightarrow> q = Null \<and> if_fresh h = b
      | Seek name w \<Rightarrow> q = Null \<and> if_fresh h = b \<and> w \<in> set as
      | Copy name a \<Rightarrow> a = b \<and> if_nodes h b \<noteq> None
      | Clear a \<Rightarrow> a = b \<and> if_nodes h b \<noteq> None
      | Added \<Rightarrow> True
      | _ \<Rightarrow> False)"

lemma find_keeps:
  assumes h: "growing as l b q h (ith_add s)" "h = ith_heap s" and f: "will_find P i as q (if_nodes h) (ith_find s) d"
    and i: "find P l = Some i"
  shows "\<exists>pc. find_step P h (ith_find s) = Some pc \<and> will_find P i as q (if_nodes h) pc (d - 1)"
proof (cases "ith_find s")
  case Begin
  have "chain (if_nodes h) (if_first h) as l q" using h(1) by (simp add: growing_def)
  then have "ahead P i as q (if_nodes h) (if_first h) (d - 1)"
    unfolding ahead_def using f i Begin
    by (intro exI [of _ "[]"] exI [of _ as] exI [of _ l]) (auto simp: will_find_def)
  with Begin show ?thesis by (simp add: will_find_def)
next
  case (At p)
  then have "ahead P i as q (if_nodes h) p d" using f by (simp add: will_find_def)
  then show ?thesis
  proof (rule aheadE)
    fix a n as' l'
    assume n: "p = Ptr a" "a \<in> set as" "if_nodes h a = Some n" "chain (if_nodes h) (nd_next n) as' l' q"
      "find P (nd_if n # l') = Some i" "2 * length as' + 2 \<le> d" "\<exists>pre. as = pre @ as'"
    then obtain pre where pre: "as = pre @ as'" by blast
    show ?thesis
    proof (cases "P (nd_if n)")
      case True
      with At n show ?thesis by (simp add: will_find_def)
    next
      case False
      then have "ahead P i as q (if_nodes h) (nd_next n) (d - 1 - 1)"
        unfolding ahead_def using n(4-6) by (intro exI [of _ pre] exI [of _ as'] exI [of _ l']) (simp add: pre)
      with At n False show ?thesis by (auto simp: will_find_def)
    qed
  qed
next
  case (Onward a)
  with f show ?thesis by (auto simp: will_find_def)
next
  case (Result x)
  with f show ?thesis by (simp add: will_find_def)
qed

lemma chain_member:
  "chain m p as l q \<Longrightarrow> a \<in> set as \<Longrightarrow> \<exists>n. m a = Some n \<and> (nd_next n = q \<or> (\<exists>a' \<in> set as. nd_next n = Ptr a'))"
proof (induction as arbitrary: p l)
  case (Cons c cs)
  show ?case
  proof (cases "a = c")
    case True
    with Cons.prems(1) show ?thesis by (cases cs) auto
  next
    case False
    with Cons.prems obtain n :: if_node and l' where "chain m (nd_next n) cs l' q" "a \<in> set cs" by auto
    from Cons.IH [OF this] show ?thesis by auto
  qed
qed simp

lemma chain_before:
  "chain m p (pre @ c # cs) l q \<Longrightarrow> a \<in> set pre \<Longrightarrow> m a = Some n \<Longrightarrow> \<exists>a'. nd_next n = Ptr a'"
proof (induction pre arbitrary: p l)
  case (Cons d ds)
  show ?case
  proof (cases "a = d")
    case True
    with Cons.prems(1,3) show ?thesis by (cases ds) auto
  qed (use Cons in auto)
qed simp

lemma ahead_elsewhere:
  assumes "ahead P i as q m p d" and "\<forall>a \<in> set as. m' a = m a"
  shows "ahead P i as q m' p d"
proof -
  obtain pre as' l where s: "as = pre @ as'" "chain m p as' l q" "find P l = Some i" "2 * length as' \<le> d"
    using assms(1) by (auto simp: ahead_def)
  moreover have "chain m' p as' l q" by (rule chain_elsewhere [OF s(2)]) (use assms(2) s(1) in simp)
  ultimately show ?thesis unfolding ahead_def by blast
qed

lemma will_find_elsewhere:
  "will_find P i as q m pc d \<Longrightarrow> \<forall>a \<in> set as. m' a = m a \<Longrightarrow> will_find P i as q m' pc d"
  by (auto simp: will_find_def ahead_elsewhere split: find_pc.splits)

lemma ahead_relink:
  assumes a: "ahead P i as Null m p d" and c: "chain m p0 as l0 Null" "distinct as" "b \<notin> set as"
    and w: "w \<in> set as" "m w = Some n" "nd_next n = Null"
  shows "ahead P i as r (m(w := Some (n\<lparr>nd_next := r\<rparr>), b := x)) p d"
proof -
  obtain pre as' l where s: "as = pre @ as'" "chain m p as' l Null" "find P l = Some i" "2 * length as' \<le> d"
    using a by (auto simp: ahead_def)
  then have "as' \<noteq> []" by auto
  then obtain c' cs where "as' = c' # cs" by (cases as') auto
  then have "w \<notin> set pre" using chain_before [of m p0 pre c' cs l0 Null w n] c(1) s(1) w by auto
  then have "w \<in> set as'" using w(1) s(1) by auto
  with chain_relink [OF s(2) _ _ w(2,3) refl, of b] c(2,3) s(1)
  have "chain (m(w := Some (n\<lparr>nd_next := r\<rparr>), b := x)) p as' l r" by simp
  with s show ?thesis unfolding ahead_def by blast
qed

lemma will_find_relink:
  assumes f: "will_find P i as Null m pc d" and c: "chain m p0 as l0 Null" "distinct as" "b \<notin> set as"
    and w: "w \<in> set as" "m w = Some n" "nd_next n = Null"
  shows "will_find P i as r (m(w := Some (n\<lparr>nd_next := r\<rparr>), b := x)) pc d"
proof (cases pc)
  case (At p)
  with f ahead_relink [OF _ c w] show ?thesis by (simp add: will_find_def)
next
  case (Onward a)
  with f obtain k where k: "a \<in> set as" "m a = Some k" "ahead P i as Null m (nd_next k) (d - 1)" "0 < d"
    by (auto simp: will_find_def)
  have "nd_next k \<noteq> Null" using k(3) by (rule aheadE) simp
  then have "a \<noteq> w" "a \<noteq> b" using k(1,2) w c(3) by auto
  with Onward k ahead_relink [OF k(3) c w] show ?thesis by (simp add: will_find_def)
qed (use f in \<open>simp_all add: will_find_def\<close>)

text \<open>Setting fields of the new node does not touch the list as it was.\<close>

lemma new_node_apart:
  assumes g: "growing as l b q h pc" and f: "will_find P i as q (if_nodes h) fpc d" and pc: "pc' = Added \<or> pc' = Clear b"
  shows "growing as l b q (set_node b n h) pc' \<and> will_find P i as q (if_nodes (set_node b n h)) fpc d"
proof -
  have same: "\<forall>a \<in> set as. if_nodes (set_node b n h) a = if_nodes h a" using g by (auto simp: growing_def set_node_def)
  have "chain (if_nodes (set_node b n h)) (if_first (set_node b n h)) as l q"
    by (rule chain_elsewhere [OF _ same]) (use g in \<open>simp add: growing_def set_node_def\<close>)
  then have "growing as l b q (set_node b n h) pc'" using g pc by (auto simp: growing_def set_node_def)
  with will_find_elsewhere [OF f same] show ?thesis by blast
qed

lemma add_keeps:
  assumes g: "growing as l b q h pc" and f: "will_find P i as q (if_nodes h) fpc d" and e: "malloc_ok e sizeof_sr_if"
  shows "\<exists>h' pc' q'. add_step e junk h pc = Some (h', pc') \<and> growing as l b q' h' pc' \<and>
    will_find P i as q' (if_nodes h') fpc d"
proof (cases pc)
  case (Add name)
  obtain a as' where "as = a # as'" using g by (cases as) (auto simp: growing_def)
  with g f Add show ?thesis by (auto simp: growing_def add_step_def)
next
  case (Seek name w)
  then have c: "chain (if_nodes h) (if_first h) as l Null" "distinct as" "b \<notin> set as" "w \<in> set as" "if_fresh h = b"
      "q = Null" "as \<noteq> []"
    using g by (auto simp: growing_def)
  obtain n where n: "if_nodes h w = Some n" "nd_next n = Null \<or> (\<exists>a' \<in> set as. nd_next n = Ptr a')"
    using chain_member [OF c(1,4)] by auto
  from n(2) show ?thesis
  proof
    assume z: "nd_next n = Null"
    let ?m = "(if_nodes h)(w := Some (n\<lparr>nd_next := Ptr b\<rparr>), b := Some \<lparr>nd_if = junk, nd_next = Wild\<rparr>)"
    have "b \<noteq> w" using c(3,4) by auto
    then have "add_step e junk h pc = Some (h\<lparr>if_nodes := ?m, if_fresh := Suc b\<rparr>, Copy name b)"
      using Seek n(1) z e c(5) by (simp add: add_step_def new_node_def set_node_def fun_upd_twist)
    moreover have "chain ?m (if_first h) as l (Ptr b)"
      by (rule chain_relink [OF c(1,2,4) n(1) z refl c(3)])
    moreover have "will_find P i as (Ptr b) ?m fpc d"
      by (rule will_find_relink [OF _ c(1-4) n(1) z]) (use f c(6) in simp)
    ultimately show ?thesis using c by (intro exI) (auto simp: growing_def)
  next
    assume "\<exists>a' \<in> set as. nd_next n = Ptr a'"
    with Seek n(1) c f show ?thesis by (auto simp: growing_def add_step_def)
  qed
next
  case (Copy name a)
  then obtain n where "a = b" "if_nodes h b = Some n" using g by (auto simp: growing_def)
  with Copy new_node_apart [OF g f, of "Clear b"] show ?thesis by (simp add: add_step_def) blast
next
  case (Clear a)
  then obtain n where "a = b" "if_nodes h b = Some n" using g by (auto simp: growing_def)
  with Clear new_node_apart [OF g f, of Added] show ?thesis by (simp add: add_step_def) blast
next
  case Added
  with g f show ?thesis by (auto simp: add_step_def)
qed (use g in \<open>auto simp: growing_def\<close>)

lemma both_keep:
  assumes "growing as l b q (ith_heap s) (ith_add s)" and "will_find P i as q (if_nodes (ith_heap s)) (ith_find s) d"
    and "find P l = Some i" and "\<forall>t \<in> set turns. if_turn_ok t"
  shows "\<exists>q' s'. if_schedule P turns s = Some s' \<and> growing as l b q' (ith_heap s') (ith_add s') \<and>
    will_find P i as q' (if_nodes (ith_heap s')) (ith_find s') (d - length (filter ((=) Finds) turns))"
  using assms
proof (induction turns arbitrary: s q d)
  case (Cons t turns)
  show ?case
  proof (cases t)
    case (Adds e junk)
    obtain h' pc' q' where s: "add_step e junk (ith_heap s) (ith_add s) = Some (h', pc')"
      "growing as l b q' h' pc'" "will_find P i as q' (if_nodes h') (ith_find s) d"
      using add_keeps [OF Cons.prems(1,2), of e junk] Cons.prems(4) Adds by auto
    with Cons.IH [of q' "s\<lparr>ith_heap := h', ith_add := pc'\<rparr>" d] Cons.prems(3,4) Adds show ?thesis by auto
  next
    case Finds
    obtain pc where s: "find_step P (ith_heap s) (ith_find s) = Some pc"
      "will_find P i as q (if_nodes (ith_heap s)) pc (d - 1)"
      using find_keeps [OF Cons.prems(1) refl Cons.prems(2,3)] by blast
    with Cons.IH [of q "s\<lparr>ith_find := pc\<rparr>" "d - 1"] Cons.prems(1,3,4) Finds show ?thesis by auto
  qed
qed auto

text \<open>
  A walk that looks for an interface of the list as it was never reaches the new node: it finds
  the interface, whatever the writer does meanwhile, and needs two accesses for each node.
\<close>

lemma known_interface_found:
  assumes h: "holds_list h as l" and i: "find P l = Some i" and ok: "\<forall>t \<in> set turns. if_turn_ok t"
  shows "\<exists>s. if_schedule P turns (extending h name) = Some s \<and>
    (\<forall>x. ith_find s = Result x \<longrightarrow> x = Some i) \<and>
    (2 * length l < length (filter ((=) Finds) turns) \<longrightarrow> ith_find s = Result (Some i))"
proof -
  have c: "chain (if_nodes h) (if_first h) as l Null" and as: "distinct as" "\<forall>a \<in> set as. a < if_fresh h"
    using h by (auto simp: holds_list_def)
  have "as \<noteq> []" using c i by auto
  then have "growing as l (if_fresh h) Null (ith_heap (extending h name)) (ith_add (extending h name))"
    using c as by (auto simp: growing_def extending_def)
  moreover have "will_find P i as Null (if_nodes (ith_heap (extending h name))) (ith_find (extending h name))
      (Suc (2 * length as))"
    by (simp add: will_find_def extending_def)
  ultimately obtain q s where s: "if_schedule P turns (extending h name) = Some s"
    "will_find P i as q (if_nodes (ith_heap s)) (ith_find s) (Suc (2 * length as) - length (filter ((=) Finds) turns))"
    using both_keep [OF _ _ i ok] by blast
  have "\<forall>x. ith_find s = Result x \<longrightarrow> x = Some i" using s(2) by (auto simp: will_find_def)
  moreover have "ith_find s = Result (Some i)" if "2 * length l < length (filter ((=) Finds) turns)"
  proof -
    have "will_find P i as q (if_nodes (ith_heap s)) (ith_find s) 0"
      using s(2) that chain_length [OF c] by simp
    then show ?thesis by (cases "ith_find s") (auto simp: will_find_def elim!: aheadE)
  qed
  ultimately show ?thesis using s(1) by blast
qed

section \<open>Looking for one it does not have\<close>

text \<open>
  A walk that finds nothing in the list reaches the new node if it is linked, and follows its
  pointer; \<^verbatim>\<open>sr_add_interface\<close> sets that pointer last.
\<close>

lemma walk_to_end:
  assumes "chain (if_nodes h) p as l q" and "find P l = None"
  shows "if_schedule P (replicate (2 * length l) Finds) \<lparr>ith_heap = h, ith_add = pc, ith_find = At p\<rparr> =
    Some \<lparr>ith_heap = h, ith_add = pc, ith_find = At q\<rparr>"
  using assms by (induction as arbitrary: p l) (auto split: if_splits)

lemma unknown_interface_faults:
  assumes e: "malloc_ok e sizeof_sr_if" and h: "holds_list h as l" and none: "find P l = None" "\<not> P junk"
  shows "if_schedule P (replicate (Suc (length l)) (Adds e junk) @ replicate (2 * length l + 4) Finds)
    (extending h name) = None"
proof -
  let ?b = "if_fresh h"
  obtain h' pc where s: "if_schedule P (replicate (Suc (length l)) (Adds e junk)) (extending h name) =
      Some \<lparr>ith_heap = h', ith_add = pc, ith_find = Begin\<rparr>"
    and c: "chain (if_nodes h') (if_first h') as l (Ptr ?b)"
    and n: "if_nodes h' ?b = Some \<lparr>nd_if = junk, nd_next = Wild\<rparr>"
    unfolding extending_def by (rule link_in_steps [OF e h])
  have r: "replicate (2 * length l + 4) Finds = Finds # replicate (2 * length l) Finds @ replicate 3 Finds"
    using replicate_add [of "2 * length l" 3 Finds] by (simp add: numeral_eq_Suc replicate_append_same)
  have "if_schedule P (replicate 3 Finds) \<lparr>ith_heap = h', ith_add = pc, ith_find = At (Ptr ?b)\<rparr> = None"
    using n none(2) by (simp add: numeral_eq_Suc)
  with s walk_to_end [OF c none(1), of pc] show ?thesis
    unfolding r by (simp add: if_schedule_append del: replicate.simps)
qed

end
