(* ===== verification/Printing.thy ===== *)
theory Printing
  imports Rt_File Vns_Comm Utils
begin

text \<open>
  The functions that print, as the text they write: addresses and headers of
  \<^verbatim>\<open>src/sr_utils.c\<close>, the routing table of \<^verbatim>\<open>src/sr_rt.c\<close> and the
  ARP table of \<^verbatim>\<open>src/sr_arpcache.c\<close>, and what \<^verbatim>\<open>sr_handle_hwinfo\<close> prints. The header printers read their buffer, so they can fault.
\<close>

section \<open>Addresses\<close>

definition print_addr_eth :: "mac \<Rightarrow> string" where
  "print_addr_eth addr =
     separated '':'' (map (\<lambda>cur. padded 2 (show_hex upper (unat cur))) (mac_bytes addr)) @ [newline]"

text \<open>\<^verbatim>\<open>inet_ntop\<close> writes what \<^verbatim>\<open>inet_ntoa\<close> does; 16 bytes are enough for it.\<close>

definition print_addr_ip :: "u32 \<Rightarrow> string" where
  "print_addr_ip address = inet_ntoa address @ [newline]"

definition print_addr_ip_int :: "u32 \<Rightarrow> string" where
  "print_addr_ip_int ip =
     show_word (drop_bit 24 ip) @ ''.'' @
     show_word (drop_bit 24 (push_bit 8 ip)) @ ''.'' @
     show_word (drop_bit 24 (push_bit 16 ip)) @ ''.'' @
     show_word (drop_bit 24 (push_bit 24 ip)) @ [newline]"

section \<open>Headers\<close>

definition field :: "string \<Rightarrow> string \<Rightarrow> string" where
  "field label s = [tab] @ label @ '': '' @ s @ [newline]"

definition IP_RF :: u16 where "IP_RF = 0x8000"
definition IP_DF :: u16 where "IP_DF = 0x4000"
definition IP_MF :: u16 where "IP_MF = 0x2000"
definition IP_OFFMASK :: u16 where "IP_OFFMASK = 0x1fff"

definition print_hdr_eth :: "u8 list \<Rightarrow> nat \<Rightarrow> string option" where
  "print_hdr_eth buf off =
     do { ehdr \<leftarrow> ld_eth buf off;
          Some (''ETHERNET header:'' @ [newline] @
            [tab] @ ''destination: '' @ print_addr_eth (ether_dhost ehdr) @
            [tab] @ ''source: '' @ print_addr_eth (ether_shost ehdr) @
            field ''type'' (show_word (ntohs (ether_type ehdr)))) }"

definition fragment_flag :: "u16 \<Rightarrow> string" where
  "fragment_flag off =
     (if off AND IP_DF \<noteq> 0 then field ''fragment flag'' ''DF''
      else if off AND IP_MF \<noteq> 0 then field ''fragment flag'' ''MF''
      else if off AND IP_RF \<noteq> 0 then field ''fragment flag'' ''R''
      else [])"

definition print_hdr_ip :: "u8 list \<Rightarrow> nat \<Rightarrow> string option" where
  "print_hdr_ip buf off =
     do { iphdr \<leftarrow> ld_ip buf off;
          Some (''IP header:'' @ [newline] @
            field ''version'' (show_word (ip_v iphdr)) @
            field ''header length'' (show_word (ip_hl iphdr)) @
            field ''type of service'' (show_word (ip_tos iphdr)) @
            field ''length'' (show_word (ntohs (ip_len iphdr))) @
            field ''id'' (show_word (ntohs (ip_id iphdr))) @
            fragment_flag (ntohs (ip_off iphdr)) @
            field ''fragment offset'' (show_word (ntohs (ip_off iphdr) AND IP_OFFMASK)) @
            field ''TTL'' (show_word (ip_ttl iphdr)) @
            field ''protocol'' (show_word (ip_p iphdr)) @
            field ''checksum'' (show_word (ip_sum iphdr)) @
            [tab] @ ''source: '' @ print_addr_ip_int (ntohl (ip_src iphdr)) @
            [tab] @ ''destination: '' @ print_addr_ip_int (ntohl (ip_dst iphdr))) }"

text \<open>The first four bytes are common to all ICMP headers; the other fields of an echo are read beyond.\<close>

definition print_hdr_icmp :: "u8 list \<Rightarrow> nat \<Rightarrow> string option" where
  "print_hdr_icmp buf off =
     do { b \<leftarrow> load buf off 4;
          if b ! 0 = 0 \<or> b ! 0 = 8 then
            do { icmp_t08_hdr \<leftarrow> ld_icmp08 buf off;
                 Some (''ICMP Echo header:'' @ [newline] @
                   field ''type'' (show_word (icmp08_type icmp_t08_hdr)) @
                   field ''code'' (show_word (icmp08_code icmp_t08_hdr)) @
                   field ''checksum'' (show_word (icmp08_sum icmp_t08_hdr)) @
                   field ''identifier'' (show_word (icmp08_id icmp_t08_hdr)) @
                   field ''sequence number'' (show_word (icmp08_seq icmp_t08_hdr))) }
          else
            Some (''ICMP header:'' @ [newline] @
              field ''type'' (show_word (b ! 0)) @
              field ''code'' (show_word (b ! 1)) @
              field ''checksum'' (show_word (le16 (b ! 2) (b ! 3)))) }"

definition print_hdr_arp :: "u8 list \<Rightarrow> nat \<Rightarrow> string option" where
  "print_hdr_arp buf off =
     do { arp_hdr \<leftarrow> ld_arp buf off;
          Some (''ARP header'' @ [newline] @
            field ''hardware type'' (show_word (ntohs (ar_hrd arp_hdr))) @
            field ''protocol type'' (show_word (ntohs (ar_pro arp_hdr))) @
            field ''hardware address length'' (show_word (ar_hln arp_hdr)) @
            field ''protocol address length'' (show_word (ar_pln arp_hdr)) @
            field ''opcode'' (show_word (ntohs (ar_op arp_hdr))) @
            [tab] @ ''sender hardware address: '' @ print_addr_eth (ar_sha arp_hdr) @
            [tab] @ ''sender ip address: '' @ print_addr_ip_int (ntohl (ar_sip arp_hdr)) @
            [tab] @ ''target hardware address: '' @ print_addr_eth (ar_tha arp_hdr) @
            [tab] @ ''target ip address: '' @ print_addr_ip_int (ntohl (ar_tip arp_hdr))) }"

definition too_short :: "string \<Rightarrow> string" where
  "too_short what = ''Failed to print '' @ what @ '' header, insufficient length'' @ [newline]"

definition print_hdrs :: "u8 list \<Rightarrow> nat \<Rightarrow> string option" where
  "print_hdrs buf len =
     (if len < 14 then Some (too_short ''ETHERNET'')
      else do {
        ethtype \<leftarrow> ethertype buf;
        eth \<leftarrow> print_hdr_eth buf 0;
        if ethtype = ethertype_ip then
          if len < 14 + 20 then Some (eth @ too_short ''IP'')
          else do {
            ip \<leftarrow> print_hdr_ip buf 14;
            ip_proto \<leftarrow> ip_protocol (drop 14 buf);
            if ip_proto = ip_protocol_icmp then
              if len < 14 + 20 + 4 then Some (eth @ ip @ too_short ''ICMP'')
              else do { icmp \<leftarrow> print_hdr_icmp buf (14 + 20); Some (eth @ ip @ icmp) }
            else Some (eth @ ip) }
        else if ethtype = ethertype_arp then
          if len < 14 + 28 then Some (eth @ too_short ''ARP'')
          else do { arp \<leftarrow> print_hdr_arp buf 14; Some (eth @ arp) }
        else Some (eth @ ''Unrecognized Ethernet Type: '' @ show_word ethtype @ [newline]) })"

section \<open>Tables\<close>

text \<open>
  \<^verbatim>\<open>sr_handle_hwinfo\<close> prints the numbers of the entries it does not know, \<^verbatim>\<open>HWINUSE\<close> among them,
  and then the interfaces.
\<close>

definition show_int :: "int \<Rightarrow> string" where
  "show_int n = (if n < 0 then ''-'' @ show_nat (nat (- n)) else show_nat (nat n))"

definition hw_entry_text :: "u32 \<Rightarrow> string" where
  "hw_entry_text key =
     (if key = HWFIXEDIP then [] else if key = HWINTERFACE then [] else if key = HWSPEED then []
      else if key = HWSUBNET then [] else if key = HWMASK then [] else if key = HWETHIP then []
      else if key = HWETHER then []
      else '' '' @ show_int (sint key) @ '' '' @ [newline])"

fun hwinfo_text :: "u8 list \<Rightarrow> nat \<Rightarrow> nat \<Rightarrow> string option" where
  "hwinfo_text hwinfo i 0 = Some []"
| "hwinfo_text hwinfo i (Suc n) =
     do { key \<leftarrow> ld_u32 hwinfo (8 + sizeof_c_hw_entry * i);
          rest \<leftarrow> hwinfo_text hwinfo (i + 1) n;
          Some (hw_entry_text (ntohl key) @ rest) }"

definition handle_hwinfo_text :: "os \<Rightarrow> sr_instance \<Rightarrow> u8 list \<Rightarrow> string option" where
  "handle_hwinfo_text v sr hwinfo =
     do { (num_entries, sr) \<leftarrow> sr_handle_hwinfo v sr hwinfo;
          entries \<leftarrow> hwinfo_text hwinfo 0 (nat num_entries);
          interfaces \<leftarrow> sr_print_if_list sr;
          Some (entries @ ''Router interfaces:'' @ [newline] @ interfaces) }"

definition sr_print_routing_table :: "sr_instance \<Rightarrow> string" where
  "sr_print_routing_table sr =
     (if routing_table sr = [] then '' *warning* Routing table empty '' @ [newline]
      else ''Destination'' @ [tab] @ ''Gateway'' @ [tab, tab] @ ''Mask'' @ [tab] @ ''Iface'' @ [newline] @
        concat (map sr_print_routing_entry (routing_table sr)))"

text \<open>\<^verbatim>\<open>ctime\<close> depends on the time zone of the machine.\<close>

definition dump_entry :: "(time \<Rightarrow> string) \<Rightarrow> sr_arpentry \<Rightarrow> string" where
  "dump_entry ctime cur =
     concat (map (\<lambda>b. show_hex lower (unat b)) (mac_bytes (ent_mac cur))) @ ''   '' @
     padded 8 (show_hex lower (unat (ntohl (ent_ip cur)))) @ ''   '' @
     take 24 (ctime (ent_added cur)) @ ''   '' @ (if ent_valid cur then ''1'' else ''0'') @ [newline]"

definition sr_arpcache_dump :: "(time \<Rightarrow> string) \<Rightarrow> sr_arpcache \<Rightarrow> string" where
  "sr_arpcache_dump ctime c =
     [newline] @ ''MAC            IP         ADDED                      VALID'' @ [newline] @
     ''-----------------------------------------------------------'' @ [newline] @
     concat (map (dump_entry ctime) (entries c)) @ [newline]"

section \<open>What the texts say\<close>

text \<open>The two ways to print an IP address agree, and the text fits the 16 bytes there are for it.\<close>

lemma octets:
  "unat (drop_bit 24 (x :: u32)) = unat (ucast (drop_bit 24 x) :: u8)"
  "unat (drop_bit 24 (push_bit 8 (x :: u32))) = unat (ucast (drop_bit 16 x) :: u8)"
  "unat (drop_bit 24 (push_bit 16 (x :: u32))) = unat (ucast (drop_bit 8 x) :: u8)"
  "unat (drop_bit 24 (push_bit 24 (x :: u32))) = unat (ucast x :: u8)"
proof -
  have eq: "unat y = unat (z :: u8)" if "y = (ucast z :: u32)" for y z
  proof -
    have "unat z < 2 ^ 32" using unsigned_less [of z, where ?'a = nat] by simp
    then show ?thesis using that by (simp add: unsigned_ucast_eq take_bit_nat_eq_self)
  qed
  show "unat (drop_bit 24 x) = unat (ucast (drop_bit 24 x) :: u8)"
    by (rule eq) (auto simp: bit_eq_iff bit_simps dest: bit_imp_le_length)
  show "unat (drop_bit 24 (push_bit 8 x)) = unat (ucast (drop_bit 16 x) :: u8)"
    by (rule eq) (auto simp: bit_eq_iff bit_simps)
  show "unat (drop_bit 24 (push_bit 16 x)) = unat (ucast (drop_bit 8 x) :: u8)"
    by (rule eq) (auto simp: bit_eq_iff bit_simps)
  show "unat (drop_bit 24 (push_bit 24 x)) = unat (ucast x :: u8)"
    by (rule eq) (auto simp: bit_eq_iff bit_simps)
qed

lemma htonl_bytes:
  "(ucast (drop_bit 24 (htonl x)) :: u8) = ucast x"
  "(ucast (drop_bit 16 (htonl x)) :: u8) = ucast (drop_bit 8 x)"
  "(ucast (drop_bit 8 (htonl x)) :: u8) = ucast (drop_bit 16 x)"
  "(ucast (htonl x) :: u8) = ucast (drop_bit 24 x)"
  by (auto simp: htonl_def le32_def bit_eq_iff bit_simps)

lemma print_addr_ip_int_eq: "print_addr_ip_int (ntohl a) = print_addr_ip a"
  unfolding print_addr_ip_int_def octets(2-4) octets(1) [of "ntohl a"] htonl_bytes
  by (simp add: print_addr_ip_def inet_ntoa_def bytes32_def Let_def)

lemma length_inet_ntoa: "length (inet_ntoa a) < 16"
proof -
  have "length (show_nat (unat (b :: u8))) \<le> 3" for b
    using length_show_nat [of "unat b" 3] unsigned_less [of b, where ?'a = nat] by simp
  from this [of "ucast a"] this [of "ucast (drop_bit 8 a)"] this [of "ucast (drop_bit 16 a)"]
    this [of "ucast (drop_bit 24 a)"]
  show ?thesis by (simp add: inet_ntoa_def bytes32_def Let_def)
qed

text \<open>
  \<^verbatim>\<open>print_hdrs\<close> checks the lengths before it reads, but for an echo it asks for four bytes of ICMP
  header and reads eight: it reads beyond the buffer in exactly this case.
\<close>

definition short_echo :: "u8 list \<Rightarrow> bool" where
  "short_echo p \<longleftrightarrow>
     38 \<le> length p \<and> length p < 42 \<and> ethertype p = Some ethertype_ip \<and>
     ip_protocol (drop 14 p) = Some ip_protocol_icmp \<and> (p ! 34 = 0 \<or> p ! 34 = 8)"

lemma ld_Some_iff: "(\<exists>h. ld dec n p off = Some h) \<longleftrightarrow> off + n \<le> length p"
  by (simp add: ld_def load_def)

lemma print_hdr_icmp_fault:
  assumes "38 \<le> length p"
  shows "print_hdr_icmp p 34 = None \<longleftrightarrow> length p < 42 \<and> (p ! 34 = 0 \<or> p ! 34 = 8)"
proof -
  have "load p 34 4 = Some (take 4 (drop 34 p))" using assms by (simp add: load_def)
  moreover have "take 4 (drop 34 p) ! 0 = p ! 34" using assms by simp
  ultimately show ?thesis
    by (auto simp: print_hdr_icmp_def ld_def load_def split: if_splits)
qed

lemma print_hdrs_fault_iff: "print_hdrs p (length p) = None \<longleftrightarrow> short_echo p"
proof (cases "14 \<le> length p")
  case True
  then have eth: "print_hdr_eth p 0 \<noteq> None" "ethertype p \<noteq> None"
    by (simp_all add: print_hdr_eth_def ethertype_def ld_def load_def)
  have ip: "print_hdr_ip p 14 \<noteq> None" "ip_protocol (drop 14 p) \<noteq> None" if "34 \<le> length p"
    using that by (simp_all add: print_hdr_ip_def ip_protocol_def ld_def load_def)
  have arp: "print_hdr_arp p 14 \<noteq> None" if "42 \<le> length p"
    using that by (simp add: print_hdr_arp_def ld_def load_def)
  have "ethertype_arp \<noteq> ethertype_ip" by (simp add: ethertype_arp_def ethertype_ip_def)
  with True eth ip arp print_hdr_icmp_fault [of p] show ?thesis
    by (auto simp: print_hdrs_def short_echo_def not_less bind_eq_None_conv)
next
  case False
  then show ?thesis by (simp add: print_hdrs_def short_echo_def)
qed

text \<open>A hardware address can be read off its text; in the dump of the ARP table it cannot.\<close>

lemma of_char_hex_digit:
  assumes "x < 16" and "a = upper \<or> a = lower"
  shows "(of_char (hex_digit a x) :: nat) = (if x < 10 then 48 + x else a + (x - 10))"
  using assms by (auto simp: hex_digit_def digit_char_def upper_def lower_def)

lemma hex_digit_inj:
  assumes "hex_digit a d = hex_digit a e" and "a = upper \<or> a = lower" and "d < 16" and "e < 16"
  shows "d = e"
proof -
  have "(if d < 10 then 48 + d else a + (d - 10)) = (if e < 10 then 48 + e else a + (e - 10))"
    using of_char_hex_digit [OF assms(3,2)] of_char_hex_digit [OF assms(4,2)] unfolding assms(1) by (rule trans [OF sym])
  moreover have "57 < a" using assms(2) by (auto simp: upper_def lower_def)
  ultimately show ?thesis by (auto split: if_splits)
qed

lemma two_digits:
  assumes "n < 256"
  shows "padded 2 (show_hex a n) = [hex_digit a (n div 16), hex_digit a (n mod 16)]"
proof (cases "n < 16")
  case True
  moreover have "digit_char 0 = CHR ''0''" by code_simp
  then have "hex_digit a 0 = CHR ''0''" by (simp add: hex_digit_def)
  ultimately show ?thesis by (simp add: padded_def show_hex.simps [of a n])
next
  case False
  moreover have "n div 16 < 16" using assms by simp
  ultimately show ?thesis by (simp add: padded_def show_hex.simps [of a n] show_hex.simps [of a "n div 16"])
qed

lemma byte_text_inj:
  assumes "padded 2 (show_hex a (unat b)) = padded 2 (show_hex a (unat (c :: u8)))" and "a = upper \<or> a = lower"
  shows "b = c"
proof -
  have lt: "unat x < 256" for x :: u8 using unsigned_less [of x, where ?'a = nat] by simp
  have "unat b div 16 = unat c div 16" "unat b mod 16 = unat c mod 16"
    using assms(1) hex_digit_inj [OF _ assms(2)] lt [of b] lt [of c] by (auto simp: two_digits)
  then have "unat b = unat c" by (metis div_mult_mod_eq)
  then show ?thesis by (simp only: unsigned_word_eqI)
qed

lemma mac_text_inj:
  assumes a: "a = upper \<or> a = lower"
    and "separated '':'' (map (\<lambda>b. padded 2 (show_hex a (unat b))) (mac_bytes m)) =
      separated '':'' (map (\<lambda>b. padded 2 (show_hex a (unat b))) (mac_bytes m'))"
  shows "m = m'"
proof -
  have lt: "unat x < 256" for x :: u8 using unsigned_less [of x, where ?'a = nat] by simp
  have len: "length (padded 2 (show_hex a (unat x))) = 2" for x :: u8 using two_digits [OF lt] by simp
  show ?thesis
    using assms(2) byte_text_inj [OF _ a] len by (cases m; cases m') simp
qed

lemma print_addr_eth_inj: "print_addr_eth m = print_addr_eth m' \<Longrightarrow> m = m'"
  by (rule mac_text_inj [of upper]) (simp_all add: print_addr_eth_def)

lemma DebugMAC_inj: "DebugMAC m = DebugMAC m' \<Longrightarrow> m = m'"
  by (rule mac_text_inj [of lower]) (simp_all add: DebugMAC_def)

lemma dump_ambiguous:
  "dump_entry ctime \<lparr>ent_mac = MAC 0x1 0x11 0 0 0 0, ent_ip = ip, ent_added = t, ent_valid = v\<rparr> =
   dump_entry ctime \<lparr>ent_mac = MAC 0x11 0x1 0 0 0 0, ent_ip = ip, ent_added = t, ent_valid = v\<rparr>"
  by (simp add: dump_entry_def show_hex.simps)

text \<open>The text of the entries adds no fault to those of \<^verbatim>\<open>sr_handle_hwinfo\<close>.\<close>

lemma hwinfo_text_Some: "hwinfo_loop v buf i n sr = Some sr' \<Longrightarrow> \<exists>s. hwinfo_text buf i n = Some s"
  by (induction n arbitrary: i sr) (auto simp: hw_entry_def bind_eq_Some_conv)

lemma handle_hwinfo_text_Some:
  "handle_hwinfo_text v sr hwinfo = None \<longleftrightarrow> sr_handle_hwinfo v sr hwinfo = None"
proof (cases "sr_handle_hwinfo v sr hwinfo")
  case (Some res)
  obtain n sr' where res: "res = (n, sr')" by (cases res)
  with Some obtain s where "hwinfo_text hwinfo 0 (nat n) = Some s"
    by (auto simp: sr_handle_hwinfo_def Let_def bind_eq_Some_conv dest: hwinfo_text_Some)
  moreover have "sr_print_if_list sr' \<noteq> None"
    using Some res by (auto simp: sr_handle_hwinfo_def Let_def bind_eq_Some_conv)
  ultimately show ?thesis using Some res by (auto simp: handle_hwinfo_text_def)
qed (simp add: handle_hwinfo_text_def)

end
