(* ===== verification/Messages.thy ===== *)
theory Messages
  imports Session Hwinfo
begin

text \<open>
  The messages of \<^verbatim>\<open>src/vnscommand.h\<close> as the packed structures the header declares, with the numbers
  as they stand in memory. \<^verbatim>\<open>src/sr_vns_comm.c\<close> fills and reads them field by field; here it is shown
  that what it sends has the declared layout and that what it reads are the declared fields.
\<close>

section \<open>Layouts with arrays\<close>

text \<open>
  A layout that is faithful for the values whose arrays have their declared size. A structure
  without arrays is the special case where every value does.
\<close>

locale wire_layout =
  fixes enc :: "'a \<Rightarrow> u8 list" and dec :: "u8 list \<Rightarrow> 'a" and sz :: nat and sized :: "'a \<Rightarrow> bool"
  assumes length_enc: "sized h \<Longrightarrow> length (enc h) = sz"
    and dec_enc: "sized h \<Longrightarrow> dec (enc h) = h"
    and sized_dec: "length bs = sz \<Longrightarrow> sized (dec bs)"
    and enc_dec: "length bs = sz \<Longrightarrow> enc (dec bs) = bs"
begin

lemma enc_inj: "sized h \<Longrightarrow> sized h' \<Longrightarrow> enc h = enc h' \<Longrightarrow> h = h'"
  using dec_enc by metis

lemma ld_written: "sized h \<Longrightarrow> ld dec sz (enc h @ rest) 0 = Some h"
  by (simp add: ld_def load_def length_enc dec_enc)

lemma ld_sized: "ld dec sz buf off = Some h \<Longrightarrow> sized h \<and> take sz (drop off buf) = enc h"
  by (auto simp: ld_def load_def sized_dec enc_dec split: if_splits)

end

sublocale wire_struct \<subseteq> layout: wire_layout enc dec sz "\<lambda>_. True"
  by unfold_locales (simp_all add: length_enc dec_enc enc_dec)

definition rd16 :: "u8 list \<Rightarrow> nat \<Rightarrow> u16" where
  "rd16 bs off = (let b = drop off bs in le16 (b ! 0) (b ! 1))"

definition rd32 :: "u8 list \<Rightarrow> nat \<Rightarrow> u32" where
  "rd32 bs off = (let b = drop off bs in le32 (b ! 0) (b ! 1) (b ! 2) (b ! 3))"

definition slice :: "u8 list \<Rightarrow> nat \<Rightarrow> nat \<Rightarrow> u8 list" where
  "slice bs off n = take n (drop off bs)"

section \<open>The structures\<close>

record c_base_t =
  mLen_f :: u32
  mType_f :: u32

record c_open_t = c_base_t +
  topoID :: u16
  open_pad :: u16
  open_mVirtualHostID :: "u8 list"
  mUID :: "u8 list"
  mPass :: "u8 list"

record c_close_t = c_base_t +
  mErrorMessage :: "u8 list"

record c_banner_t = c_base_t +
  mBannerMessage :: "u8 list"

record c_packet_header_t = c_base_t +
  mInterfaceName :: "u8 list"

record c_packet_ethernet_header_t = c_packet_header_t +
  pe_dhost :: mac
  pe_shost :: mac
  pe_type :: u16

record c_hw_entry_t =
  mKey :: u32
  hw_value :: "u8 list"

definition MAXHWENTRIES :: nat where "MAXHWENTRIES = 256"

record c_hwinfo_t = c_base_t +
  mHWInfo :: "c_hw_entry_t list"

record c_src_filter_t =
  filter_ip :: u32
  num_masked_bits :: u8

record c_rtable_t = c_base_t +
  rtable_mVirtualHostID :: "u8 list"

record c_open_template_t = c_base_t +
  templateName :: "u8 list"
  template_mVirtualHostID :: "u8 list"

text \<open>Two messages have no fields but the common ones; the salt of the second follows it.\<close>

type_synonym c_hwrequest_t = c_base_t
type_synonym c_auth_request_t = c_base_t

record c_auth_reply_t = c_base_t +
  usernameLen :: u32

record c_auth_status_t = c_base_t +
  auth_ok :: u8

definition enc_base :: "'a c_base_t_scheme \<Rightarrow> u8 list" where
  "enc_base h = bytes32 (mLen_f h) @ bytes32 (mType_f h)"

definition dec_c_base :: "u8 list \<Rightarrow> c_base_t" where
  "dec_c_base bs = \<lparr>mLen_f = rd32 bs 0, mType_f = rd32 bs 4\<rparr>"

definition enc_c_open :: "c_open_t \<Rightarrow> u8 list" where
  "enc_c_open h =
     enc_base h @ bytes16 (topoID h) @ bytes16 (open_pad h) @ open_mVirtualHostID h @ mUID h @ mPass h"

definition dec_c_open :: "u8 list \<Rightarrow> c_open_t" where
  "dec_c_open bs =
     \<lparr>mLen_f = rd32 bs 0, mType_f = rd32 bs 4, topoID = rd16 bs 8, open_pad = rd16 bs 10,
      open_mVirtualHostID = slice bs 12 32, mUID = slice bs 44 32, mPass = slice bs 76 32\<rparr>"

definition enc_c_close :: "c_close_t \<Rightarrow> u8 list" where
  "enc_c_close h = enc_base h @ mErrorMessage h"

definition dec_c_close :: "u8 list \<Rightarrow> c_close_t" where
  "dec_c_close bs = \<lparr>mLen_f = rd32 bs 0, mType_f = rd32 bs 4, mErrorMessage = slice bs 8 256\<rparr>"

definition enc_c_banner :: "c_banner_t \<Rightarrow> u8 list" where
  "enc_c_banner h = enc_base h @ mBannerMessage h"

definition dec_c_banner :: "u8 list \<Rightarrow> c_banner_t" where
  "dec_c_banner bs = \<lparr>mLen_f = rd32 bs 0, mType_f = rd32 bs 4, mBannerMessage = slice bs 8 256\<rparr>"

definition enc_c_packet_header :: "c_packet_header_t \<Rightarrow> u8 list" where
  "enc_c_packet_header h = enc_base h @ mInterfaceName h"

definition dec_c_packet_header :: "u8 list \<Rightarrow> c_packet_header_t" where
  "dec_c_packet_header bs = \<lparr>mLen_f = rd32 bs 0, mType_f = rd32 bs 4, mInterfaceName = slice bs 8 16\<rparr>"

definition enc_c_packet_ethernet_header :: "c_packet_ethernet_header_t \<Rightarrow> u8 list" where
  "enc_c_packet_ethernet_header h =
     enc_base h @ mInterfaceName h @ mac_bytes (pe_dhost h) @ mac_bytes (pe_shost h) @ bytes16 (pe_type h)"

definition dec_c_packet_ethernet_header :: "u8 list \<Rightarrow> c_packet_ethernet_header_t" where
  "dec_c_packet_ethernet_header bs =
     \<lparr>mLen_f = rd32 bs 0, mType_f = rd32 bs 4, mInterfaceName = slice bs 8 16,
      pe_dhost = bytes_mac (slice bs 24 6), pe_shost = bytes_mac (slice bs 30 6), pe_type = rd16 bs 36\<rparr>"

definition enc_c_hw_entry :: "c_hw_entry_t \<Rightarrow> u8 list" where
  "enc_c_hw_entry h = bytes32 (mKey h) @ hw_value h"

definition dec_c_hw_entry :: "u8 list \<Rightarrow> c_hw_entry_t" where
  "dec_c_hw_entry bs = \<lparr>mKey = rd32 bs 0, hw_value = slice bs 4 32\<rparr>"

definition enc_c_hwinfo :: "c_hwinfo_t \<Rightarrow> u8 list" where
  "enc_c_hwinfo h = enc_base h @ concat (map enc_c_hw_entry (mHWInfo h))"

definition dec_c_hwinfo :: "u8 list \<Rightarrow> c_hwinfo_t" where
  "dec_c_hwinfo bs =
     \<lparr>mLen_f = rd32 bs 0, mType_f = rd32 bs 4,
      mHWInfo = map (\<lambda>i. dec_c_hw_entry (slice bs (8 + 36 * i) 36)) [0..<MAXHWENTRIES]\<rparr>"

definition enc_c_src_filter :: "c_src_filter_t \<Rightarrow> u8 list" where
  "enc_c_src_filter h = bytes32 (filter_ip h) @ [num_masked_bits h]"

definition dec_c_src_filter :: "u8 list \<Rightarrow> c_src_filter_t" where
  "dec_c_src_filter bs = \<lparr>filter_ip = rd32 bs 0, num_masked_bits = hd (slice bs 4 1)\<rparr>"

definition enc_c_rtable :: "c_rtable_t \<Rightarrow> u8 list" where
  "enc_c_rtable h = enc_base h @ rtable_mVirtualHostID h"

definition dec_c_rtable :: "u8 list \<Rightarrow> c_rtable_t" where
  "dec_c_rtable bs = \<lparr>mLen_f = rd32 bs 0, mType_f = rd32 bs 4, rtable_mVirtualHostID = slice bs 8 32\<rparr>"

definition enc_c_open_template :: "c_open_template_t \<Rightarrow> u8 list" where
  "enc_c_open_template h = enc_base h @ templateName h @ template_mVirtualHostID h"

definition dec_c_open_template :: "u8 list \<Rightarrow> c_open_template_t" where
  "dec_c_open_template bs =
     \<lparr>mLen_f = rd32 bs 0, mType_f = rd32 bs 4, templateName = slice bs 8 30,
      template_mVirtualHostID = slice bs 38 32\<rparr>"

definition enc_c_auth_reply :: "c_auth_reply_t \<Rightarrow> u8 list" where
  "enc_c_auth_reply h = enc_base h @ bytes32 (usernameLen h)"

definition dec_c_auth_reply :: "u8 list \<Rightarrow> c_auth_reply_t" where
  "dec_c_auth_reply bs = \<lparr>mLen_f = rd32 bs 0, mType_f = rd32 bs 4, usernameLen = rd32 bs 8\<rparr>"

definition enc_c_auth_status :: "c_auth_status_t \<Rightarrow> u8 list" where
  "enc_c_auth_status h = enc_base h @ [auth_ok h]"

definition dec_c_auth_status :: "u8 list \<Rightarrow> c_auth_status_t" where
  "dec_c_auth_status bs = \<lparr>mLen_f = rd32 bs 0, mType_f = rd32 bs 4, auth_ok = hd (slice bs 8 1)\<rparr>"

section \<open>The layouts are faithful\<close>

lemma rd_written [simp]:
  "rd16 (bytes16 x @ r) 0 = x" "rd32 (bytes32 y @ r) 0 = y" "rd32 (bytes32 y) 0 = y" "rd16 (bytes16 x) 0 = x"
  by (simp_all add: rd16_def rd32_def bytes16_def bytes32_def wire)

lemma rd_append [simp]:
  "length xs \<le> off \<Longrightarrow> rd16 (xs @ ys) off = rd16 ys (off - length xs)"
  "length xs \<le> off \<Longrightarrow> rd32 (xs @ ys) off = rd32 ys (off - length xs)"
  by (simp_all add: rd16_def rd32_def)

lemma written_rd [simp]:
  assumes "off + 2 \<le> length bs"
  shows "bytes16 (rd16 bs off) = slice bs off 2"
proof -
  have "Suc (Suc 0) \<le> length (drop off bs)" using assms by simp
  then obtain a b r where "drop off bs = a # b # r" unfolding Suc_le_length_iff by auto
  then show ?thesis by (simp add: rd16_def slice_def bytes16_def wire)
qed

lemma written_rd32 [simp]:
  assumes "off + 4 \<le> length bs"
  shows "bytes32 (rd32 bs off) = slice bs off 4"
proof -
  have "Suc (Suc (Suc (Suc 0))) \<le> length (drop off bs)" using assms by simp
  then obtain a b c d r where "drop off bs = a # b # c # d # r" unfolding Suc_le_length_iff by auto
  then show ?thesis by (simp add: rd32_def slice_def bytes32_def wire)
qed

lemma slice_join [simp]:
  "n = m + a \<Longrightarrow> slice bs m a @ slice bs n b = slice bs m (a + b)"
  by (simp add: slice_def take_add add.commute)

lemma slice_whole [simp]: "length bs \<le> n \<Longrightarrow> slice bs 0 n = bs"
  by (simp add: slice_def)

lemma length_slice [simp]: "off + n \<le> length bs \<Longrightarrow> length (slice bs off n) = n"
  by (simp add: slice_def)

lemma slice_append [simp]:
  "length xs = n \<Longrightarrow> slice (xs @ ys) 0 n = xs"
  "length xs \<le> off \<Longrightarrow> slice (xs @ ys) off n = slice ys (off - length xs) n"
  by (simp_all add: slice_def)


lemma one_byte [simp]: "off < length bs \<Longrightarrow> [hd (slice bs off (Suc 0))] = slice bs off (Suc 0)"
  by (cases "drop off bs") (auto simp: slice_def)

lemma mac_slice: "off + 6 \<le> length bs \<Longrightarrow> mac_bytes (bytes_mac (slice bs off 6)) = slice bs off 6"
proof -
  assume "off + 6 \<le> length bs"
  then have "length (slice bs off 6) = 6" by simp
  then show ?thesis by (auto simp: numeral_eq_Suc length_Suc_conv bytes_mac_def)
qed

lemma length_enc_base [simp]: "length (enc_base h) = 8"
  by (simp add: enc_base_def)

lemma rd_enc_base [simp]: "rd32 (enc_base h @ r) 0 = mLen_f h" "rd32 (enc_base h @ r) 4 = mType_f h"
  by (simp_all add: enc_base_def)

interpretation l_open: wire_layout enc_c_open dec_c_open 108 "\<lambda>h. length (open_mVirtualHostID h) = 32 \<and> length (mUID h) = 32 \<and> length (mPass h) = 32"
  by unfold_locales (simp_all add: enc_c_open_def dec_c_open_def, simp_all add: enc_base_def)

interpretation l_close: wire_layout enc_c_close dec_c_close 264 "\<lambda>h. length (mErrorMessage h) = 256"
  by unfold_locales (simp_all add: enc_c_close_def dec_c_close_def, simp_all add: enc_base_def)

interpretation l_banner: wire_layout enc_c_banner dec_c_banner 264 "\<lambda>h. length (mBannerMessage h) = 256"
  by unfold_locales (simp_all add: enc_c_banner_def dec_c_banner_def, simp_all add: enc_base_def)

interpretation l_packet: wire_layout enc_c_packet_header dec_c_packet_header 24 "\<lambda>h. length (mInterfaceName h) = 16"
  by unfold_locales (simp_all add: enc_c_packet_header_def dec_c_packet_header_def, simp_all add: enc_base_def)

interpretation l_rtable: wire_layout enc_c_rtable dec_c_rtable 40 "\<lambda>h. length (rtable_mVirtualHostID h) = 32"
  by unfold_locales (simp_all add: enc_c_rtable_def dec_c_rtable_def, simp_all add: enc_base_def)

interpretation l_template: wire_layout enc_c_open_template dec_c_open_template 70 "\<lambda>h. length (templateName h) = 30 \<and> length (template_mVirtualHostID h) = 32"
  by unfold_locales (simp_all add: enc_c_open_template_def dec_c_open_template_def, simp_all add: enc_base_def)

interpretation l_packet_ethernet: wire_layout enc_c_packet_ethernet_header dec_c_packet_ethernet_header 38
  "\<lambda>h. length (mInterfaceName h) = 16"
  by unfold_locales
    (simp_all add: enc_c_packet_ethernet_header_def dec_c_packet_ethernet_header_def bytes_mac_bytes mac_slice,
     simp_all add: enc_base_def)

interpretation l_src_filter: wire_struct enc_c_src_filter dec_c_src_filter 5
  by unfold_locales (simp_all add: enc_c_src_filter_def dec_c_src_filter_def)

interpretation l_hw_entry: wire_layout enc_c_hw_entry dec_c_hw_entry 36 "\<lambda>h. length (hw_value h) = 32"
  by unfold_locales (simp_all add: enc_c_hw_entry_def dec_c_hw_entry_def)

text \<open>The hardware information as declared has room for \<^verbatim>\<open>MAXHWENTRIES\<close> entries.\<close>

lemma slice_entries:
  assumes "\<forall>e \<in> set es. length (hw_value e) = 32" and "i < length es"
  shows "slice (concat (map enc_c_hw_entry es)) (36 * i) 36 = enc_c_hw_entry (es ! i)"
  using assms
proof (induction es arbitrary: i)
  case (Cons e es)
  have len: "length (enc_c_hw_entry e) = 36" using Cons.prems(1) by (intro l_hw_entry.length_enc) simp
  show ?case
  proof (cases i)
    case 0
    with len show ?thesis by simp
  next
    case (Suc j)
    with Cons len show ?thesis by simp
  qed
qed simp

lemma entries_slice: "concat (map (\<lambda>i. slice bs (36 * i) 36) [0..<n]) = slice bs 0 (36 * n)"
  by (induction n) (simp_all add: add.commute, simp add: slice_def)

interpretation l_hwinfo: wire_layout enc_c_hwinfo dec_c_hwinfo "8 + 36 * MAXHWENTRIES"
  "\<lambda>h. length (mHWInfo h) = MAXHWENTRIES \<and> (\<forall>e \<in> set (mHWInfo h). length (hw_value e) = 32)"
proof
  fix h :: c_hwinfo_t
  assume s: "length (mHWInfo h) = MAXHWENTRIES \<and> (\<forall>e \<in> set (mHWInfo h). length (hw_value e) = 32)"
  have "length (concat (map enc_c_hw_entry es)) = 36 * length es" if "\<forall>e \<in> set es. length (hw_value e) = 32" for es
    using that by (induction es) (simp_all add: l_hw_entry.length_enc)
  with s show "length (enc_c_hwinfo h) = 8 + 36 * MAXHWENTRIES" by (simp add: enc_c_hwinfo_def)
  have "map (\<lambda>i. dec_c_hw_entry (slice (enc_c_hwinfo h) (8 + 36 * i) 36)) [0..<MAXHWENTRIES] = mHWInfo h"
    using s by (intro nth_equalityI) (simp_all add: enc_c_hwinfo_def slice_entries l_hw_entry.dec_enc)
  then show "dec_c_hwinfo (enc_c_hwinfo h) = h"
    by (simp add: dec_c_hwinfo_def) (simp add: enc_c_hwinfo_def)
next
  fix bs :: "u8 list"
  assume len: "length bs = 8 + 36 * MAXHWENTRIES"
  have at: "length (slice bs (8 + 36 * i) 36) = 36" if "i < MAXHWENTRIES" for i
    using that len by (simp add: slice_def)
  have "\<forall>e \<in> set (mHWInfo (dec_c_hwinfo bs)). length (hw_value e) = 32"
    using l_hw_entry.sized_dec [OF at] by (auto simp: dec_c_hwinfo_def)
  then show "length (mHWInfo (dec_c_hwinfo bs)) = MAXHWENTRIES \<and>
      (\<forall>e \<in> set (mHWInfo (dec_c_hwinfo bs)). length (hw_value e) = 32)"
    by (simp add: dec_c_hwinfo_def)
  have "map enc_c_hw_entry (mHWInfo (dec_c_hwinfo bs)) = map (\<lambda>i. slice (drop 8 bs) (36 * i) 36) [0..<MAXHWENTRIES]"
    using l_hw_entry.enc_dec [OF at] by (auto simp: dec_c_hwinfo_def slice_def add.commute)
  then have "concat (map enc_c_hw_entry (mHWInfo (dec_c_hwinfo bs))) = drop 8 bs"
    using len by (simp only: entries_slice) simp
  moreover have "enc_base (dec_c_hwinfo bs) = take 8 bs"
    using len by (simp add: dec_c_hwinfo_def enc_base_def) (simp add: slice_def)
  ultimately show "enc_c_hwinfo (dec_c_hwinfo bs) = bs" by (simp add: enc_c_hwinfo_def)
qed

interpretation l_base: wire_struct enc_base dec_c_base 8
  by unfold_locales (simp_all add: dec_c_base_def enc_base_def)

interpretation l_auth_reply: wire_struct enc_c_auth_reply dec_c_auth_reply 12
  by unfold_locales (simp_all add: enc_c_auth_reply_def dec_c_auth_reply_def, simp_all add: enc_base_def)

interpretation l_auth_status: wire_struct enc_c_auth_status dec_c_auth_status 9
  by unfold_locales (simp_all add: enc_c_auth_status_def dec_c_auth_status_def, simp_all add: enc_base_def)

section \<open>What the code sends has the declared layout\<close>

lemma c_open_layout:
  "c_open sr = enc_c_open
     \<lparr>mLen_f = htonl 108, mType_f = htonl VNSOPEN, topoID = htons (topo_id sr), open_pad = 0,
      open_mVirtualHostID = strncpy_field IDSIZE (host sr), mUID = strncpy_field IDSIZE (user sr),
      mPass = replicate IDSIZE 0\<rparr>"
  by (simp add: c_open_def enc_c_open_def enc_base_def)

lemma c_open_template_layout:
  "c_open_template sr = enc_c_open_template
     \<lparr>mLen_f = htonl 70, mType_f = htonl VNS_OPEN_TEMPLATE,
      templateName = strncpy_field 30 (template sr), template_mVirtualHostID = strncpy_field IDSIZE (host sr)\<rparr>"
  by (simp add: c_open_template_def enc_c_open_template_def enc_base_def)

lemma vns_packet_layout:
  "vns_packet iface fr = enc_c_packet_header
     \<lparr>mLen_f = htonl (of_nat (length fr + 24)), mType_f = htonl VNSPACKET,
      mInterfaceName = strncpy_field 16 iface\<rparr> @ fr"
  by (simp add: vns_packet_def enc_c_packet_header_def enc_base_def sizeof_c_packet_header_def)

lemma auth_reply_layout:
  "auth_reply name digest = enc_c_auth_reply
     \<lparr>mLen_f = htonl (of_nat (12 + length name + SHA1_LEN)), mType_f = htonl VNS_AUTH_REPLY,
      usernameLen = htonl (of_nat (length name))\<rparr> @ map char_byte name @ concat (map (\<lambda>d. bytes32 (htonl d)) digest)"
  by (simp add: auth_reply_def enc_c_auth_reply_def enc_base_def)

section \<open>What the code reads are the declared fields\<close>

lemma ld_u32_rd32: "off + 4 \<le> length buf \<Longrightarrow> ld_u32 buf off = Some (rd32 buf off)"
  by (simp add: ld_u32_def load_def rd32_def)

lemma rd32_slice: "k + 4 \<le> n \<Longrightarrow> rd32 (slice buf off n) k = rd32 buf (off + k)"
  by (simp add: rd32_def slice_def drop_take add.commute Let_def)

lemma slice_slice: "k + m \<le> n \<Longrightarrow> slice (slice buf off n) k m = slice buf (off + k) m"
  by (simp add: slice_def drop_take min_def add.commute)

lemma ld_strn_slice:
  assumes "off + n \<le> length buf"
  shows "ld_strn n (slice buf off n) 0 = ld_strn n buf off"
proof -
  have "length (takeWhile (\<lambda>b. b \<noteq> 0) (take n (drop off buf))) \<le> n"
    using length_takeWhile_le [of "\<lambda>b. b \<noteq> 0" "take n (drop off buf)"] by simp
  with assms show ?thesis by (auto simp: ld_strn_def slice_def Let_def)
qed

lemma hw_entry_layout:
  assumes "ld dec_c_hw_entry 36 hwinfo off = Some h"
  shows "hw_entry e junk hwinfo off sr =
    (if ntohl (mKey h) = HWINTERFACE
     then do { name \<leftarrow> ld_strn sr_IFACE_NAMELEN (hw_value h) 0; sr_add_interface e junk sr name }
     else if ntohl (mKey h) = HWETHIP then sr_set_ether_ip sr (rd32 (hw_value h) 0)
     else if ntohl (mKey h) = HWETHER then sr_set_ether_addr sr (bytes_mac (slice (hw_value h) 0 6))
     else Some sr)"
proof -
  have len: "off + 36 \<le> length hwinfo" and h: "h = dec_c_hw_entry (slice hwinfo off 36)"
    using assms by (auto simp: ld_def load_def slice_def split: if_splits)
  have "mKey h = rd32 hwinfo off" "hw_value h = slice hwinfo (off + 4) 32"
    by (simp_all add: h dec_c_hw_entry_def rd32_slice slice_slice)
  with len show ?thesis
    by (simp add: hw_entry_def ld_u32_rd32 rd32_slice slice_slice ld_strn_slice sr_IFACE_NAMELEN_def load_def
        slice_def [of hwinfo "off + 4" 6])
qed

text \<open>
  A packet message read through \<^verbatim>\<open>c_packet_ethernet_header\<close> shows the frame's Ethernet header, and what
  is left after it, together with that header, is the frame.
\<close>

lemma packet_ethernet_view:
  assumes "ld_eth fr 0 = Some eh" and "ld dec_c_packet_ethernet_header 38 (vns_packet iface fr) 0 = Some h"
  shows "pe_dhost h = ether_dhost eh" and "pe_shost h = ether_shost eh" and "pe_type h = ether_type eh"
    and "mInterfaceName h = strncpy_field 16 iface"
    and "length (vns_packet iface fr) - 38 + 14 = length fr"
proof -
  have len: "14 \<le> length fr" and eh: "eh = dec_eth (take 14 fr)"
    using assms(1) by (auto simp: ld_def load_def split: if_splits)
  let ?m = "vns_packet iface fr"
  have m: "?m = (enc_base \<lparr>mLen_f = htonl (of_nat (length fr + 24)), mType_f = htonl VNSPACKET\<rparr> @
      strncpy_field 16 iface) @ fr"
    by (simp add: vns_packet_layout enc_c_packet_header_def enc_base_def)
  have h: "h = dec_c_packet_ethernet_header (slice ?m 0 38)"
    using assms(2) by (auto simp: ld_def load_def slice_def split: if_splits)
  have at: "slice ?m 24 6 = slice fr 0 6" "slice ?m 30 6 = slice fr 6 6" "rd16 ?m 36 = rd16 fr 12"
      "slice ?m 8 16 = strncpy_field 16 iface"
    unfolding m by (simp_all del: append_assoc) simp
  have "rd16 (slice ?m 0 38) 36 = rd16 ?m 36" by (simp add: rd16_def slice_def drop_take Let_def)
  with at have "pe_dhost h = bytes_mac (slice fr 0 6)" "pe_shost h = bytes_mac (slice fr 6 6)"
      "pe_type h = rd16 fr 12" and name: "mInterfaceName h = strncpy_field 16 iface"
    by (simp_all add: h dec_c_packet_ethernet_header_def slice_slice)
  then show "pe_type h = ether_type eh" "pe_dhost h = ether_dhost eh" "pe_shost h = ether_shost eh"
    using len by (simp_all add: eh dec_eth_def bytes_mac_def rd16_def slice_def)
  show "mInterfaceName h = strncpy_field 16 iface" by (rule name)
  show "length ?m - 38 + 14 = length fr" using len by (simp add: m)
qed

text \<open>
  \<^verbatim>\<open>sr_read_from_server_expect\<close> accepts messages of up to 10000 bytes, and \<^verbatim>\<open>sr_handle_hwinfo\<close> goes
  through all the entries that fit, up to 277: past the end of the array as it is declared.
\<close>

lemma entries_beyond_array:
  "sr_handle_hwinfo v sr hwinfo = Some (n, sr') \<Longrightarrow> ld_u32 hwinfo 0 = Some (htonl (of_nat len)) \<Longrightarrow>
   8 \<le> len \<Longrightarrow> len \<le> 10000 \<Longrightarrow>
   n = int ((len - 8) div sizeof_c_hw_entry) \<and> n \<le> 277 \<and> (int MAXHWENTRIES < n \<longleftrightarrow> 9260 \<le> len)"
proof -
  assume h: "sr_handle_hwinfo v sr hwinfo = Some (n, sr')" "ld_u32 hwinfo 0 = Some (htonl (of_nat len))"
    and len: "8 \<le> len" "len \<le> 10000"
  from h have "n = int ((len - 8) div sizeof_c_hw_entry)"
    by (auto simp: sr_handle_hwinfo_def Let_def bind_eq_Some_conv entry_count [OF len])
  moreover have "(len - 8) div sizeof_c_hw_entry \<le> 277" "256 < (len - 8) div sizeof_c_hw_entry \<longleftrightarrow> 9260 \<le> len"
    using len by (auto simp: sizeof_c_hw_entry_def)
  ultimately show ?thesis by (simp add: MAXHWENTRIES_def)
qed

end
