(* ===== verification/Spec2Isabelle.thy ===== *)
theory Spec2Isabelle
  imports Example_Session Live_Safety Shared_Log Shared_Interfaces Printing Messages
begin

text \<open>
  A verification library for the router in \<^verbatim>\<open>src/\<close>: a user-level IPv4 router in C that talks to
  a virtual network server. It receives Ethernet frames, answers ARP and ICMP echo, forwards IP
  packets by longest-prefix match, resolves next hops by ARP with a cache and a queue of waiting
  packets, and reports errors by ICMP. A second thread ages the cache and repeats requests.

  \<^bold>\<open>Theories.\<close> Each models one part of the program, in the order in which the parts build on
  each other. The definitions keep the names of the C functions.

  \<^item> \<open>Prelude\<close>: byte buffers with bounds-checked access, byte order, C strings.
  \<^item> \<open>Protocol\<close>: the packed structures of \<^verbatim>\<open>sr_protocol.h\<close> and their layout; the locale
    \<open>wire_struct\<close> is what the rest relies on, interpreted for every structure.
  \<^item> \<open>Utils\<close>: \<^verbatim>\<open>cksum\<close> and accessors of \<^verbatim>\<open>sr_utils.c\<close>; the checksum as arithmetic modulo
    \<open>2^16 - 1\<close>.
  \<^item> \<open>State\<close>: \<^verbatim>\<open>struct sr_instance\<close> and what hangs off it; the environment of one event.
  \<^item> \<open>Interfaces\<close>, \<open>Routing\<close>: \<^verbatim>\<open>sr_if.c\<close>, \<^verbatim>\<open>sr_rt.c\<close>, the walks over both lists in
    \<^verbatim>\<open>sr_router.c\<close>, and \<^verbatim>\<open>sr_verify_routing_table\<close> of \<^verbatim>\<open>sr_main.c\<close>.
  \<^item> \<open>Arpcache\<close>: \<^verbatim>\<open>sr_arpcache.c\<close>; its two contracts are the locales \<open>arp_table\<close> (a finite map)
    and \<open>request_queue\<close> (packets kept per next hop until released).
  \<^item> \<open>Dumper\<close>, \<open>Vns_Send\<close>: \<^verbatim>\<open>sr_dumper.c\<close> and the sending half of \<^verbatim>\<open>sr_vns_comm.c\<close>.
  \<^item> \<open>Text_Output\<close>: numbers and addresses as text, and the printing of the interface list, which
    reads names that may lack their terminator.
  \<^item> \<open>Sha1\<close>: \<^verbatim>\<open>sha1.c\<close>, the hash of FIPS 180-1, and the equality of the two; the locale
    \<open>stream_hash\<close> is what the authentication relies on.
  \<^item> \<open>Vns_Comm\<close>: the receiving half of \<^verbatim>\<open>sr_vns_comm.c\<close> (\<^verbatim>\<open>sr_read_from_server_expect\<close> and the handlers
    it calls, \<^verbatim>\<open>sr_connect_to_server\<close>) and the messages of \<^verbatim>\<open>vnscommand.h\<close>, over a socket whose input
    is a list of events.
  \<^item> \<open>Messages\<close>: the structures of \<^verbatim>\<open>vnscommand.h\<close> with the layouts they declare (locale \<open>wire_layout\<close>),
    and that what is sent and read has them.
  \<^item> \<open>Session\<close>, \<open>Hwinfo\<close>: what the messages of a session do, and the main loop.
  \<^item> \<open>Rt_File\<close>: \<^verbatim>\<open>sr_load_rt\<close> with \<^verbatim>\<open>fgets\<close>, \<^verbatim>\<open>sscanf\<close> and \<^verbatim>\<open>inet_aton\<close>, and printed routes.
  \<^item> \<open>Printing\<close>: the texts that \<^verbatim>\<open>sr_utils.c\<close>, \<^verbatim>\<open>sr_if.c\<close>, \<^verbatim>\<open>sr_rt.c\<close> and \<^verbatim>\<open>sr_arpcache.c\<close> print.
  \<^item> \<open>Startup\<close>: \<^verbatim>\<open>main\<close> of \<^verbatim>\<open>sr_main.c\<close> up to the loop.
  \<^item> \<open>Router\<close>: the packet handlers of \<^verbatim>\<open>sr_router.c\<close>.
  \<^item> \<open>Router_Safety\<close>, \<open>Router_Behaviour\<close>: no handler faults; what each of them emits and changes.
  \<^item> \<open>Sweep\<close>: \<^verbatim>\<open>sr_arpcache_sweepreqs\<close> and a round of the timer.
  \<^item> \<open>System\<close>: sequences of frames and timer rounds; the locales \<open>safe_system\<close>,
    \<open>tracking_system\<close> and \<open>faulting_system\<close>, the step relation and the reachable states.
  \<^item> \<open>Concurrency\<close>: the receiving and the timer thread with the cache's lock; the two operations that
    use the cache more than once, cut into the pieces another thread can see, and schedules.
  \<^item> \<open>Unasked\<close>, \<open>Concurrency_Safety\<close>: queues between two pieces, and the invariant of both threads.
  \<^item> \<open>Two_Threads\<close>: the whole program as two threads, the receiving one taking frame after frame,
    the timer one doing round after round; what runs one after the other in \<open>System\<close> is one of its
    schedules. \<open>Two_Threads_Safety\<close>: what any schedule keeps, and the only fault there can be.
  \<^item> \<open>Live_Session\<close>: the main loop as the receiving thread, over a socket that fills while both threads
    run; \<^verbatim>\<open>sr_read_from_server\<close> and the loop are schedules of it. \<open>Live_Safety\<close>: the messages of a
    session after the interfaces have been announced, what every schedule does with them, and that they are worked off.
  \<^item> \<open>Shared_Log\<close>: the dump file when both threads write it. \<open>Shared_Interfaces\<close>: the interface list in
    memory, walked by one thread while the other extends it.
  \<^item> \<open>Example\<close>, \<open>Example_Session\<close>: a small concrete network and a session for the witnesses.

  \<^bold>\<open>How C is rendered.\<close> Integers have their C width and wrap; \<^verbatim>\<open>time_t\<close> is unbounded. A pointer into a
  packet is an offset into a byte list, and every access through it is checked; a linked list is
  a list in link order; a request that other code points to carries its address. A result \<open>None\<close>
  means that the C code would access memory outside a buffer, follow a null pointer or fail an
  \<^verbatim>\<open>assert\<close>, so a theorem that a result is \<open>Some\<close> excludes all of these. The host is 64-bit
  and little-endian. What the operating system decides (clock, \<^verbatim>\<open>malloc\<close>, \<^verbatim>\<open>write\<close>) is the record
  \<open>env\<close>; \<open>env_ok\<close> says that no allocation and no write fails, and frames are taken to be shorter than
  2 GB, where \<^verbatim>\<open>sr_log_packet\<close> turns their length into an \<^verbatim>\<open>int\<close>. Of the socket's input, what each
  \<^verbatim>\<open>recv\<close> finds (bytes, none at the end of the connection, a signal, an error) is a list of events; a
  call that needs more than the list holds is \<open>Waiting\<close>. Files are their contents; uninitialised
  locals and the results of \<^verbatim>\<open>gethostbyname\<close>, \<^verbatim>\<open>socket\<close>, \<^verbatim>\<open>connect\<close>, \<^verbatim>\<open>send\<close>, \<^verbatim>\<open>fopen\<close> and \<^verbatim>\<open>getpwuid\<close> are
  the record \<open>os\<close>. A string that is not terminated inside its buffer counts as a fault when it is
  read. A file that can be opened for writing is written in full.

  \<^bold>\<open>What is shown.\<close> The router runs without faults for ever and keeps its invariants; what it sends
  for each kind of packet, byte for byte; that waiting packets are delivered when the answer
  comes and reported when it does not, within five timer rounds; that the timer thread may cut into
  the handling of frames at any point if it does not come round too often, and what goes wrong when
  it does: a handler finds its request released, and nothing else, also while a server's frames keep
  arriving; that interfaces are found while others are added, and that a name which is not in the list
  makes such a walk fault; that its data structures
  implement their abstract counterparts; that the checksum is the one of RFC 1071, with one
  deviation that makes it drop some valid packets. For the session: the hash is SHA-1, commands are
  read whole however the stream is cut, the challenge is answered with the salted hash, announced
  interfaces and the downloaded table are installed, packets reach the router as they were sent,
  and all this together, with the timer asleep, from the command line on; and which announced lengths break the
  reader, and which interface names the printing of the list. \<^verbatim>\<open>sr_arpcache_sweepreqs\<close> is a
  \<open>partial_function\<close> and proved to return; no other definition needs fuel, except the reader of dump
  files, whose fuel is the length of the file.

  \<^bold>\<open>What is not modelled.\<close> The socket address, which only \<^verbatim>\<open>connect\<close> uses, and the release of memory and
  of the socket. The interleavings of the two threads are those of the reading of a message and the pieces of its handling
  with the pieces of a timer round: a piece ends where the lock is taken or a request is accessed,
  and a visit of the sweep to one request, which the lock protects, is one piece. Each packet sent and
  each \<^verbatim>\<open>times_sent++\<close> is one piece as well, and so is the installing of the interfaces of one message; what happens when the
  pieces are smaller is shown of the dump file and of the interface list by themselves, and a session whose server
  sends hardware information while the timer thread is awake is therefore not among those shown to be safe.
  The address of a destroyed request is never used for another, as the C standard has it that a pointer to released
  memory stays invalid; \<^verbatim>\<open>calloc\<close> may return the same memory. In \<open>System\<close>
  handlers and rounds follow each other whole. Diagnostic messages of one line are left out.
\<close>

section \<open>The router as a whole\<close>

text \<open>
  C1 (safety). From the state \<^verbatim>\<open>sr_init\<close> leaves, whatever frames arrive and however often the
  timer runs between them, as long as no allocation and no write fails: no handler leaves a buffer, follows a
  null pointer or fails an assertion, every loop ends, the configuration is not touched, and the
  invariants of cache, queue and queued packets hold afterwards.
\<close>

theorem router_never_faults:
  assumes "names_ok sr" and "\<forall>ev \<in> set evs. event_ok ev"
  shows "\<exists>sr'. run evs (sr_init sr) = Some sr' \<and> same_config sr sr' \<and> running sr'"
proof -
  have "running (sr_init sr)" "same_config sr (sr_init sr)"
    using running_init [OF assms(1)] by (simp_all add: sr_init_def)
  with rtr.run_all_tracked [OF _ assms(2)] show ?thesis
    unfolding run_run_all using same_config_trans by blast
qed

theorem router_never_faults_witness:
  "\<exists>sr'. run [Receive ideal_env (ip_frame 64 17 dst_b) ''eth0'', Tick ideal_env] (sr_init rtr0) = Some sr' \<and>
     same_config rtr0 sr' \<and> running sr'"
  by (rule router_never_faults) simp_all

text \<open>
  C2 (functional). Forwarding to a next hop whose address is known: exactly one frame goes out, on
  the interface of the route. It is the received one with the Ethernet addresses replaced, the
  lifetime one lower and a header checksum that the next router accepts; everything behind the IP
  header's fixed part is as it came. Nothing else of the router changes but log and socket.
\<close>

theorem forward_known_next_hop:
  assumes e: "env_ok e" and names: "names_ok sr" and max: "length p < 2 ^ 31"
    and eh: "ld_eth p 0 = Some eh" "ntohs (ether_type eh) = ethertype_ip"
    and h: "ip_valid p h" and other: "\<not> sr_is_router_ip sr (ip_dst h)" and ttl: "1 < ip_ttl h"
    and r: "route_to sr (ip_dst h) = Some (out, nh)" and m: "arp_mac (cache sr) nh = Some m"
  shows "sr_handlepacket e sr p (length p) iface =
      Some (emit e (if_name out) (readdress m (if_addr out) (forwarded p h)) sr) \<and>
    (\<exists>s. ip_valid (readdress m (if_addr out) (forwarded p h)) (h\<lparr>ip_ttl := ip_ttl h - 1, ip_sum := s\<rparr>)) \<and>
    drop 34 (readdress m (if_addr out) (forwarded p h)) = drop 34 p"
proof -
  have s: "ip_shape p h" using h by (simp add: ip_valid_def)
  have len: "34 \<le> length p" "length (forwarded p h) = length p"
    using ip_shapeD(1) [OF s] by (simp_all add: forwarded_def length_refreshed)
  obtain g where g: "ld_ip (forwarded p h) 14 = Some g" "ip_dst g = ip_dst h"
    using ld_ip_forwarded [OF len(1), of h] by auto
  have "sr_send_routed_ip_packet e sr (forwarded p h) (length p) =
      Some (emit e (if_name out) (readdress m (if_addr out) (forwarded p h)) sr)"
    using send_routed_hit [OF e names _ _ g(1) _ m] len max r g(2) by simp
  then have "sr_handlepacket e sr p (length p) iface =
      Some (emit e (if_name out) (readdress m (if_addr out) (forwarded p h)) sr)"
    using r by (simp add: handlepacket_ip [OF eh] handle_ip_forwards [OF h other ttl])
  moreover have "\<exists>s. ip_valid (readdress m (if_addr out) (forwarded p h)) (h\<lparr>ip_ttl := ip_ttl h - 1, ip_sum := s\<rparr>)"
    using forwarded_valid [OF h] ip_valid_readdress by blast
  moreover have "drop 34 (readdress m (if_addr out) (forwarded p h)) = drop 34 p"
    using drop_forwarded [OF len(1), of h] by (simp add: readdress_def)
  ultimately show ?thesis by blast
qed

theorem forward_known_next_hop_witness:
  "sr_handlepacket ideal_env rtr1 (ip_frame 64 17 dst_b) (length (ip_frame 64 17 dst_b)) ''eth0'' =
     Some (emit ideal_env (if_name eth1) (readdress host_b (if_addr eth1)
       (forwarded (ip_frame 64 17 dst_b) (hdr 64 17 dst_b))) rtr1)"
  using forward_known_next_hop [OF ideal_env_ok rtr_names(2) small_frames(1) frame_eth(1,3) frame_valid,
    of 64 17 dst_b eth1 dst_b host_b "''eth0''"] by (simp add: rtr1_config rtr1_knows)

text \<open>
  C3 (functional). Forwarding to a next hop nobody has asked for yet: the packet, ready but for the
  destination address, is queued under the next hop, and one ARP request for it is broadcast on
  the interface of the route. The request counts as sent once, now.
\<close>

theorem forward_unknown_next_hop:
  assumes e: "env_ok e" and run: "running sr" and max: "length p < 2 ^ 31"
    and eh: "ld_eth p 0 = Some eh" "ntohs (ether_type eh) = ethertype_ip"
    and h: "ip_valid p h" and other: "\<not> sr_is_router_ip sr (ip_dst h)" and ttl: "1 < ip_ttl h"
    and r: "route_to sr (ip_dst h) = Some (out, nh)" and m: "arp_mac (cache sr) nh = None"
    and q: "pending (cache sr) nh = None"
  shows "sr_handlepacket e sr p (length p) iface =
    Some (emit e (if_name out) (arp_request_frame out nh)
      (sr\<lparr>cache := open_request e (cache sr) nh
         (queued_packet (resource (if_addr out) (forwarded p h)) (if_name out))\<rparr>))"
  using r by (simp add: handlepacket_ip [OF eh] handle_ip_forwards [OF h other ttl]
      send_forwarded_first_miss [OF e run h r m q])

theorem forward_unknown_next_hop_witness:
  "sr_handlepacket ideal_env rtr0 (ip_frame 64 17 dst_b) (length (ip_frame 64 17 dst_b)) ''eth0'' =
     Some (emit ideal_env (if_name eth1) (arp_request_frame eth1 dst_b)
       (rtr0\<lparr>cache := open_request ideal_env (cache rtr0) dst_b
         (queued_packet (resource (if_addr eth1) (forwarded (ip_frame 64 17 dst_b) (hdr 64 17 dst_b)))
           (if_name eth1))\<rparr>))"
  by (rule forward_unknown_next_hop [OF ideal_env_ok rtr0_running small_frames(1) frame_eth(1,3) frame_valid])
    (simp_all add: rtr0_facts)

text \<open>
  C4 (functional). Forwarding to a next hop that has been asked for: nothing is sent, the packet, ready but for the
  destination address,
  joins, in front, the ones that wait for the same next hop, and no other next hop is affected; nor
  is anything else of the router but the queue.
\<close>

theorem forward_joins_queue:
  assumes e: "env_ok e" and run: "running sr" and max: "length p < 2 ^ 31"
    and eh: "ld_eth p 0 = Some eh" "ntohs (ether_type eh) = ethertype_ip"
    and h: "ip_valid p h" and other: "\<not> sr_is_router_ip sr (ip_dst h)" and ttl: "1 < ip_ttl h"
    and r: "route_to sr (ip_dst h) = Some (out, nh)" and m: "arp_mac (cache sr) nh = None"
    and q: "pending (cache sr) nh = Some qs"
  shows "\<exists>c. sr_handlepacket e sr p (length p) iface = Some (sr\<lparr>cache := c\<rparr>) \<and>
    entries c = entries (cache sr) \<and> pending c = (pending (cache sr))
      (nh \<mapsto> queued_packet (resource (if_addr out) (forwarded p h)) (if_name out) # qs)"
  using send_forwarded_later_miss [OF e run h r m q] r
  by (auto simp: handlepacket_ip [OF eh] handle_ip_forwards [OF h other ttl])

theorem forward_joins_queue_witness:
  "\<exists>c. sr_handlepacket ideal_env rtr2 (ip_frame 64 17 dst_b) (length (ip_frame 64 17 dst_b)) ''eth0'' =
     Some (rtr2\<lparr>cache := c\<rparr>) \<and> entries c = entries (cache rtr2) \<and>
     pending c = (pending (cache rtr2))
       (dst_b \<mapsto> queued_packet (resource (if_addr eth1) (forwarded (ip_frame 64 17 dst_b) (hdr 64 17 dst_b)))
          (if_name eth1) # [waiting_pkt])"
  by (rule forward_joins_queue [OF ideal_env_ok rtr2_running small_frames(1) frame_eth(1,3) frame_valid])
    (simp_all add: rtr2_config rtr2_knows)

text \<open>
  C5 (functional). An ARP reply to one of the router's addresses: every packet that waited for its
  sender is sent once, in the order of the queue, on the interface it was queued for and with both
  Ethernet addresses filled in, and the request is gone; requests for others stay. This holds
  whether or not the table has room for the address; it is learned unless it is new and every
  entry of the table is in use.
\<close>

theorem arp_reply_delivers:
  assumes e: "env_ok e" and run: "running sr"
    and eh: "ld_eth p 0 = Some eh" "ntohs (ether_type eh) = ethertype_arp"
    and a: "ld_arp p 14 = Some a" and i: "sr_get_interface sr iface = Some rcv"
    and sip: "ar_sip a \<noteq> 0" and oper: "ntohs (ar_op a) = arp_op_reply"
    and us: "sr_is_router_ip sr (ar_tip a)"
  shows "\<exists>sr'. sr_handlepacket e sr p (length p) iface = Some sr' \<and>
    sock_out sr' = sock_out sr @ flush_msgs sr (ar_sha a) (waiting_for sr (ar_sip a)) \<and>
    arp_mac (cache sr') =
      (if table_full (cache sr) (ar_sip a) then arp_mac (cache sr)
       else (arp_mac (cache sr))(ar_sip a \<mapsto> ar_sha a)) \<and>
    pending (cache sr') = (pending (cache sr))(ar_sip a := None)"
proof -
  have inv: "router_inv sr" and t: "table_inv (cache sr)" and q: "queue_inv (cache sr)"
    using run by (auto simp: running_def router_inv_def cache_inv_def)
  have "sr_handlepacket e sr p (length p) iface = Some (learned e sr a)"
    using sip oper us
    by (simp add: handlepacket_arp [OF eh] handle_arp_eq [OF e inv ld_arp_len [OF a] a i]
        arp_op_reply_def arp_op_request_def)
  moreover have "pending (cache_learn e (cache sr) (ar_sha a) (ar_sip a)) = (pending (cache sr))(ar_sip a := None)"
    unfolding cache_learn_def by (rule pending_insert [OF q])
  ultimately show ?thesis using tbl.insert_refines_map [OF t] by simp
qed

theorem arp_reply_delivers_witness:
  "\<exists>sr'. sr_handlepacket ideal_env rtr2 (arp_frame answer_b) (length (arp_frame answer_b)) ''eth1'' = Some sr' \<and>
    sock_out sr' = sock_out rtr2 @ flush_msgs rtr2 (ar_sha answer_b) (waiting_for rtr2 (ar_sip answer_b)) \<and>
    arp_mac (cache sr') = (arp_mac (cache rtr2))(ar_sip answer_b \<mapsto> ar_sha answer_b) \<and>
    pending (cache sr') = (pending (cache rtr2))(ar_sip answer_b := None)"
  using arp_reply_delivers [OF ideal_env_ok rtr2_running frame_eth(2,3) frame_arp [of answer_b], of "''eth1''" eth1]
  by (simp add: rtr2_config rtr2_knows rtr0_facts(10))

text \<open>
  C6 (functional). A packet that had to wait is delivered: first the ARP request for its next hop
  goes out, and when the answer comes, the very frame that would have gone out at once had the
  address been known. Nothing stays behind in the queue.
\<close>

theorem miss_then_reply:
  assumes e: "env_ok e" "env_ok e'" and run: "running sr" and max: "length p < 2 ^ 31"
    and eh: "ld_eth p 0 = Some eh" "ntohs (ether_type eh) = ethertype_ip"
    and h: "ip_valid p h" and other: "\<not> sr_is_router_ip sr (ip_dst h)" and ttl: "1 < ip_ttl h"
    and r: "route_to sr (ip_dst h) = Some (out, nh)" and m: "arp_mac (cache sr) nh = None"
    and q: "pending (cache sr) nh = None"
    and eh2: "ld_eth p2 0 = Some eh2" "ntohs (ether_type eh2) = ethertype_arp"
    and a: "ld_arp p2 14 = Some a" and i: "sr_get_interface sr iface2 = Some rcv"
    and sip: "ar_sip a = nh" "nh \<noteq> 0" and oper: "ntohs (ar_op a) = arp_op_reply"
    and us: "sr_is_router_ip sr (ar_tip a)"
  shows "\<exists>sr'. run [Receive e p iface, Receive e' p2 iface2] sr = Some sr' \<and>
    sock_out sr' = sock_out sr @
      [vns_packet (if_name out) (arp_request_frame out nh),
       vns_packet (if_name out) (readdress (ar_sha a) (if_addr out) (forwarded p h))] \<and>
    pending (cache sr') nh = None"
proof -
  let ?pkt = "queued_packet (resource (if_addr out) (forwarded p h)) (if_name out)"
  let ?s1 = "emit e (if_name out) (arp_request_frame out nh) (sr\<lparr>cache := open_request e (cache sr) nh ?pkt\<rparr>)"
  have one: "sr_handlepacket e sr p (length p) iface = Some ?s1"
    using r by (simp add: handlepacket_ip [OF eh] handle_ip_forwards [OF h other ttl]
        send_forwarded_first_miss [OF e(1) run h r m q])
  have run1: "running ?s1" using handlepacket_running [OF e(1) run max, of iface] one by simp
  then have inv1: "router_inv ?s1" and q1: "queue_inv (cache ?s1)"
    by (auto simp: running_def router_inv_def cache_inv_def)
  have i1: "sr_get_interface ?s1 iface2 = Some rcv" using i by (simp add: sr_get_interface_def)
  have us1: "sr_is_router_ip ?s1 (ar_tip a)" using us by (simp add: sr_is_router_ip_def)
  have two: "sr_handlepacket e' ?s1 p2 (length p2) iface2 = Some (learned e' ?s1 a)"
    using sip oper us1
    by (simp add: handlepacket_arp [OF eh2] handle_arp_eq [OF e(2) inv1 ld_arp_len [OF a] a i1]
        arp_op_reply_def arp_op_request_def)
  have w: "waiting_for ?s1 nh = [?pkt]" by (simp add: waiting_for_def pending_def open_request_def)
  have "flush_msgs ?s1 (ar_sha a) [?pkt] =
      [vns_packet (if_name out) (readdress (ar_sha a) (if_addr out) (forwarded p h))]"
    using route_to_iface(2) [OF _ r] run ip_valid_forwarded_len [OF h]
    by (simp add: flush_msgs_def queued_packet_def running_def vns_packet_name sr_get_interface_def)
  with w sip(1) have "sock_out (learned e' ?s1 a) = sock_out sr @
      [vns_packet (if_name out) (arp_request_frame out nh),
       vns_packet (if_name out) (readdress (ar_sha a) (if_addr out) (forwarded p h))]" by simp
  moreover have "pending (cache (learned e' ?s1 a)) nh = None"
    using pending_insert [OF q1] sip(1) by (simp add: cache_learn_def)
  ultimately show ?thesis using one two by simp
qed

theorem miss_then_reply_witness:
  "\<exists>sr'. run [Receive ideal_env (ip_frame 64 17 dst_b) ''eth0'',
              Receive ideal_env (arp_frame answer_b) ''eth1''] rtr0 = Some sr' \<and>
    sock_out sr' = sock_out rtr0 @
      [vns_packet (if_name eth1) (arp_request_frame eth1 dst_b),
       vns_packet (if_name eth1) (readdress (ar_sha answer_b) (if_addr eth1)
         (forwarded (ip_frame 64 17 dst_b) (hdr 64 17 dst_b)))] \<and>
    pending (cache sr') dst_b = None"
  by (rule miss_then_reply [OF ideal_env_ok ideal_env_ok rtr0_running small_frames(1) frame_eth(1,3)
        frame_valid _ _ _ _ _ frame_eth(2,3) frame_arp]) (simp_all add: rtr0_facts)

section \<open>ICMP\<close>

text \<open>
  C7 (functional). An echo request with a correct checksum to one of the router's addresses is
  answered on the interface it came in by: the same frame with the Ethernet addresses turned
  round, IP source and destination exchanged, a fresh lifetime and valid header checksum, ICMP
  type and code 0, the same identifier, sequence number and data, under a checksum that makes the
  ICMP message sum to 0 modulo \<open>2^16 - 1\<close>.
\<close>

theorem ping_answered:
  assumes e: "env_ok e" and max: "length p < 2 ^ 31"
    and eh: "ld_eth p 0 = Some eh" "ntohs (ether_type eh) = ethertype_ip"
    and h: "ip_valid p h" and us: "sr_is_router_ip sr (ip_dst h)" and icmp: "ip_p h = ip_protocol_icmp"
    and n: "hlen h + 8 \<le> tlen h" and echo: "echo_request p h"
    and ic: "ld_icmp08 p (14 + hlen h) = Some ic" and i: "sr_get_interface sr iface = Some out"
  shows "\<exists>fr x y. sr_handlepacket e sr p (length p) iface = Some (emit e iface fr sr) \<and>
    take 14 fr = take 14 (readdress (ether_shost eh) (if_addr out) p) \<and>
    ip_valid fr (h\<lparr>ip_src := ip_dst h, ip_dst := ip_src h, ip_ttl := INIT_TTL, ip_sum := x\<rparr>) \<and>
    ld_icmp08 fr (14 + hlen h) = Some (ic\<lparr>icmp08_type := 0, icmp08_code := 0, icmp08_sum := y\<rparr>) \<and>
    word_sum (take (tlen h - hlen h) (drop (14 + hlen h) fr)) mod 65535 = 0 \<and>
    drop (14 + hlen h + 8) fr = drop (14 + hlen h + 8) p"
proof -
  have s: "ip_shape p h" using h by (simp add: ip_valid_def)
  let ?fr = "echo_reply_frame out p eh h ic"
  have "sr_handlepacket e sr p (length p) iface = Some (emit e iface ?fr sr)"
    by (simp add: handlepacket_ip [OF eh] handle_ip_ping [OF h us icmp n echo]
        echo_reply_emit [OF e i s n eh(1) ic max])
  with echo_reply_eth [OF s n eh(1), of out ic] echo_reply_valid [OF s n, of out eh ic]
    echo_reply_icmp [OF s n, of out eh ic]
  show ?thesis by (auto intro!: exI [of _ ?fr])
qed

theorem ping_answered_witness:
  "\<exists>fr x y. sr_handlepacket ideal_env rtr0 (ip_frame 64 1 (ip4 10 0 0 1))
       (length (ip_frame 64 1 (ip4 10 0 0 1))) ''eth0'' = Some (emit ideal_env ''eth0'' fr rtr0) \<and>
    take 14 fr = take 14 (readdress (ether_shost (eth_in ethertype_ip)) (if_addr eth0)
      (ip_frame 64 1 (ip4 10 0 0 1))) \<and>
    ip_valid fr ((hdr 64 1 (ip4 10 0 0 1))\<lparr>ip_src := ip_dst (hdr 64 1 (ip4 10 0 0 1)),
      ip_dst := ip_src (hdr 64 1 (ip4 10 0 0 1)), ip_ttl := INIT_TTL, ip_sum := x\<rparr>) \<and>
    ld_icmp08 fr (14 + hlen (hdr 64 1 (ip4 10 0 0 1))) =
      Some (ping\<lparr>icmp08_type := 0, icmp08_code := 0, icmp08_sum := y\<rparr>) \<and>
    word_sum (take (tlen (hdr 64 1 (ip4 10 0 0 1)) - hlen (hdr 64 1 (ip4 10 0 0 1)))
      (drop (14 + hlen (hdr 64 1 (ip4 10 0 0 1))) fr)) mod 65535 = 0 \<and>
    drop (14 + hlen (hdr 64 1 (ip4 10 0 0 1)) + 8) fr =
      drop (14 + hlen (hdr 64 1 (ip4 10 0 0 1)) + 8) (ip_frame 64 1 (ip4 10 0 0 1))"
  by (rule ping_answered [OF ideal_env_ok small_frames(1) frame_eth(1,3) frame_valid])
    (simp_all add: rtr0_facts ip_protocol_icmp_def frame_echo)

text \<open>
  C8 (functional). A packet for somebody else whose lifetime is used up is not forwarded: an ICMP message
  of type 11 code 0 is made for its sender and sent towards it. The address the message comes from is that of the
  interface \<^verbatim>\<open>sr_find_icmp_source_iface\<close> chooses: the one that has the source address of the frame's
  Ethernet header, else the one that has its destination address, else the one of the route to the
  sender; if there is none, nothing is sent. Towards the sender means along the route to it, if there is
  one: as one frame if the next hop is known; else the message waits for the next hop, and
  unless others wait already, an ARP request goes out for it.
\<close>

theorem lifetime_exceeded:
  assumes e: "env_ok e" and run: "running sr"
    and eh: "ld_eth p 0 = Some eh" "ntohs (ether_type eh) = ethertype_ip"
    and h: "ip_valid p h" and other: "\<not> sr_is_router_ip sr (ip_dst h)" and ttl: "ip_ttl h \<le> 1"
  shows "\<exists>sr'. sr_handlepacket e sr p (length p) iface = Some sr' \<and>
    (case sr_find_icmp_source_iface sr eh (ip_src h) of
       None \<Rightarrow> sr' = sr
     | Some out \<Rightarrow> sent_towards e sr (ip_src h)
         (icmp_error_frame out (ether_shost eh) (ip_src h) 11 0 (quoted p h)) sr')"
  using send_icmp_error_towards [OF e run h eh(1), of 11 0]
  by (simp add: handlepacket_ip [OF eh] handle_ip_expired [OF h other ttl])

theorem lifetime_exceeded_witness:
  "sr_handlepacket ideal_env rtr3 (ip_frame 1 17 dst_b) (length (ip_frame 1 17 dst_b)) ''eth0'' =
    Some (emit ideal_env (if_name eth0) (readdress host_a (if_addr eth0)
      (icmp_error_frame eth0 (ether_shost (eth_in ethertype_ip)) (ip_src (hdr 1 17 dst_b)) 11 0
        (quoted (ip_frame 1 17 dst_b) (hdr 1 17 dst_b)))) rtr3)"
  using lifetime_exceeded [OF ideal_env_ok rtr3_running frame_eth(1,3) frame_valid [of 1 17 dst_b], of "''eth0''"]
  by (simp add: rtr3_config rtr3_knows sent_towards_def)

text \<open>
  C9 (functional). A TCP or UDP packet for one of the router's addresses is answered with ICMP type 3 code 3, port
  unreachable, in the same way: from the interface that \<^verbatim>\<open>sr_find_icmp_source_iface\<close> chooses, if
  there is one, and towards the sender, if there is a route to it.
\<close>

theorem port_unreachable:
  assumes e: "env_ok e" and run: "running sr"
    and eh: "ld_eth p 0 = Some eh" "ntohs (ether_type eh) = ethertype_ip"
    and h: "ip_valid p h" and us: "sr_is_router_ip sr (ip_dst h)"
    and proto: "ip_p h \<in> {ip_protocol_tcp, ip_protocol_udp}"
  shows "\<exists>sr'. sr_handlepacket e sr p (length p) iface = Some sr' \<and>
    (case sr_find_icmp_source_iface sr eh (ip_src h) of
       None \<Rightarrow> sr' = sr
     | Some out \<Rightarrow> sent_towards e sr (ip_src h)
         (icmp_error_frame out (ether_shost eh) (ip_src h) 3 3 (quoted p h)) sr')"
  using send_icmp_error_towards [OF e run h eh(1), of 3 3]
  by (simp add: handlepacket_ip [OF eh] handle_ip_port [OF h us proto])

theorem port_unreachable_witness:
  "sr_handlepacket ideal_env rtr3 (ip_frame 64 17 (ip4 10 0 0 1)) (length (ip_frame 64 17 (ip4 10 0 0 1))) ''eth0'' =
    Some (emit ideal_env (if_name eth0) (readdress host_a (if_addr eth0)
      (icmp_error_frame eth0 (ether_shost (eth_in ethertype_ip)) (ip_src (hdr 64 17 (ip4 10 0 0 1))) 3 3
        (quoted (ip_frame 64 17 (ip4 10 0 0 1)) (hdr 64 17 (ip4 10 0 0 1))))) rtr3)"
  using port_unreachable [OF ideal_env_ok rtr3_running frame_eth(1,3) frame_valid [of 64 17 "ip4 10 0 0 1"], of "''eth0''"]
  by (simp add: rtr3_config rtr3_knows ip_protocol_udp_def sent_towards_def)

text \<open>
  C10 (functional). For a packet to which no route leads, whose lifetime is not used up, an ICMP message of type 3 code 0,
  net unreachable, is made and sent in the same way: nothing if no source interface is found or no route leads back
  to the sender; else one frame, or, if the next hop to the sender is not known yet, the message waits
  and the first one to wait has an ARP request sent. The message quotes the packet as it would have
  been forwarded, its lifetime already counted down.
\<close>

theorem net_unreachable:
  assumes e: "env_ok e" and run: "running sr"
    and eh: "ld_eth p 0 = Some eh" "ntohs (ether_type eh) = ethertype_ip"
    and h: "ip_valid p h" and other: "\<not> sr_is_router_ip sr (ip_dst h)" and ttl: "1 < ip_ttl h"
    and none: "sr_find_lpm_route sr (ip_dst h) = None"
  shows "\<exists>sr'. sr_handlepacket e sr p (length p) iface = Some sr' \<and>
    (case sr_find_icmp_source_iface sr eh (ip_src h) of
       None \<Rightarrow> sr' = sr
     | Some out \<Rightarrow> sent_towards e sr (ip_src h)
         (icmp_error_frame out (ether_shost eh) (ip_src h) 3 0 (quoted (forwarded p h) h)) sr')"
  using send_icmp_error_no_route [OF e run h eh(1), of 3 0]
  by (simp add: handlepacket_ip [OF eh] handle_ip_no_route [OF h other ttl none])

theorem net_unreachable_witness:
  "sr_handlepacket ideal_env rtr3 (ip_frame 64 17 (ip4 192 0 2 1)) (length (ip_frame 64 17 (ip4 192 0 2 1))) ''eth0'' =
    Some (emit ideal_env (if_name eth0) (readdress host_a (if_addr eth0)
      (icmp_error_frame eth0 (ether_shost (eth_in ethertype_ip)) (ip_src (hdr 64 17 (ip4 192 0 2 1))) 3 0
        (quoted (forwarded (ip_frame 64 17 (ip4 192 0 2 1)) (hdr 64 17 (ip4 192 0 2 1)))
          (hdr 64 17 (ip4 192 0 2 1))))) rtr3)"
  using net_unreachable [OF ideal_env_ok rtr3_running frame_eth(1,3) frame_valid [of 64 17 "ip4 192 0 2 1"], of "''eth0''"]
  by (simp add: rtr3_config rtr3_knows sent_towards_def)

text \<open>
  C11 (functional). Every message that \<^verbatim>\<open>sr_send_icmp_error\<close> makes, byte for byte: 70 bytes; an Ethernet header
  from the chosen source interface to the sender of the offending frame; an IP header that the
  validity check accepts, of 20 bytes and a total length of 56, with a fresh lifetime, from the address of
  that interface to the sender of the packet; then the given type and code, a
  checksum that makes the ICMP message sum to 0 modulo \<open>2^16 - 1\<close>, four bytes 0, and the first 28 bytes
  of the offending IP packet, or all of it if it is shorter and 0 behind it.
\<close>

theorem icmp_error_wellformed:
  assumes made: "icmp_error_packet e sr p (length p) type code = Some (Some fr)"
  shows "\<exists>h eh out s x. ip_valid p h \<and> ld_eth p 0 = Some eh \<and>
    sr_find_icmp_source_iface sr eh (ip_src h) = Some out \<and> length fr = 70 \<and>
    ld_eth fr 0 = Some \<lparr>ether_dhost = ether_shost eh, ether_shost = if_addr out,
      ether_type = htons ethertype_ip\<rparr> \<and>
    ip_valid fr \<lparr>ip_hl = 5, ip_v = 4, ip_tos = 0, ip_len = htons 56, ip_id = 0, ip_off = 0,
      ip_ttl = INIT_TTL, ip_p = ip_protocol_icmp, ip_sum = s, ip_src = if_ip out, ip_dst = ip_src h\<rparr> \<and>
    drop 34 fr = [type, code] @ bytes16 x @ [0, 0, 0, 0] @
      take (tlen h) (take 28 (drop 14 p)) @ replicate (28 - tlen h) 0 \<and>
    word_sum (drop 34 fr) mod 65535 = 0"
proof -
  obtain h where h: "ip_valid p h"
    using made icmp_error_packet_invalid by (metis option.distinct(1) option.inject)
  then have b: "34 \<le> length p" "14 + tlen h \<le> length p" by (auto simp: ip_valid_def dest: ip_shapeD)
  obtain eh where eh: "ld_eth p 0 = Some eh" using b(1) by (simp add: eth.ld_in_bounds)
  have mem: "malloc_ok e 70"
    using icmp_error_packet_memory [OF made] .
  obtain out where out: "sr_find_icmp_source_iface sr eh (ip_src h) = Some out"
      "fr = icmp_error_frame out (ether_shost eh) (ip_src h) type code (quoted p h)"
    using made icmp_error_packet_eq [OF mem h eh, of sr type code] by auto
  have e: "ld_eth fr 0 = Some \<lparr>ether_dhost = ether_shost eh, ether_shost = if_addr out,
      ether_type = htons ethertype_ip\<rparr>"
    unfolding out(2) by (simp add: icmp_error_frame_def Let_def ld_def load_def eth.length_enc eth.dec_enc)
  have v: "\<exists>s. ip_valid fr \<lparr>ip_hl = 5, ip_v = 4, ip_tos = 0, ip_len = htons 56, ip_id = 0, ip_off = 0,
      ip_ttl = INIT_TTL, ip_p = ip_protocol_icmp, ip_sum = s, ip_src = if_ip out, ip_dst = ip_src h\<rparr>"
    using icmp_error_frame_valid [OF length_quoted, of out "ether_shost eh" "ip_src h" type code p h]
    unfolding out(2) by (auto simp: icmp_error_ip_def)
  have "\<exists>x. take 8 (drop 34 fr) = [type, code] @ bytes16 x @ [0, 0, 0, 0]"
    using icmp_error_frame_layout(1) [OF length_quoted] unfolding out(2) by blast
  moreover have "drop 42 fr = take (tlen h) (take 28 (drop 14 p)) @ replicate (28 - tlen h) 0"
  proof -
    have "28 - length (quoted p h) = 28 - tlen h" using b by (simp add: quoted_def)
    moreover have "quoted p h = take (tlen h) (take 28 (drop 14 p))"
      by (simp add: quoted_def min.commute)
    ultimately show ?thesis
      using icmp_error_frame_layout(2) [OF length_quoted] unfolding out(2) by metis
  qed
  moreover have "drop 34 fr = take 8 (drop 34 fr) @ drop 42 fr"
    using append_take_drop_id [of 8 "drop 34 fr"] by simp
  moreover have "length fr = 70" unfolding out(2) by (simp add: length_quoted)
  moreover have "word_sum (drop 34 fr) mod 65535 = 0"
    unfolding out(2) by (rule icmp_error_frame_icmp [OF length_quoted])
  ultimately show ?thesis using h eh out(1) e v by force
qed
theorem icmp_error_wellformed_witness:
  "\<exists>fr s. icmp_error_packet ideal_env rtr3 (ip_frame 1 17 dst_b) (length (ip_frame 1 17 dst_b)) 11 0 = Some (Some fr) \<and>
    length fr = 70 \<and> take 2 (drop 34 fr) = [11, 0] \<and> word_sum (drop 34 fr) mod 65535 = 0 \<and>
    ip_valid fr \<lparr>ip_hl = 5, ip_v = 4, ip_tos = 0, ip_len = htons 56, ip_id = 0, ip_off = 0,
      ip_ttl = INIT_TTL, ip_p = ip_protocol_icmp, ip_sum = s, ip_src = if_ip eth0, ip_dst = ip4 10 0 0 2\<rparr>"
proof -
  obtain fr where fr: "icmp_error_packet ideal_env rtr3 (ip_frame 1 17 dst_b) (length (ip_frame 1 17 dst_b)) 11 0 =
      Some (Some fr)"
    using icmp_error_packet_eq [OF _ frame_valid [of 1 17 dst_b] frame_eth(1), of ideal_env rtr3 11 0] ideal_env_ok
    by (simp add: rtr3_knows)
  obtain h eh out s x where w: "ip_valid (ip_frame 1 17 dst_b) h"
    "ld_eth (ip_frame 1 17 dst_b) 0 = Some eh" "sr_find_icmp_source_iface rtr3 eh (ip_src h) = Some out" "length fr = 70"
    "drop 34 fr = [11, 0] @ bytes16 x @ [0, 0, 0, 0] @ take (tlen h) (take 28 (drop 14 (ip_frame 1 17 dst_b))) @
       replicate (28 - tlen h) 0" "word_sum (drop 34 fr) mod 65535 = 0"
    "ip_valid fr \<lparr>ip_hl = 5, ip_v = 4, ip_tos = 0, ip_len = htons 56, ip_id = 0, ip_off = 0,
      ip_ttl = INIT_TTL, ip_p = ip_protocol_icmp, ip_sum = s, ip_src = if_ip out, ip_dst = ip_src h\<rparr>"
    using icmp_error_wellformed [OF fr] by (elim exE conjE) (rule that)
  have "h = hdr 1 17 dst_b" using w(1) frame_valid [of 1 17 dst_b] by (simp add: ip_valid_def ip_shape_def)
  with w(2,3) have "out = eth0" using rtr3_knows(1) by auto
  with fr w \<open>h = _\<close> show ?thesis by force
qed

section \<open>ARP\<close>

text \<open>
  C12 (functional). An ARP request for the address of the interface it arrives on is answered on that
  interface with the interface's hardware address; whatever its target, the sender's address is
  learned from it and the packets that waited for the sender go out first.
\<close>

theorem arp_request_answered:
  assumes e: "env_ok e" and run: "running sr"
    and eh: "ld_eth p 0 = Some eh" "ntohs (ether_type eh) = ethertype_arp"
    and a: "ld_arp p 14 = Some a" and i: "sr_get_interface sr iface = Some rcv"
    and sip: "ar_sip a \<noteq> 0" and oper: "ntohs (ar_op a) = arp_op_request"
  shows "\<exists>sr'. sr_handlepacket e sr p (length p) iface = Some sr' \<and>
    cache sr' = cache_learn e (cache sr) (ar_sha a) (ar_sip a) \<and>
    sock_out sr' = sock_out sr @ flush_msgs sr (ar_sha a) (waiting_for sr (ar_sip a)) @
      (if ar_tip a = if_ip rcv then [vns_packet iface (arp_reply_frame rcv a)] else [])"
proof -
  have inv: "router_inv sr" using run by (simp add: running_def)
  show ?thesis
    using sip oper
    by (simp add: handlepacket_arp [OF eh] handle_arp_eq [OF e inv ld_arp_len [OF a] a i])
qed

theorem arp_request_answered_witness:
  "\<exists>sr'. sr_handlepacket ideal_env rtr0 (arp_frame question_a) (length (arp_frame question_a)) ''eth0'' = Some sr' \<and>
    cache sr' = cache_learn ideal_env (cache rtr0) (ar_sha question_a) (ar_sip question_a) \<and>
    sock_out sr' = sock_out rtr0 @ flush_msgs rtr0 (ar_sha question_a) (waiting_for rtr0 (ar_sip question_a)) @
      (if ar_tip question_a = if_ip eth0 then [vns_packet ''eth0'' (arp_reply_frame eth0 question_a)] else [])"
  by (rule arp_request_answered [OF ideal_env_ok rtr0_running frame_eth(2,3) frame_arp])
    (simp_all add: rtr0_facts ip4_10_0_0_2)

text \<open>
  What is not for the handlers is dropped without a trace: frames too short for an
  Ethernet header, frames that carry neither ARP nor IP, IP packets that fail validation, ARP
  packets that are cut short.
\<close>

theorem junk_dropped:
  assumes "length p < 14 \<or>
    (\<exists>eh. ld_eth p 0 = Some eh \<and>
       (ntohs (ether_type eh) \<notin> {ethertype_arp, ethertype_ip} \<or>
        ntohs (ether_type eh) = ethertype_ip \<and> (\<nexists>h. ip_valid p h) \<or>
        ntohs (ether_type eh) = ethertype_arp \<and> length p < 42))"
  shows "sr_handlepacket e sr p (length p) iface = Some sr"
  using assms
proof
  assume "length p < 14"
  then show ?thesis by (simp add: sr_handlepacket_def)
next
  assume "\<exists>eh. ld_eth p 0 = Some eh \<and>
       (ntohs (ether_type eh) \<notin> {ethertype_arp, ethertype_ip} \<or>
        ntohs (ether_type eh) = ethertype_ip \<and> (\<nexists>h. ip_valid p h) \<or>
        ntohs (ether_type eh) = ethertype_arp \<and> length p < 42)"
  then show ?thesis
    using handle_ip_invalid [of p e sr iface]
    by (auto simp: handlepacket_type sr_handle_arp_def ethertype_ip_def ethertype_arp_def)
qed

theorem junk_dropped_witness:
  "sr_handlepacket ideal_env rtr0 [1, 2, 3] (length [1, 2, 3 :: u8]) ''eth0'' = Some rtr0"
  by (rule junk_dropped) simp

section \<open>Routing\<close>

text \<open>
  C13 (equivalence). The single pass of the route lookup finds exactly what the declarative reading of
  longest-prefix match asks for: a matching route whose mask is largest, the first of those in
  the table; and none exactly when no route matches. On a table whose masks are prefixes that is
  the route with the longest prefix: comparing masks as host-order numbers is comparing lengths.
\<close>

theorem lpm_correct:
  "(sr_find_lpm_route sr ip = Some r \<longleftrightarrow>
      (\<exists>i. best_route (routing_table sr) ip i \<and> routing_table sr ! i = r)) \<and>
   (sr_find_lpm_route sr ip = None \<longleftrightarrow> (\<forall>rt \<in> set (routing_table sr). \<not> rt_matches rt ip)) \<and>
   (sr_find_lpm_route sr ip = Some r \<longrightarrow>
      (\<forall>rt \<in> set (routing_table sr). plen rt \<le> 32 \<and> ntohl (rt_mask rt) = prefix_mask (plen rt)) \<longrightarrow>
      r \<in> set (routing_table sr) \<and> rt_matches r ip \<and>
      (\<forall>rt \<in> set (routing_table sr). rt_matches rt ip \<longrightarrow> plen rt \<le> plen r))"
  using lpm_Some_iff lpm_None_iff lpm_is_longest [of sr ip r plen] by blast

theorem lpm_correct_witness:
  "sr_find_lpm_route rtr0 dst_b = Some (routes ! 1) \<and>
   (\<exists>i. best_route (routing_table rtr0) dst_b i \<and> routing_table rtr0 ! i = routes ! 1) \<and>
   routes ! 1 \<in> set (routing_table rtr0) \<and> rt_matches (routes ! 1) dst_b"
  using lpm_correct [of rtr0 dst_b "routes ! 1" "\<lambda>_. 24"] rtr0_route by (simp add: routes_masks)

text \<open>
  A table that \<^verbatim>\<open>sr_verify_routing_table\<close> accepts never sends a packet to an interface
  that does not exist: every destination that has a route has an interface and a next hop.
\<close>

theorem verified_table_usable:
  assumes "sr_verify_routing_table sr = 0"
  shows "route_to sr ip = None \<longleftrightarrow> (\<forall>rt \<in> set (routing_table sr). \<not> rt_matches rt ip)"
proof -
  have "sr_get_interface sr (rt_interface rt) \<noteq> None" if "sr_find_lpm_route sr ip = Some rt" for rt
    using assms that by (auto simp: verify_0_iff lpm_Some_iff dest: best_route_matches)
  then show ?thesis by (auto simp: route_to_def lpm_None_iff [symmetric] split: option.splits)
qed

theorem verified_table_usable_witness:
  "sr_verify_routing_table rtr0 = 0 \<and> route_to rtr0 dst_b \<noteq> None \<and>
   (\<exists>rt. rt \<in> set (routing_table rtr0) \<and> rt_matches rt dst_b)"
  using verified_table_usable [OF rtr0_verified, of dst_b] rtr0_facts(1) rtr0_verified by auto

section \<open>The ARP cache\<close>

text \<open>
  C14 (refinement). The array of 100 entries implements a finite map from IP to hardware addresses:
  inserting is a map update, except that nothing happens when the address is new and every entry
  is in use.
\<close>

theorem arp_table_refines_map:
  assumes "table_inv c"
  shows "arp_mac (snd (sr_arpcache_insert e c m ip)) =
    (if table_full c ip then arp_mac c else (arp_mac c)(ip \<mapsto> m))"
  using tbl.insert_refines_map [OF assms] by (simp add: cache_learn_def)

theorem arp_table_refines_map_witness:
  "arp_mac (snd (sr_arpcache_insert ideal_env sr_arpcache_init host_b dst_b)) =
    (if table_full sr_arpcache_init dst_b then arp_mac sr_arpcache_init
     else (arp_mac sr_arpcache_init)(dst_b \<mapsto> host_b))"
  by (rule arp_table_refines_map) (use init_inv in \<open>simp add: cache_inv_def\<close>)

text \<open>
  C15 (functional). A round of the timer forgets exactly the entries that are more than
  \<open>SR_ARPCACHE_TO\<close> seconds old: a lookup finds what it found before if that is fresh, and nothing
  otherwise.
\<close>

theorem expiry_exact:
  assumes "table_inv c"
  shows "lookup_loop (entries (expire_entries t c)) ip None =
    (case lookup_loop (entries c) ip None of
       None \<Rightarrow> None | Some en \<Rightarrow> if t - ent_added en \<le> 15 then Some en else None)"
  using expire_lookup [OF assms, of t ip] unfolding fresh_def SR_ARPCACHE_TO_def .

theorem expiry_exact_witness:
  "lookup_loop (entries (expire_entries 20 (cache rtr1))) dst_b None =
    (case lookup_loop (entries (cache rtr1)) dst_b None of
       None \<Rightarrow> None | Some en \<Rightarrow> if 20 - ent_added en \<le> 15 then Some en else None)"
  by (rule expiry_exact) (use rtr1_running in \<open>simp add: running_def router_inv_def cache_inv_def\<close>)

text \<open>
  C16 (refinement). The request queue is a map from next hops to stacks of packets: queueing pushes a
  copy of the packet under its next hop, opening a request if there is none, and leaves all others
  alone; the table of addresses does not change.
\<close>

theorem queue_refines_map:
  assumes "queue_inv c" and "env_ok e" and "buf \<noteq> []"
  shows "\<exists>a c'. sr_arpcache_queuereq e c ip buf (length buf) iface = Some (a, c') \<and>
    pending c' = (pending c)(ip \<mapsto> \<lparr>pkt_buf = buf, pkt_len = length buf, pkt_iface = take 32 iface\<rparr> #
      (case pending c ip of None \<Rightarrow> [] | Some ps \<Rightarrow> ps)) \<and>
    entries c' = entries c \<and> (\<exists>r. deref_req c' a = Some r \<and> req_ip r = ip)"
proof -
  have ok: "queue_ok e (length buf)" using assms(2) by simp
  obtain a c' r where q: "sr_arpcache_queuereq e c ip buf (length buf) iface = Some (a, c')"
      "find_req (requests c') ip = Some r" "req_self r = a"
    using queuereq_find [OF assms(1) ok assms(3)] by metis
  have inv: "queue_inv c'" by (rule queuereq_queue_inv [OF assms(1) q(1)])
  have "deref_req c' a = Some r" "req_ip r = ip"
    using deref_req_unique [OF inv, of r] q find_req_Some [OF q(2)] by auto
  with q(1) pending_queuereq [OF assms(1) ok assms(3) q(1)] queuereq_entries [OF q(1)]
  show ?thesis by (simp add: queued_packet_def strncpy_def sr_IFACE_NAMELEN_def)
qed

theorem queue_refines_map_witness:
  "\<exists>a c'. sr_arpcache_queuereq ideal_env (cache rtr2) dst_b [1, 2] (length [1, 2 :: u8]) ''eth1'' = Some (a, c') \<and>
    pending c' = (pending (cache rtr2))(dst_b \<mapsto>
      \<lparr>pkt_buf = [1, 2], pkt_len = length [1, 2 :: u8], pkt_iface = take 32 ''eth1''\<rparr> #
      (case pending (cache rtr2) dst_b of None \<Rightarrow> [] | Some ps \<Rightarrow> ps)) \<and>
    entries c' = entries (cache rtr2) \<and> (\<exists>r. deref_req c' a = Some r \<and> req_ip r = dst_b)"
  by (rule queue_refines_map)
    (use rtr2_running in \<open>simp_all add: running_def router_inv_def cache_inv_def\<close>)

text \<open>
  An insertion hands over the waiting request of the address, once: it returns the
  queue's entry, which is no longer in the queue afterwards, and every other request stays --- also
  when the table is full and the mapping itself is lost.
\<close>

theorem insert_releases_request:
  assumes "queue_inv c"
  shows "map_option req_packets (fst (sr_arpcache_insert e c m ip)) = pending c ip \<and>
    pending (snd (sr_arpcache_insert e c m ip)) = (pending c)(ip := None)"
  using pending_insert [OF assms] by (simp add: insert_requests pending_def)

theorem insert_releases_request_witness:
  "map_option req_packets (fst (sr_arpcache_insert ideal_env (cache rtr2) host_b dst_b)) = pending (cache rtr2) dst_b \<and>
    pending (snd (sr_arpcache_insert ideal_env (cache rtr2) host_b dst_b)) = (pending (cache rtr2))(dst_b := None)"
  by (rule insert_releases_request)
    (use rtr2_running in \<open>simp add: running_def router_inv_def cache_inv_def\<close>)

text \<open>
  C17 (invariant). In every state that whole handlers and whole rounds of the timer lead to from the one
  \<^verbatim>\<open>sr_init\<close> leaves: the table has its 100 entries and at most one
  valid one per IP address; there is at most one request per IP address; each has been sent at
  least once and at most five times, and has a packet that waits for it. And from there on, in
  every state that any schedule of the two threads comes to, with frames coming in and the timer cutting
  in between any two of their pieces: the same, except that a request may have been counted a sixth time,
  and that one which the receiving thread holds a pointer to may not have been sent yet.
\<close>

theorem reachable_invariant:
  assumes "reachable sr0 sr" and "names_ok sr0"
  shows "length (entries (cache sr)) = 100 \<and> one_per_ip (entries (cache sr)) \<and>
    distinct (map req_ip (requests (cache sr))) \<and>
    (\<forall>r \<in> set (requests (cache sr)). 1 \<le> req_times_sent r \<and> req_times_sent r \<le> 5 \<and> req_packets r \<noteq> []) \<and>
    (\<forall>acts s. (\<forall>a \<in> set acts. act_ok a) \<longrightarrow> program_run acts (resting sr) = Some s \<longrightarrow>
       length (entries (cache (config_of s))) = 100 \<and> one_per_ip (entries (cache (config_of s))) \<and>
       distinct (map req_ip (requests (cache (config_of s)))) \<and>
       (\<forall>r \<in> set (requests (cache (config_of s))). req_packets r \<noteq> [] \<and> req_times_sent r \<le> 6 \<and>
          (1 \<le> req_times_sent r \<or> req_self r \<in> held (pc_of s))))"
proof -
  have run: "running sr" using reachable_running [OF assms] by simp
  have "program_ok 6 s" if "\<forall>a \<in> set acts. act_ok a" "program_run acts (resting sr) = Some s" for acts s
    using program_run_keeps [OF resting_ok [OF run] that] by simp
  then show ?thesis
    using run
    by (auto simp: running_def router_inv_def cache_inv_def table_inv_def queue_inv_def asked_def SR_ARPCACHE_SZ_def
        program_ok_def program_inv_def running_but_def asked_but_def)
qed

theorem reachable_invariant_witness:
  "\<exists>sr r s. reachable rtr0 sr \<and> requests (cache sr) = [r] \<and> length (entries (cache sr)) = 100 \<and>
    req_times_sent r = 1 \<and> req_packets r \<noteq> [] \<and>
    program_run (Frame ideal_env (ip_frame 64 17 dst_b) ''eth0'' # replicate 2 (Move (Timer ideal_env)) @
      replicate 3 (Move (Receiver ideal_env))) (resting sr) = Some s \<and>
    length (entries (cache (config_of s))) = 100 \<and> distinct (map req_ip (requests (cache (config_of s))))"
proof -
  let ?p = "ip_frame 64 17 dst_b"
  let ?sr = "emit ideal_env (if_name eth1) (arp_request_frame eth1 dst_b)
    (rtr0\<lparr>cache := open_request ideal_env (cache rtr0) dst_b
      (queued_packet (resource (if_addr eth1) (forwarded ?p (hdr 64 17 dst_b))) (if_name eth1))\<rparr>)"
  let ?acts = "Frame ideal_env ?p ''eth0'' # replicate 2 (Move (Timer ideal_env)) @ replicate 3 (Move (Receiver ideal_env))"
  have init: "sr_init rtr0 = rtr0" by (simp add: sr_init_def rtr0_def)
  have "sr_handlepacket ideal_env rtr0 ?p (length ?p) ''eth0'' = Some ?sr"
    using handle_ip_forwards [OF frame_valid [of 64 17 dst_b], of rtr0 ideal_env "''eth0''"]
      send_forwarded_first_miss [OF ideal_env_ok rtr0_running frame_valid [of 64 17 dst_b], of eth1 dst_b]
    unfolding handlepacket_ip [OF frame_eth(1,3)] by (simp add: rtr0_facts)
  then have "step (sr_init rtr0) (Receive ideal_env ?p ''eth0'') ?sr"
    unfolding init by (intro step.receive) (simp_all add: ideal_env_ok)
  then have sr: "reachable rtr0 ?sr" by (rule reachable.more [OF reachable.start])
  note inv = reachable_invariant [OF sr rtr_names(1)]
  have run: "running ?sr" using reachable_running [OF sr rtr_names(1)] by simp
  have ok: "\<forall>a \<in> set ?acts. act_ok a" using ideal_env_ok by simp
  obtain s where s: "program_run ?acts (resting ?sr) = Some s"
    using undisturbed_run [OF resting_ok [OF run order_refl] resting_not_stuck ok undisturbed_frame] by blast
  have q: "\<exists>r. requests (cache ?sr) = [r] \<and> req_times_sent r = 1"
    by (simp add: open_request_def rtr0_def sr_arpcache_init_def)
  then show ?thesis using inv ok s sr by (metis list.set_intros(1))
qed

section \<open>The timer\<close>

text \<open>
  C18 (termination). The sweep over the request list ends although its body sends packets, opens
  requests and destroys the one it stands on: it visits each request that was there when it
  began exactly once, in list order, and none of those opened meanwhile.
\<close>

theorem sweep_terminates:
  assumes "env_ok e" and "running sr"
  shows "\<exists>sr'. sr_arpcache_sweepreqs e sr = Some sr' \<and>
    sweep_all e sr (map req_self (requests (cache sr))) = Some sr' \<and> running sr'"
  using sweepreqs_eq [OF assms] by metis

theorem sweep_terminates_witness:
  "\<exists>sr'. sr_arpcache_sweepreqs ideal_env rtr2 = Some sr' \<and>
    sweep_all ideal_env rtr2 (map req_self (requests (cache rtr2))) = Some sr' \<and> running sr'"
  by (rule sweep_terminates [OF ideal_env_ok rtr2_running])

text \<open>
  C19 (functional). A request that was last sent a second ago or more, and fewer than five times, is
  sent again: one ARP request on the interface of the packet queued last, and the counter and the
  time of the request advance.
\<close>

theorem due_request_is_repeated:
  assumes e: "env_ok e" and run: "running sr" and r: "deref_req (cache sr) a = Some r"
    and due: "1 \<le> now e - req_sent r" and few: "req_times_sent r < 5"
    and out: "sr_get_interface sr (pkt_iface (hd (req_packets r))) = Some out"
  shows "\<exists>sr'. sweep_req e sr a = Some sr' \<and>
    sock_out sr' = sock_out sr @
      [vns_packet (pkt_iface (hd (req_packets r))) (arp_request_frame out (req_ip r))] \<and>
    deref_req (cache sr') a = Some (r\<lparr>req_sent := now e, req_times_sent := req_times_sent r + 1\<rparr>)"
proof -
  obtain sr1 where s: "sr_send_arp_request e sr (req_ip r) (pkt_iface (hd (req_packets r))) = Some sr1"
      "sweep_req e sr a = Some (sr1\<lparr>cache := update_req a (mark_sent e) (cache sr)\<rparr>)"
    by (rule sweep_req_retry [OF e run r due few])
  then have "sock_out sr1 = sock_out sr @
      [vns_packet (pkt_iface (hd (req_packets r))) (arp_request_frame out (req_ip r))]"
    using send_arp_request_emit [OF e out] by auto
  with s(2) r show ?thesis by (simp add: deref_req_update) (simp add: mark_sent_def)
qed

theorem due_request_is_repeated_witness:
  "\<exists>sr'. sweep_req (ideal_env\<lparr>now := 1\<rparr>) rtr2 1 = Some sr' \<and>
    sock_out sr' = sock_out rtr2 @
      [vns_packet (pkt_iface (hd (req_packets rq2))) (arp_request_frame eth1 (req_ip rq2))] \<and>
    deref_req (cache sr') 1 =
      Some (rq2\<lparr>req_sent := now (ideal_env\<lparr>now := 1\<rparr>), req_times_sent := req_times_sent rq2 + 1\<rparr>)"
  by (rule due_request_is_repeated [OF _ rtr2_running rtr2_request])
    (simp_all add: rq2_facts rtr2_config env_ok_def ideal_env_def)

text \<open>
  C20 (functional). A request that was sent five times and got no answer is given up: for every packet
  that waited, the ICMP host-unreachable message (type 3 code 1) about it goes out to its sender,
  in queue order, here where all their routes and next hops are known, and the request is gone.
\<close>

theorem unanswered_request_is_given_up:
  assumes e: "env_ok e" and run: "running sr" and r: "deref_req (cache sr) a = Some r"
    and due: "1 \<le> now e - req_sent r" and five: "5 \<le> req_times_sent r"
    and outs: "list_all2 (\<lambda>q nf. error_frame sr (pkt_buf q) 3 1 = Some nf) (req_packets r) outs"
  shows "\<exists>sr'. sweep_req e sr a = Some sr' \<and>
    sock_out sr' = sock_out sr @ map (\<lambda>(name, fr). vns_packet name fr) outs \<and>
    pending (cache sr') = (pending (cache sr))(req_ip r := None)"
proof -
  have inv: "names_ok sr" "queue_inv (cache sr)" and ok: "\<forall>q \<in> set (req_packets r). pkt_ok q"
    using run deref_req_Some [OF r]
    by (auto simp: running_def router_inv_def cache_inv_def queue_pkts_ok_def)
  let ?sr1 = "fold (\<lambda>(name, fr). emit e name fr) outs sr"
  have "sweep_packets e sr (req_packets r) = Some ?sr1" by (rule sweep_packets_emit [OF e inv(1) ok outs])
  then have "sweep_req e sr a = Some (?sr1\<lparr>cache := sr_arpreq_destroy (cache ?sr1) a\<rparr>)"
    using r due five by (simp add: sweep_req_def)
  with fold_emit [of e outs sr] pending_destroy [OF inv(2) r] show ?thesis by simp
qed

theorem unanswered_request_is_given_up_witness:
  "\<exists>sr'. sweep_req (ideal_env\<lparr>now := 1\<rparr>) rtr4 1 = Some sr' \<and>
    sock_out sr' = sock_out rtr4 @ map (\<lambda>(name, fr). vns_packet name fr) outs4 \<and>
    pending (cache sr') = (pending (cache rtr4))(req_ip rq4 := None)"
  by (rule unanswered_request_is_given_up [OF _ rtr4_running rtr4_request])
    (simp_all add: rq4_facts env_ok_def ideal_env_def)

text \<open>
  C21 (liveness). No request waits for ever: whatever arrives in between, once the timer has run five
  times at distinct later times, a request that was in the queue is gone (answered or given up),
  and its address has not been taken by another.
\<close>

theorem requests_end:
  assumes "running sr" and "\<forall>ev \<in> set evs. event_ok ev" and "sorted_wrt (<) (tick_times evs)"
    and "r \<in> set (requests (cache sr))" and "\<forall>t \<in> set (tick_times evs). req_sent r < t"
    and "5 \<le> length (tick_times evs)"
  shows "\<exists>sr'. run evs sr = Some sr' \<and> deref_req (cache sr') (req_self r) = None"
proof -
  obtain sr' where sr': "run evs sr = Some sr'" "running sr'"
    using rtr.run_all_safe [OF assms(1,2)] by (auto simp: run_run_all)
  have q: "queue_inv (cache sr)" using assms(1) by (simp add: running_def router_inv_def cache_inv_def)
  have "deref_req (cache sr') (req_self r) \<noteq> Some r'" for r'
  proof
    assume "deref_req (cache sr') (req_self r) = Some r'"
    then have r': "r' \<in> set (requests (cache sr'))" "req_self r' = req_self r" by (auto dest: deref_req_Some)
    have "req_self r' < next_addr (cache sr)" using q assms(4) r'(2) by (simp add: queue_inv_def)
    from request_ages [OF assms(1-3) sr'(1) r'(1) this] obtain r0 where
      r0: "r0 \<in> set (requests (cache sr))" "req_self r0 = req_self r'"
        "(\<forall>t \<in> set (tick_times evs). req_sent r0 < t) \<longrightarrow>
          unat (req_times_sent r0) + length (tick_times evs) \<le> unat (req_times_sent r')" by blast
    have "r0 = r" using deref_req_unique [OF q] r0(1,2) assms(4) r'(2) by (metis option.inject)
    then have "1 \<le> req_times_sent r0" using assms(1,4) by (simp add: running_def asked_def)
    moreover have "req_times_sent r' \<le> 5" using sr'(2) r'(1) by (simp add: running_def asked_def)
    ultimately show False using r0(3) \<open>r0 = r\<close> assms(5,6) by (simp add: word_le_nat_alt)
  qed
  with sr' show ?thesis by auto
qed

theorem requests_end_witness:
  "\<exists>sr'. run (map (\<lambda>t. Tick (ideal_env\<lparr>now := t\<rparr>)) [1, 2, 3, 4, 5]) rtr2 = Some sr' \<and>
    deref_req (cache sr') (req_self rq2) = None"
  by (rule requests_end [OF rtr2_running])
    (simp_all add: rtr2_requests rq2_facts env_ok_def ideal_env_def)

section \<open>The two threads\<close>

text \<open>
  The program with two threads is the one the theorems above speak of: a frame
  taken through the pieces of its handler - cut where the cache's lock is taken and released and
  where a request is read and written without it - with the timer asleep is
  \<^verbatim>\<open>sr_handlepacket\<close>, in every state and with every outcome of the allocations and writes, faults
  included; and the visits of a round make up \<^verbatim>\<open>sr_arpcache_timeout\<close>.
\<close>

theorem pieces_make_program:
  "program_run (Frame e p iface # replicate (frame_turns sr p) (Move (Receiver e))) (resting sr) =
     map_option resting (sr_handlepacket e sr p (length p) iface) \<and>
   (env_ok e \<and> running sr \<longrightarrow>
     program_run (replicate (round_turns sr) (Move (Timer e))) (resting sr) =
     map_option resting (sr_arpcache_timeout e sr))"
  using handler_in_steps round_in_steps by blast

theorem pieces_make_program_witness:
  "program_run (replicate (round_turns rtr2) (Move (Timer ideal_env))) (resting rtr2) =
     map_option resting (sr_arpcache_timeout ideal_env rtr2)"
  using pieces_make_program [of ideal_env "[]" "''eth0''" rtr2] ideal_env_ok rtr2_running by blast

text \<open>
  The main loop of \<^verbatim>\<open>main\<close>, call after call of \<^verbatim>\<open>sr_read_from_server\<close>, is one of the
  schedules of the process in which the receiving thread and the timer thread run beside each
  other: the one in which the timer sleeps. They agree in every state and on every input, on
  where the loop waits, on what ends it and on every fault.
\<close>

theorem main_loop_in_steps:
  "live_run (loop_acts vs ss) (at_rest ss) = map_option loop_left (main_loop vs ss)"
  by (rule loop_in_steps)

text \<open>
  C22 (safety). What the missing lock around requests can do to a session, and all it can do: once the interfaces have been
  announced, let a server send any sequence of frames for them, banners and a
  closing message, let its bytes arrive in any portions at any time, let signals interrupt the
  reading, and let the timer thread come at any moment. Then the process goes wrong exactly when
  the receiving thread moves on while it holds a pointer to a request that the timer has
  destroyed. As far as it gets, the messages have been taken whole, in order and once each;
  interfaces and routes are untouched, and the session is
  over if and only if the closing message has been taken. Further hardware information is left
  out: installing it while the timer runs can fault in another way (\<open>unknown_interface_faults\<close>).
\<close>

theorem live_session_only_fault:
  assumes "running (router ss)" and "Failed \<notin> set (sock_in ss)" and "\<forall>a \<in> set acts. live_ok a"
    and "msgs_ok (names_of (router ss)) ms"
    and "stream_data (sock_in ss) @ arrived acts @ later = concat (map msg_bytes ms)"
  shows "(live_run acts (at_rest ss) = None \<longleftrightarrow>
      (\<exists>before e after l a. acts = before @ Turn (Receiver e) # after \<and> live_run before (at_rest ss) = Some l \<and>
         \<not> lv_over l \<and> a \<in> held (pc_of (lv_program l)) \<and> gone (cache (live_router l)) a)) \<and>
    (case live_run acts (at_rest ss) of None \<Rightarrow> True | Some l \<Rightarrow>
       \<exists>ds rest. ms = ds @ rest \<and> stream_data (lv_in l) @ later = concat (map msg_bytes rest) \<and>
         same_config (router ss) (live_router l) \<and> (lv_over l \<longleftrightarrow> (\<exists>m \<in> set ds. closes m)))"
proof -
  have I: "live_inv 6 ms (arrived acts @ later) (at_rest ss)"
    using live_inv_at_rest [OF assms(1,2,4,5)] by simp
  have "\<exists>ds rest. ms = ds @ rest \<and> stream_data (lv_in l) @ later = concat (map msg_bytes rest) \<and>
      same_config (router ss) (live_router l) \<and> (lv_over l \<longleftrightarrow> (\<exists>m \<in> set ds. closes m))"
    if "live_run acts (at_rest ss) = Some l" for l
    using live_run_any [OF I assms(3) that] by (auto simp: took_def live_inv_def)
  then show ?thesis
    using live_run_None [OF I assms(3)] unfolding stuck_def dangling_def
    by (auto simp: bex_simps split: option.split)
qed

theorem live_session_only_fault_witness:
  "live_run (watched @ [Turn (Timer ideal_env), Turn (Receiver ideal_env)]) (at_rest (session4 rtr4)) = None \<longleftrightarrow>
    (\<exists>before e after l a. watched @ [Turn (Timer ideal_env), Turn (Receiver ideal_env)] =
         before @ Turn (Receiver e) # after \<and>
       live_run before (at_rest (session4 rtr4)) = Some l \<and> \<not> lv_over l \<and> a \<in> held (pc_of (lv_program l)) \<and>
       gone (cache (live_router l)) a)"
  using live_session_only_fault [of "session4 rtr4" "watched @ [Turn (Timer ideal_env), Turn (Receiver ideal_env)]"
      "[frame4]" "[]"] rtr4_running watched_facts frame4_ok [OF rtr4_ifaces] ideal_env_ok
  by simp

text \<open>
  C23 (liveness). In such a session, of frames, banners and a closing message after the interfaces have been
  announced, it is enough that the timer does not come between two accesses to a request, from
  \<^verbatim>\<open>sr_arpcache_queuereq\<close> to the counting of the request sent: then every such schedule runs without a
  fault, and from wherever it has come to, once the rest of the messages has arrived, the process
  can work all of them off, until both threads rest with nothing left to read and the router in
  a regular state, or the session has been closed.
\<close>

theorem live_session_safe:
  fixes v :: os
  assumes "running (router ss)" and "Failed \<notin> set (sock_in ss)" and "\<forall>a \<in> set acts. live_ok a"
    and "msgs_ok (names_of (router ss)) ms"
    and "stream_data (sock_in ss) @ arrived acts @ later = concat (map msg_bytes ms)"
    and quiet: "live_undisturbed acts (at_rest ss)" and e: "env_ok (base v)"
  shows "\<exists>l l'. live_run acts (at_rest ss) = Some l \<and> leads_to (l\<lparr>lv_in := lv_in l @ [Bytes later]\<rparr>) l' \<and>
    worked_off l'"
proof -
  have I: "live_inv 5 ms (arrived acts @ later) (at_rest ss)"
    using live_inv_at_rest [OF assms(1,2,4,5)] by simp
  obtain l ds rest where l: "live_run acts (at_rest ss) = Some l" "live_inv 5 rest later l" "\<not> stuck (lv_program l)"
    using live_run_ok [OF I _ assms(3) quiet] by auto
  from l(2) have "live_inv 5 rest [] (l\<lparr>lv_in := lv_in l @ [Bytes later]\<rparr>)" by (simp add: live_inv_def)
  with live_works_off [OF e] l(1,3) show ?thesis by fastforce
qed

theorem live_session_safe_witness:
  "\<exists>l l'. live_run (Turn (Timer ideal_env) # watched) (at_rest (session4 rtr2)) = Some l \<and>
    leads_to (l\<lparr>lv_in := lv_in l @ [Bytes (concat (map msg_bytes [Banner_Msg ''soon'', Close_Msg ''bye'']))]\<rparr>) l' \<and>
    worked_off l'"
proof (rule live_session_safe [OF _ _ _ _ _ watched_undisturbed, where v = os0])
  show "msgs_ok (names_of (router (session4 rtr2))) [frame4, Banner_Msg ''soon'', Close_Msg ''bye'']"
    using farewell_ok [OF rtr12_config(2)] by simp
qed (use watched_facts in \<open>simp_all add: rtr2_running ideal_env_ok\<close>)

text \<open>
  The same for frames alone, whatever interfaces they name: in every schedule of the two
  threads, with any frames and any number of rounds cutting in anywhere, the program goes wrong
  exactly when the receiving thread moves on while it holds a pointer to a request that the timer
  has destroyed. There is no other fault, and as far as the program gets the configuration is
  untouched and the cache, the queue and the queued packets are well-formed.
\<close>

theorem stale_request_only_fault:
  assumes "running sr" and "\<forall>a \<in> set acts. act_ok a"
  shows "(program_run acts (resting sr) = None \<longleftrightarrow>
      (\<exists>before e after s a. acts = before @ Move (Receiver e) # after \<and> program_run before (resting sr) = Some s \<and>
         a \<in> held (pc_of s) \<and> gone (cache (config_of s)) a)) \<and>
    (program_run acts (resting sr) = Some s1 \<longrightarrow> same_config sr (config_of s1) \<and> router_inv (config_of s1))"
proof -
  have I: "program_ok 6 (resting sr)" by (rule resting_ok [OF assms(1)]) simp
  have "router_inv (config_of s1)" if "program_ok 6 s1"
    using that by (simp add: program_ok_def program_inv_def running_but_def)
  with program_run_None [OF I assms(2)] program_run_keeps [OF I assms(2), of s1] show ?thesis
    unfolding stuck_def dangling_def by (auto simp: bex_simps)
qed

theorem stale_request_only_fault_witness:
  "program_run [Frame ideal_env (ip_frame 64 17 dst_b) ''eth0'', Move (Receiver ideal_env), Move (Timer ideal_env)]
      (resting rtr4) = None \<longleftrightarrow>
    (\<exists>before e after s a. [Frame ideal_env (ip_frame 64 17 dst_b) ''eth0'', Move (Receiver ideal_env),
         Move (Timer ideal_env)] = before @ Move (Receiver e) # after \<and> program_run before (resting rtr4) = Some s \<and>
       a \<in> held (pc_of s) \<and> gone (cache (config_of s)) a)"
  by (rule stale_request_only_fault [OF rtr4_running, THEN conjunct1]) (use ideal_env_ok in simp)

text \<open>
  And if the timer does not come between two accesses to a request, every schedule, with rounds
  cutting into the handlers everywhere else, runs without a fault, leaves the configuration
  alone, and finds the router in a regular state after every frame; and at any moment the threads
  can come to rest.
\<close>

theorem undisturbed_program_safe:
  assumes run: "running sr" and ok: "\<forall>a \<in> set acts. act_ok a" and quiet: "undisturbed acts (resting sr)"
    and e: "env_ok e"
  shows "\<exists>s. program_run acts (resting sr) = Some s \<and> same_config sr (config_of s) \<and>
    (idle s \<longrightarrow> running (config_of s)) \<and>
    (\<exists>more s'. undisturbed more s \<and> program_run more s = Some s' \<and> s' = resting (config_of s') \<and>
       running (config_of s'))"
proof -
  obtain s where s: "program_run acts (resting sr) = Some s" "program_ok 5 s" "\<not> stuck s"
      "same_config sr (config_of s)"
    using undisturbed_run [OF resting_ok [OF run] resting_not_stuck ok quiet] by auto
  moreover have "idle s \<longrightarrow> running (config_of s)"
    using s(2) by (auto simp: program_ok_def idle_def program_inv_done)
  ultimately show ?thesis using comes_to_rest [OF e s(2,3)] by blast
qed

theorem undisturbed_program_safe_witness:
  "\<exists>s. program_run (Frame ideal_env (ip_frame 64 17 dst_b) ''eth0'' # replicate 2 (Move (Timer ideal_env)) @
        replicate 3 (Move (Receiver ideal_env))) (resting rtr2) = Some s \<and> same_config rtr2 (config_of s)"
  using undisturbed_program_safe [OF rtr2_running _ undisturbed_frame ideal_env_ok,
      of ideal_env "ip_frame 64 17 dst_b" "''eth0''" 2 ideal_env 3 ideal_env] ideal_env_ok
  by auto

text \<open>
  C24 (safety). However the timer thread cuts in while a packet is being sent - between any two of
  those pieces, with any part of its sweep - no freed request is touched and nothing else goes
  wrong, as long as the times its next hop has been asked for (at least one counted) and the
  rounds the timer begins meanwhile are at most four together. Both threads can then go on to
  the end of what they are doing, and whenever the packet has been dealt with the router is in a
  regular state again.
\<close>

theorem interleaved_send_safe:
  assumes e: "env_ok e" and run: "running sr" and len: "34 \<le> length p" "length p < 2 ^ 31"
    and h: "ld_ip p 14 = Some h" and r: "route_to sr (ip_dst h) = Some (out, nh)"
    and ok: "\<forall>t \<in> set turns. turn_ok t"
    and few: "max 1 (times_asked (cache sr) nh) + rounds turns (sending sr p (length p)) \<le> 4"
  shows "\<exists>s. schedule turns (sending sr p (length p)) = Some s \<and> same_config sr (th_sr s) \<and>
    (th_send s = Done \<longrightarrow> running (th_sr s)) \<and>
    (\<exists>k m s'. schedule (replicate k (Timer e) @ replicate m (Receiver e)) s = Some s' \<and>
       th_send s' = Done \<and> running (th_sr s'))"
proof -
  have I: "threads_inv nh (max 1 (times_asked (cache sr) nh)) (sending sr p (length p))"
    using run h r len by (intro sending_inv) (auto simp: frame_ok_def)
  obtain n s where s: "schedule turns (sending sr p (length p)) = Some s" "threads_inv nh n s"
      "same_config sr (th_sr s)" "1 \<le> n" "n \<le> 4"
    using schedule_inv [OF I ok _ few] few by auto
  moreover have "th_send s = Done \<longrightarrow> running (th_sr s)"
    using s(2) by (auto simp: threads_inv_def running_but_none)
  ultimately show ?thesis using both_finish [OF e s(2,4)] by blast
qed

theorem interleaved_send_safe_witness:
  "\<exists>s. schedule [Receiver ideal_env, Receiver ideal_env, Receiver ideal_env, Timer ideal_env, Timer ideal_env,
       Receiver ideal_env, Receiver ideal_env, Timer ideal_env, Receiver ideal_env]
      (sending rtr0 (ip_frame 64 17 dst_b) (length (ip_frame 64 17 dst_b))) = Some s \<and>
    same_config rtr0 (th_sr s) \<and>
    (\<exists>k m s'. schedule (replicate k (Timer ideal_env) @ replicate m (Receiver ideal_env)) s = Some s' \<and>
       th_send s' = Done \<and> running (th_sr s'))"
proof -
  let ?turns = "[Receiver ideal_env, Receiver ideal_env, Receiver ideal_env, Timer ideal_env, Timer ideal_env,
       Receiver ideal_env, Receiver ideal_env, Timer ideal_env, Receiver ideal_env]"
  have "times_asked (cache rtr0) dst_b = 0" by code_simp
  moreover have "rounds ?turns s \<le> 3" for s using rounds_le [of ?turns s] by simp
  ultimately have few: "max 1 (times_asked (cache rtr0) dst_b) +
      rounds ?turns (sending rtr0 (ip_frame 64 17 dst_b) (length (ip_frame 64 17 dst_b))) \<le> 4"
    by (simp only: max_def) (simp del: rounds.simps)
  have h: "ld_ip (ip_frame 64 17 dst_b) 14 = Some (hdr 64 17 dst_b)"
    using frame_valid [of 64 17 dst_b] by (simp add: ip_valid_def ip_shape_def)
  show ?thesis
    using interleaved_send_safe [OF ideal_env_ok rtr0_running _ small_frames(1) h _ _ few, of eth1] rtr0_facts(1)
      ideal_env_ok by auto
qed

text \<open>
  C25 (safety). An answer reaches the packets that wait for it whatever the timer does meanwhile:
  once the request has been taken out of the queue, in any interleaving with any number of rounds
  and visits no freed memory is touched, the router stays in a regular state, and when the
  operation has ended every waiting packet has been sent, in the order of the queue, possibly with
  frames of the timer in between. And it can always be brought to its end.
\<close>

theorem interleaved_answer_delivers:
  assumes e: "env_ok e" and run: "running sr" and ok: "\<forall>t \<in> set turns. turn_ok t"
  shows "\<exists>s out. schedule (Receiver e # turns) (answering sr arp_hdr) = Some s \<and>
    same_config sr (th_sr s) \<and> running (th_sr s) \<and> sock_out (th_sr s) = sock_out sr @ out \<and>
    (th_send s = Done \<longrightarrow> subseq (flush_msgs sr (ar_sha arp_hdr) (waiting_for sr (ar_sip arp_hdr))) out) \<and>
    (\<exists>k m s'. schedule (replicate k (Timer e) @ replicate m (Receiver e)) s = Some s' \<and> th_send s' = Done)"
proof -
  obtain s1 a where s1: "take_turn (Receiver e) (answering sr arp_hdr) = Some s1" "threads_inv 0 1 s1"
      "flushing (ar_sha arp_hdr) a s1" "owed (th_send s1) = waiting_for sr (ar_sip arp_hdr)"
      "same_config sr (th_sr s1)" "sock_out (th_sr s1) = sock_out sr"
    by (rule answer_begins [OF e run])
  obtain s where s: "schedule turns s1 = Some s" and d: "delivers (ar_sha arp_hdr) a s1 s"
    using flushing_schedule [OF s1(2,3) ok] by blast
  obtain sent out where out: "owed (th_send s1) = sent @ owed (th_send s)"
      "sock_out (th_sr s) = sock_out (th_sr s1) @ out" "subseq (flush_msgs (th_sr s1) (ar_sha arp_hdr) sent) out"
    using d by (auto simp: delivers_def)
  have I: "threads_inv 0 1 s" and f: "flushing (ar_sha arp_hdr) a s" and c: "same_config sr (th_sr s)"
    using d same_config_trans [OF s1(5)] by (auto simp: delivers_def)
  have "held (th_send s) = {}" using f by (cases "th_send s") (auto simp: flushing_def)
  then have "running (th_sr s)" using I by (simp add: threads_inv_def running_but_none)
  moreover have "th_send s = Done \<longrightarrow>
      subseq (flush_msgs sr (ar_sha arp_hdr) (waiting_for sr (ar_sip arp_hdr))) out"
    using out s1(4) flush_msgs_config [OF s1(5)] by auto
  ultimately show ?thesis
    using s s1(1,6) out(2) c both_finish [OF e I] by (auto simp del: take_turn.simps)
qed

theorem interleaved_answer_delivers_witness:
  "\<exists>s out. schedule (Receiver ideal_env # [Timer ideal_env, Receiver ideal_env, Timer ideal_env, Receiver ideal_env])
      (answering rtr2 answer_b) = Some s \<and>
    same_config rtr2 (th_sr s) \<and> running (th_sr s) \<and> sock_out (th_sr s) = sock_out rtr2 @ out \<and>
    (\<exists>k m s'. schedule (replicate k (Timer ideal_env) @ replicate m (Receiver ideal_env)) s = Some s' \<and>
       th_send s' = Done)"
  using interleaved_answer_delivers [OF ideal_env_ok rtr2_running,
      of "[Timer ideal_env, Receiver ideal_env, Timer ideal_env, Receiver ideal_env]" answer_b] ideal_env_ok
  by (simp del: schedule.simps) blast

text \<open>
  C26 (error). Beyond that the program is wrong: if the next hop has been asked for five times and is
  due, and the timer's round comes between \<^verbatim>\<open>sr_arpcache_queuereq\<close> and the look at
  \<^verbatim>\<open>times_sent\<close>, the request has been freed by then, with the packet that just joined it, and
  the receiving thread reads freed memory.
\<close>

theorem late_check_faults:
  assumes e: "env_ok e" and run: "running sr" and len: "34 \<le> length p" "length p < 2 ^ 31"
    and h: "ld_ip p 14 = Some h" and r: "route_to sr (ip_dst h) = Some (out, nh)"
    and m: "arp_mac (cache sr) nh = None" and rq: "find_req (requests (cache sr)) nh = Some rq"
    and old: "5 \<le> req_times_sent rq" "1 \<le> now e - req_sent rq"
  shows "\<exists>k. schedule (replicate 3 (Receiver e) @ replicate k (Timer e) @ [Receiver e])
    (sending sr p (length p)) = None"
proof -
  obtain pkt where s3: "schedule (replicate 3 (Receiver e)) (sending sr p (length p)) =
      Some \<lparr>th_sr = sr\<lparr>cache := update_req (req_self rq) (add_packet pkt) (cache sr)\<rparr>,
        th_send = Check (req_self rq) out, th_timer = Asleep\<rparr>" and pkt: "pkt_ok pkt"
    by (rule send_up_to_check [OF e run len h r m rq])
  have q: "queue_inv (cache sr)" using run by (simp add: running_def router_inv_def cache_inv_def)
  have d: "deref_req (update_req (req_self rq) (add_packet pkt) (cache sr)) (req_self rq) = Some (add_packet pkt rq)"
    using deref_req_unique [OF q] find_req_Some [OF rq] by (simp add: deref_req_update)
  obtain k sr' tm' where
    "schedule (replicate k (Timer e)) \<lparr>th_sr = sr\<lparr>cache := update_req (req_self rq) (add_packet pkt) (cache sr)\<rparr>,
        th_send = Check (req_self rq) out, th_timer = Asleep\<rparr> =
      Some \<lparr>th_sr = sr', th_send = Check (req_self rq) out, th_timer = tm'\<rparr>"
    "deref_req (cache sr') (req_self rq) = None"
    by (rule round_destroys [OF e running_add_packet [OF run pkt, of "req_self rq"],
          of "req_self rq" "add_packet pkt rq" "Check (req_self rq) out"])
      (use d old in \<open>simp_all add: add_packet_def\<close>)
  with s3 show ?thesis by (intro exI [of _ k]) (simp add: schedule_append send_step_def)
qed

theorem late_check_faults_witness:
  "\<exists>k. schedule (replicate 3 (Receiver (ideal_env\<lparr>now := 1\<rparr>)) @ replicate k (Timer (ideal_env\<lparr>now := 1\<rparr>)) @
      [Receiver (ideal_env\<lparr>now := 1\<rparr>)]) (sending rtr4 (ip_frame 64 17 dst_b) (length (ip_frame 64 17 dst_b))) = None"
proof -
  have h: "ld_ip (ip_frame 64 17 dst_b) 14 = Some (hdr 64 17 dst_b)"
    using frame_valid [of 64 17 dst_b] by (simp add: ip_valid_def ip_shape_def)
  have "same_config rtr0 rtr4" by (simp add: rtr4_def rtr3_def same_config_def)
  from config_facts(1) [OF this] have r: "route_to rtr4 dst_b = Some (eth1, dst_b)"
    "arp_mac (cache rtr4) dst_b = None" "find_req (requests (cache rtr4)) dst_b = Some rq4"
    by (simp, code_simp, simp add: rtr4_def rq4_def rq2_def)
  show ?thesis
    by (rule late_check_faults [OF _ rtr4_running _ small_frames(1) h _ _ r(3)])
      (simp_all add: r rq4_facts env_ok_def ideal_env_def)
qed

text \<open>
  C27 (safety). The interface list has no lock. While the receiving thread appends an interface to it
  (\<^verbatim>\<open>sr_add_interface\<close>), the other one may look up a name that is in the list, as both do for
  the interfaces of routes and queued packets: access by access and in every interleaving it follows
  no pointer that has not been set, it finds the interface it would find in the list as it was, and
  two accesses for each node are enough.
\<close>

theorem lookup_while_list_grows:
  assumes "holds_list h as (if_list sr)" and i: "sr_get_interface sr name = Some i"
    and "\<forall>t \<in> set turns. if_turn_ok t"
  shows "\<exists>s. if_schedule (\<lambda>n. strncmp (if_name n) name sr_IFACE_NAMELEN = 0) turns (extending h new) = Some s \<and>
    (\<forall>x. ith_find s = Result x \<longrightarrow> x = sr_get_interface sr name) \<and>
    (2 * length (if_list sr) < length (filter ((=) Finds) turns) \<longrightarrow>
       ith_find s = Result (sr_get_interface sr name))"
  using known_interface_found [OF assms(1) _ assms(3)] i
  by (simp add: sr_get_interface_def get_interface_walk_find)

theorem lookup_while_list_grows_witness:
  "\<exists>s. if_schedule (\<lambda>n. strncmp (if_name n) ''eth1'' sr_IFACE_NAMELEN = 0)
      [Adds ideal_env eth0, Finds, Finds, Adds ideal_env eth0, Adds ideal_env eth0, Finds, Finds,
       Adds ideal_env eth0, Finds]
      (extending (heap_of (if_list rtr0)) ''eth2'') = Some s \<and>
    ith_find s = Result (sr_get_interface rtr0 ''eth1'')"
proof -
  have "sr_get_interface rtr0 ''eth1'' = Some eth1" by code_simp
  moreover have "length (if_list rtr0) = 2" by code_simp
  ultimately show ?thesis
    using lookup_while_list_grows [OF heap_of_holds, of rtr0 "''eth1''" eth1
        "[Adds ideal_env eth0, Finds, Finds, Adds ideal_env eth0, Adds ideal_env eth0, Finds, Finds,
          Adds ideal_env eth0, Finds]" "''eth2''"] ideal_env_ok
    by (auto simp del: if_schedule.simps)
qed

section \<open>Checksums and validation\<close>

text \<open>
  C28 (functional). The checksum routine computes the Internet checksum of RFC 1071: of data up to 128
  KB, the one non-zero 16-bit value that, added to the data as big-endian words, gives 0 modulo
  \<open>2^16 - 1\<close>. (The 32-bit accumulator cannot overflow on that much data.)
\<close>

theorem cksum_correct:
  assumes "length data \<le> 131072"
  shows "x = cksum data \<longleftrightarrow> x \<noteq> 0 \<and> (word_sum data + unat (ntohs x)) mod 65535 = 0"
  by (rule cksum_eq_iff [OF assms])

theorem cksum_correct_witness:
  "htons 0xf7fd = cksum [8, 0, 0, 0, 0, 1, 0, 1] \<longleftrightarrow>
    htons 0xf7fd \<noteq> 0 \<and> (word_sum [8, 0, 0, 0, 0, 1, 0, 1] + unat (ntohs (htons 0xf7fd))) mod 65535 = 0"
  by (rule cksum_correct) simp

text \<open>
  C29 (functional). The validity check leaves the packet as it was and accepts exactly the packets of
  IP version 4 whose lengths fit together and the buffer, whose header sums to 0 modulo
  \<open>2^16 - 1\<close>, and whose checksum field is not 0.
\<close>

theorem ip_validation_exact:
  "sr_valid_ip_packet p (length p) =
    Some ((\<exists>h. ld_ip p 14 = Some h \<and> ip_v h = 4 \<and> 20 \<le> hlen h \<and> hlen h \<le> tlen h \<and>
             14 + tlen h \<le> length p \<and> ip_sum h \<noteq> 0 \<and>
             word_sum (take (hlen h) (drop 14 p)) mod 65535 = 0), p)"
  by (simp add: valid_ip_packet_eq ip_valid_iff ip_shape_def)

text \<open>
  A header whose correct checksum is 0 is never accepted: the check computes
  \<open>0xffff\<close> for it. Such a packet, correct by RFC 1071, is dropped.
\<close>

theorem zero_checksum_dropped:
  "ip_sum zero_hdr = 0 \<and> ip_shape zero_frame zero_hdr \<and>
   word_sum (take (hlen zero_hdr) (drop 14 zero_frame)) mod 65535 = 0 \<and>
   sr_handlepacket e sr zero_frame (length zero_frame) iface = Some sr"
proof -
  have s: "ip_shape zero_frame zero_hdr" by (rule zero_frame_shape)
  have "\<nexists>h. ip_valid zero_frame h"
    using ip_shapeD(6) [OF s] zero_hdr_facts(1) by (auto simp: ip_valid_iff ip_shape_def)
  then have "sr_handlepacket e sr zero_frame (length zero_frame) iface = Some sr"
    by (simp add: handlepacket_ip [OF zero_frame_eth frame_eth(3)] handle_ip_invalid)
  with s zero_hdr_facts show ?thesis by simp
qed

section \<open>Structures, interfaces, socket and dump\<close>

text \<open>
  The layouts of the packed headers are faithful in both directions: decoding what was
  encoded gives the header back, and encoding what was decoded gives the bytes back.
\<close>

theorem headers_roundtrip:
  "dec_eth (enc_eth a) = a \<and> dec_ip (enc_ip b) = b \<and> dec_arp (enc_arp c) = c \<and>
   dec_icmp08 (enc_icmp08 d) = d \<and> dec_icmp11 (enc_icmp11 f) = f \<and>
   (length bs = 14 \<longrightarrow> enc_eth (dec_eth bs) = bs) \<and> (length bs = 20 \<longrightarrow> enc_ip (dec_ip bs) = bs) \<and>
   (length bs = 28 \<longrightarrow> enc_arp (dec_arp bs) = bs) \<and>
   (length bs = 8 \<longrightarrow> enc_icmp08 (dec_icmp08 bs) = bs \<and> enc_icmp11 (dec_icmp11 bs) = bs)"
  by (simp add: eth.dec_enc iph.dec_enc arp.dec_enc icmp08.dec_enc icmp11.dec_enc
      eth.enc_dec iph.enc_dec arp.enc_dec icmp08.enc_dec icmp11.enc_dec)

theorem headers_roundtrip_witness:
  "dec_ip (enc_ip (hdr 1 2 3)) = hdr 1 2 3 \<and>
   enc_icmp08 (dec_icmp08 (replicate 8 7)) = replicate 8 7 \<and>
   enc_icmp11 (dec_icmp11 (replicate 8 7)) = replicate 8 7"
  using headers_roundtrip [where b = "hdr 1 2 3" and bs = "replicate 8 7"] by simp

text \<open>
  C30 (safety). Nothing reaches the server socket but the \<^verbatim>\<open>VNSPACKET\<close> message of the frame, or a
  prefix of it when the write is cut short, and only if the frame's source address is that of the
  interface it is sent on.
\<close>

theorem only_own_address_is_sent:
  assumes "sr_send_packet e sr buf (length buf) iface = Some (r, sr')" and "sock_out sr' \<noteq> sock_out sr"
  shows "\<exists>i h n. sr_get_interface sr iface = Some i \<and> ld_eth buf 0 = Some h \<and> ether_shost h = if_addr i \<and>
    sock_out sr' = sock_out sr @ [take n (vns_packet iface buf)]"
  by (rule sr_send_packet_writes [OF assms])

theorem only_own_address_is_sent_witness:
  "\<exists>i h n. sr_get_interface rtr0 ''eth0'' = Some i \<and> ld_eth (arp_reply_frame eth0 question_a) 0 = Some h \<and>
    ether_shost h = if_addr i \<and>
    sock_out (emit ideal_env ''eth0'' (arp_reply_frame eth0 question_a) rtr0) =
      sock_out rtr0 @ [take n (vns_packet ''eth0'' (arp_reply_frame eth0 question_a))]"
  by (rule only_own_address_is_sent [OF reply_sent]) simp

text \<open>
  C31 (roundtrip). A dump can be read back: the file that \<^verbatim>\<open>sr_dump_open\<close> starts and \<^verbatim>\<open>sr_log_packet\<close>
  extends parses as a tcpdump file of one record per frame, in order, each with the time it was
  logged and the first 1024 bytes of the frame.
\<close>

theorem dump_reads_back:
  assumes "sr_dump_open ok fname zone snap = Some fp"
  shows "\<exists>sr' fp'. log_frames (sr\<lparr>logfile := Some fp\<rparr>) efs = Some sr' \<and> logfile sr' = Some fp' \<and>
    map_option snd (read_dump fp') = Some (map (\<lambda>(e, fr).
      (\<lparr>sf_tv_sec = word_of_int (fst (tod e)), sf_tv_usec = word_of_int (snd (tod e)),
        sf_caplen = of_nat (min 1024 (length fr)), sf_len = of_nat (min 1024 (length fr))\<rparr>,
       take 1024 fr)) efs)"
proof -
  obtain h where fp: "fp = enc_file_header h"
    using assms by (auto simp: sr_dump_open_def sf_write_header_def split: if_splits)
  let ?recs = "map (\<lambda>(e, fr). log_record e fr) efs"
  have "\<forall>r \<in> set ?recs. rec_ok r" by (auto simp: rec_ok_log_record)
  from read_dump_bytes [OF this, of h]
  have "map_option snd (read_dump (fp @ concat (map rec_bytes ?recs))) = Some ?recs" by (simp add: fp)
  moreover have "log_record e fr = (\<lparr>sf_tv_sec = word_of_int (fst (tod e)), sf_tv_usec = word_of_int (snd (tod e)),
      sf_caplen = of_nat (min 1024 (length fr)), sf_len = of_nat (min 1024 (length fr))\<rparr>, take 1024 fr)" for e fr
    by (cases "length fr \<le> 1024") (simp_all add: log_record_def PACKET_DUMP_SIZE_def Let_def min_def)
  ultimately show ?thesis
    by (simp add: log_frames_eq [of "sr\<lparr>logfile := Some fp\<rparr>" fp] split_def)
qed

theorem dump_reads_back_witness:
  "\<exists>sr' fp'. log_frames (rtr0\<lparr>logfile := Some (sf_write_header [] LINKTYPE_ETHERNET 0 1024)\<rparr>) [(ideal_env, [1, 2, 3])] = Some sr' \<and>
    logfile sr' = Some fp' \<and>
    map_option snd (read_dump fp') = Some (map (\<lambda>(e, fr).
      (\<lparr>sf_tv_sec = word_of_int (fst (tod e)), sf_tv_usec = word_of_int (snd (tod e)),
        sf_caplen = of_nat (min 1024 (length fr)), sf_len = of_nat (min 1024 (length fr))\<rparr>,
       take 1024 fr)) [(ideal_env, [1, 2, 3])])"
  by (rule dump_reads_back [where fname = "''-''"]) (simp add: sr_dump_open_def)

text \<open>
  An interface the server announces is added behind the ones there are: name, then
  hardware address, then IP address, and is found again under its name if no earlier one has the
  same first 32 characters.
\<close>

theorem announced_interface_found:
  assumes "malloc_ok e sizeof_sr_if" and "c_str name"
    and "sr_get_interface sr name = None"
  shows "\<exists>sr'. announce e junk sr name m ip = Some sr' \<and>
    sr_get_interface sr' name = Some (junk\<lparr>if_name := take 32 name, if_addr := m, if_ip := ip\<rparr>) \<and>
    butlast (if_list sr') = if_list sr"
  using assms announce_lookup [of e name sr junk m ip] by (simp add: announce_eq)

theorem announced_interface_found_witness:
  "\<exists>sr'. announce ideal_env eth0 rtr0 ''eth2'' (MAC 2 0 0 0 0 3) (ip4 10 0 2 1) = Some sr' \<and>
    sr_get_interface sr' ''eth2'' =
      Some (eth0\<lparr>if_name := take 32 ''eth2'', if_addr := MAC 2 0 0 0 0 3, if_ip := ip4 10 0 2 1\<rparr>) \<and>
    butlast (if_list sr') = if_list rtr0"
  by (rule announced_interface_found) (simp, code_simp, code_simp)

section \<open>The session with the server\<close>

text \<open>
  C32 (equivalence). The incremental SHA-1 code computes the hash of FIPS 180-1: whatever the context
  held before, and however a message of less than \<open>2^61\<close> bytes is cut into portions of less than \<open>2^32\<close>
  bytes, as many as the 32-bit parameter \<^verbatim>\<open>length\<close> can count, \<^verbatim>\<open>SHA1Reset\<close>,
  one \<^verbatim>\<open>SHA1Input\<close> per portion and \<^verbatim>\<open>SHA1Result\<close> stay inside the block, report success and leave
  the digest of the whole message, padding and bit length included. A second \<^verbatim>\<open>SHA1Result\<close> changes
  nothing. The witness is the standard's first example, in two portions.
\<close>

theorem sha1_correct:
  assumes "length (Message_Block context) = 64" and "length (concat ps) < 2 ^ 61"
    and "\<forall>p \<in> set ps. length p < 2 ^ 32"
  shows "\<exists>c d. SHA1_portions (SHA1Reset context) ps = Some c \<and> SHA1Result c = Some (1, d) \<and>
    Message_Digest d = fips_sha1 (concat ps) \<and> SHA1Result d = Some (1, d)"
  unfolding SHA1_portions_locale by (rule sha.portions_hash [OF SHA1Reset_absorbed [OF assms(1)] assms(2,3)])

theorem sha1_correct_witness:
  "\<exists>c d. SHA1_portions (SHA1Reset blank) [[0x61], [0x62, 0x63]] = Some c \<and> SHA1Result c = Some (1, d) \<and>
    Message_Digest d = [0xA9993E36, 0x4706816A, 0xBA3E2571, 0x7850C26C, 0x9CD0D89D]"
proof -
  have "\<exists>c d. SHA1_portions (SHA1Reset blank) [[0x61], [0x62, 0x63]] = Some c \<and> SHA1Result c = Some (1, d) \<and>
      Message_Digest d = fips_sha1 (concat [[0x61], [0x62, 0x63]]) \<and> SHA1Result d = Some (1, d)"
    by (rule sha1_correct) (simp_all add: blank_def)
  then show ?thesis by (auto simp: fips_sha1_abc)
qed

text \<open>
  C33 (equivalence). Reading a command does not depend on how the network cuts the stream or on signals: if
  the bytes to come start with a message of at most 10000 bytes, one call consumes exactly that
  message and acts as the switch does on it; a command other than the expected one is refused
  with -1, except a closing one.
\<close>

theorem message_read_whole:
  assumes "Failed \<notin> set (sock_in ss)" and "stream_data (sock_in ss) = vns_msg ty p @ rest"
    and "length p \<le> 9992" and "malloc_ok (base v) (8 + length p)"
  shows "\<exists>es. stream_data es = rest \<and> sr_read_from_server_expect v ss x =
    (if x \<noteq> 0 \<and> ty \<noteq> x \<and> ty \<noteq> VNSCLOSE then Some (Returned (- 1, ss\<lparr>sock_in := es\<rparr>))
     else map_option Returned (vns_command v (ss\<lparr>sock_in := es\<rparr>) (host_msg ty p) (8 + length p) ty))"
  by (rule read_message [OF assms, of x]) blast

theorem message_read_whole_witness:
  "\<exists>es. stream_data es = [7] \<and> sr_read_from_server_expect os0 (session0 (vns_msg VNSBANNER [72, 105, 0] @ [7])) 0 =
    Some (Returned (1, (session0 (vns_msg VNSBANNER [72, 105, 0] @ [7]))\<lparr>sock_in := es\<rparr>))"
proof -
  let ?ss = "session0 (vns_msg VNSBANNER [72, 105, 0] @ [7])"
  have b: "vns_command os0 (?ss\<lparr>sock_in := es\<rparr>) (host_msg VNSBANNER [72, 105, 0]) 11 VNSBANNER =
      Some (1, ?ss\<lparr>sock_in := es\<rparr>)" for es
    by (simp add: vns_command_def vns_types ld_cstr_def drop_msg)
  have "\<exists>es. stream_data es = [7] \<and> sr_read_from_server_expect os0 ?ss 0 =
    (if (0 :: u32) \<noteq> 0 \<and> VNSBANNER \<noteq> 0 \<and> VNSBANNER \<noteq> VNSCLOSE then Some (Returned (- 1, ?ss\<lparr>sock_in := es\<rparr>))
     else map_option Returned (vns_command os0 (?ss\<lparr>sock_in := es\<rparr>) (host_msg VNSBANNER [72, 105, 0])
       (8 + length [72, 105, 0 :: u8]) VNSBANNER))"
    by (rule message_read_whole) simp_all
  then show ?thesis using b by simp
qed

text \<open>
  C34 (bounds). The length a message announces is not checked enough. Above 10000 or negative, it makes the
  reader close the socket and return -1, without reading further and whatever follows. But a length below 8 is
  taken: if there is memory for that many bytes and they arrive, the code writes or reads outside the
  buffer it has just allocated.
\<close>

theorem short_length_faults:
  assumes "Failed \<notin> set (sock_in ss)" and "stream_data (sock_in ss) = bytes32 (htonl (of_nat n)) @ rest"
    and "n < 2 ^ 32"
  shows "(10000 < n \<longrightarrow> (\<exists>es. stream_data es = rest \<and>
      sr_read_from_server v ss = Some (Returned (- 1, ss\<lparr>sock_in := es, sock_closed := True\<rparr>)))) \<and>
    (n < 8 \<longrightarrow> malloc_ok (base v) n \<longrightarrow> n \<le> 4 + length rest \<longrightarrow> sr_read_from_server v ss = None)"
proof -
  have "sint (of_nat n :: u32) > 10000 \<or> sint (of_nat n :: u32) < 0" if "10000 < n"
  proof (cases "n < 2 ^ 31")
    case True
    then show ?thesis using that sint_of_nat_len [of n] by simp
  next
    case big: False
    have "int n = uint (of_nat n :: u32)" using assms(3) by (simp add: unsigned_of_nat take_bit_nat_eq_self)
    also have "\<dots> = sint (of_nat n :: u32) mod 2 ^ 32"
      using uint_sint [of "of_nat n :: u32"] by (simp add: take_bit_eq_mod)
    finally have "int n = sint (of_nat n :: u32) mod 2 ^ 32" .
    moreover have "sint (of_nat n :: u32) < 2 ^ 31" using sint_lt [of "of_nat n :: u32"] by simp
    ultimately have "sint (of_nat n :: u32) < 0" using big by (cases "0 \<le> sint (of_nat n :: u32)") auto
    then show ?thesis by simp
  qed
  with length_too_big [OF assms(1,2), of v] length_too_small [OF assms(1,2), of v] show ?thesis by blast
qed

theorem short_length_faults_witness:
  "sr_read_from_server os0 (session0 [0, 0, 0, 5, 1]) = None \<and>
   sr_read_from_server os0 (session0 [0, 0, 0, 7, 1, 2, 3]) = None \<and>
   (\<exists>es. sr_read_from_server os0 (session0 [0, 0, 0x27, 0x11]) =
      Some (Returned (- 1, (session0 [0, 0, 0x27, 0x11])\<lparr>sock_in := es, sock_closed := True\<rparr>))) \<and>
   (\<exists>es. sr_read_from_server os0 (session0 [0xFF, 0xFF, 0xFF, 0xFF]) =
      Some (Returned (- 1, (session0 [0xFF, 0xFF, 0xFF, 0xFF])\<lparr>sock_in := es, sock_closed := True\<rparr>)))"
  using short_length_faults [of "session0 [0, 0, 0, 5, 1]" 5 "[1]" os0]
    short_length_faults [of "session0 [0, 0, 0, 7, 1, 2, 3]" 7 "[1, 2, 3]" os0]
    short_length_faults [of "session0 [0, 0, 0x27, 0x11]" 10001 "[]" os0]
    short_length_faults [of "session0 [0xFF, 0xFF, 0xFF, 0xFF]" 4294967295 "[]" os0]
  by (simp add: bytes32_def htonl_def le32_def ideal_env_ok) blast

text \<open>
  C35 (type). Every message the client sends is a value of the structure \<^verbatim>\<open>vnscommand.h\<close> declares for
  it: read back with the declared layout it has the fields it was filled with - the total length,
  the type, names cut or padded to their arrays, numbers in network order - and what follows the
  fixed part of a packet or an authentication reply is the frame, or name and digest.
\<close>

theorem sent_messages_typed:
  "ld dec_c_open 108 (c_open sr) 0 = Some
     \<lparr>mLen_f = htonl 108, mType_f = htonl VNSOPEN, topoID = htons (topo_id sr), open_pad = 0,
      open_mVirtualHostID = strncpy_field IDSIZE (host sr), mUID = strncpy_field IDSIZE (user sr),
      mPass = replicate IDSIZE 0\<rparr> \<and>
   ld dec_c_open_template 70 (c_open_template sr) 0 = Some
     \<lparr>mLen_f = htonl 70, mType_f = htonl VNS_OPEN_TEMPLATE, templateName = strncpy_field 30 (template sr),
      template_mVirtualHostID = strncpy_field IDSIZE (host sr)\<rparr> \<and>
   ld dec_c_packet_header 24 (vns_packet iface fr) 0 = Some
     \<lparr>mLen_f = htonl (of_nat (length fr + 24)), mType_f = htonl VNSPACKET,
      mInterfaceName = strncpy_field 16 iface\<rparr> \<and> drop 24 (vns_packet iface fr) = fr \<and>
   ld dec_c_auth_reply 12 (auth_reply name digest) 0 = Some
     \<lparr>mLen_f = htonl (of_nat (12 + length name + SHA1_LEN)), mType_f = htonl VNS_AUTH_REPLY,
      usernameLen = htonl (of_nat (length name))\<rparr> \<and>
   drop 12 (auth_reply name digest) = map char_byte name @ concat (map (\<lambda>d. bytes32 (htonl d)) digest)"
proof (intro conjI)
  show "ld dec_c_open 108 (c_open sr) 0 = Some
     \<lparr>mLen_f = htonl 108, mType_f = htonl VNSOPEN, topoID = htons (topo_id sr), open_pad = 0,
      open_mVirtualHostID = strncpy_field IDSIZE (host sr), mUID = strncpy_field IDSIZE (user sr),
      mPass = replicate IDSIZE 0\<rparr>"
    using l_open.ld_written [where rest = "[]"] by (simp add: c_open_layout IDSIZE_def)
  show "ld dec_c_open_template 70 (c_open_template sr) 0 = Some
     \<lparr>mLen_f = htonl 70, mType_f = htonl VNS_OPEN_TEMPLATE, templateName = strncpy_field 30 (template sr),
      template_mVirtualHostID = strncpy_field IDSIZE (host sr)\<rparr>"
    using l_template.ld_written [where rest = "[]"] by (simp add: c_open_template_layout IDSIZE_def)
  show "ld dec_c_packet_header 24 (vns_packet iface fr) 0 = Some
     \<lparr>mLen_f = htonl (of_nat (length fr + 24)), mType_f = htonl VNSPACKET,
      mInterfaceName = strncpy_field 16 iface\<rparr>"
    unfolding vns_packet_layout by (rule l_packet.ld_written) simp
  show "drop 24 (vns_packet iface fr) = fr"
    using l_packet.length_enc [of "\<lparr>mLen_f = htonl (of_nat (length fr + 24)), mType_f = htonl VNSPACKET,
      mInterfaceName = strncpy_field 16 iface\<rparr>"] by (simp add: vns_packet_layout)
  show "ld dec_c_auth_reply 12 (auth_reply name digest) 0 = Some
     \<lparr>mLen_f = htonl (of_nat (12 + length name + SHA1_LEN)), mType_f = htonl VNS_AUTH_REPLY,
      usernameLen = htonl (of_nat (length name))\<rparr>"
    unfolding auth_reply_layout by (rule l_auth_reply.layout.ld_written) simp
  show "drop 12 (auth_reply name digest) = map char_byte name @ concat (map (\<lambda>d. bytes32 (htonl d)) digest)"
    by (simp add: auth_reply_layout l_auth_reply.length_enc)
qed

text \<open>
  C36 (functional). The authentication challenge is answered: the reply that goes out carries the user's name
  and the SHA-1 hash of the server's salt followed by the key, if the first line of \<^verbatim>\<open>auth_key\<close> has
  at least the 64 characters that are hashed. Nothing else changes.
\<close>

theorem challenge_answered:
  assumes "os_ok v" and "Failed \<notin> set (sock_in ss)"
    and "stream_data (sock_in ss) = vns_msg VNS_AUTH_REQUEST salt @ rest" and "length salt \<le> 9992"
    and "files ss ''auth_key'' = Some content" and "length (fgets 65 content) = 64"
    and "length (user (router ss)) < 32"
  shows "\<exists>es. stream_data es = rest \<and>
    sr_read_from_server_expect v ss VNS_AUTH_REQUEST = Some (Returned (1, ss\<lparr>sock_in := es,
      router := (router ss)\<lparr>sock_out := sock_out (router ss) @
        [auth_reply (user (router ss)) (fips_sha1 (salt @ fgets 65 content))]\<rparr>\<rparr>))"
proof -
  have "malloc_ok (base v) (8 + length salt)" using assms(1) by (simp add: os_ok_def)
  from read_message [OF assms(2,3,4) this, of VNS_AUTH_REQUEST]
  obtain es where es: "stream_data es = rest" "sr_read_from_server_expect v ss VNS_AUTH_REQUEST =
      map_option Returned (vns_command v (ss\<lparr>sock_in := es\<rparr>) (host_msg VNS_AUTH_REQUEST salt) (8 + length salt) VNS_AUTH_REQUEST)"
    by auto
  have "content \<noteq> []" using assms(6) by (auto simp: fgets_def)
  then show ?thesis
    using es vns_command_auth [OF assms(1), of "ss\<lparr>sock_in := es\<rparr>" content salt] assms(4-7)
    by (auto simp: authenticated_def auth_key_bytes_full)
qed

theorem challenge_answered_witness:
  "\<exists>es. stream_data es = [] \<and>
    sr_read_from_server_expect os0 (session0 (vns_msg VNS_AUTH_REQUEST [1, 2, 3, 4])) VNS_AUTH_REQUEST =
    Some (Returned (1, (session0 (vns_msg VNS_AUTH_REQUEST [1, 2, 3, 4]))\<lparr>sock_in := es,
      router := rtr0\<lparr>sock_out := sock_out rtr0 @
        [auth_reply (user rtr0) (fips_sha1 ([1, 2, 3, 4] @ replicate 64 0x6B))]\<rparr>\<rparr>))"
proof -
  have "fgets 65 key0 = replicate 64 0x6B" by code_simp
  then show ?thesis
    using challenge_answered [of os0 "session0 (vns_msg VNS_AUTH_REQUEST [1, 2, 3, 4])" "[1, 2, 3, 4]" "[]" key0]
    by (simp add: rtr0_def)
qed

text \<open>
  C37 (functional). Hardware information becomes the interface list, provided that no name in the list then fills its
  array of 32 characters: after the message has been read, the
  announced interfaces stand behind the earlier ones, in order, each with its name, hardware
  address and IP address; entries of other kinds are read over. The call reports 1 if there are interfaces
  and routes and every route names an interface that is there, and -1 otherwise, and leaves the rest of the router as it
  was. A name of 32 characters or more, announced now or earlier, is a fault: \<^verbatim>\<open>strncpy\<close> stores it without a
  terminator, and \<^verbatim>\<open>sr_print_if_list\<close>, which the handler calls, reads on behind it.
\<close>

theorem hardware_info_installed:
  assumes "env_ok (base v)" and "Failed \<notin> set (sock_in ss)"
    and "stream_data (sock_in ss) = vns_msg VNSHWINFO (concat (map hw_bytes xs)) @ rest"
    and "\<forall>x \<in> set xs. hw_ok x" and "length (concat (map hw_bytes xs)) \<le> 9992"
  shows "if \<forall>i \<in> set (if_list (router ss) @ hw_ifaces v 0 xs). length (if_name i) < 32
    then \<exists>es sr. stream_data es = rest \<and> sr = (router ss)\<lparr>if_list := if_list (router ss) @ hw_ifaces v 0 xs\<rparr> \<and>
      sr_read_from_server v ss = Some (Returned
        (if if_list sr \<noteq> [] \<and> routing_table sr \<noteq> [] \<and>
            (\<forall>rt \<in> set (routing_table sr). sr_get_interface sr (rt_interface rt) \<noteq> None) then 1 else - 1,
         ss\<lparr>sock_in := es, router := sr\<rparr>))
    else sr_read_from_server v ss = None"
proof (cases "printable (if_list (router ss) @ hw_ifaces v 0 xs)")
  case True
  obtain es where "stream_data es = rest" "sr_read_from_server v ss = Some (Returned
      (if sr_verify_routing_table (add_ifaces (hw_ifaces v 0 xs) (router ss)) = 0 then 1 else - 1,
       ss\<lparr>sock_in := es, router := add_ifaces (hw_ifaces v 0 xs) (router ss)\<rparr>))"
    by (rule read_hwinfo [OF assms True])
  then have "\<exists>es sr. stream_data es = rest \<and> sr = (router ss)\<lparr>if_list := if_list (router ss) @ hw_ifaces v 0 xs\<rparr> \<and>
      sr_read_from_server v ss = Some (Returned (if sr_verify_routing_table sr = 0 then 1 else - 1,
         ss\<lparr>sock_in := es, router := sr\<rparr>))"
    by (intro exI [of _ es] exI [of _ "add_ifaces (hw_ifaces v 0 xs) (router ss)"]) (simp add: add_ifaces_def)
  then show ?thesis using True unfolding verify_0_iff printable_def sr_IFACE_NAMELEN_def by simp
next
  case False
  with read_hwinfo_fault [OF assms False] show ?thesis unfolding printable_def sr_IFACE_NAMELEN_def by simp
qed

theorem hardware_info_installed_witness:
  "(\<exists>es. sr_read_from_server os0 ((session0 (vns_msg VNSHWINFO (concat (map hw_bytes announced))))\<lparr>router := rtr0\<lparr>if_list := []\<rparr>\<rparr>) =
      Some (Returned (1, (session0 (vns_msg VNSHWINFO (concat (map hw_bytes announced))))
        \<lparr>sock_in := es, router := rtr0\<lparr>if_list := [eth0, eth1]\<rparr>\<rparr>))) \<and>
   sr_read_from_server os0 (session0 (vns_msg VNSHWINFO
     (concat (map hw_bytes [Announce long_name (if_addr eth0) (if_ip eth0)])))) = None"
proof
  let ?ss = "(session0 (vns_msg VNSHWINFO (concat (map hw_bytes announced))))\<lparr>router := rtr0\<lparr>if_list := []\<rparr>\<rparr>"
  let ?sr = "rtr0\<lparr>if_list := [eth0, eth1]\<rparr>"
  have "sr_verify_routing_table ?sr = 0" by code_simp
  then have "if_list ?sr \<noteq> [] \<and> routing_table ?sr \<noteq> [] \<and>
      (\<forall>rt \<in> set (routing_table ?sr). sr_get_interface ?sr (rt_interface rt) \<noteq> None)"
    unfolding verify_0_iff .
  moreover have "\<forall>i \<in> set [eth0, eth1]. length (if_name i) < 32" by (simp add: eth0_def eth1_def)
  ultimately show "\<exists>es. sr_read_from_server os0 ?ss = Some (Returned (1,
      (session0 (vns_msg VNSHWINFO (concat (map hw_bytes announced))))\<lparr>sock_in := es, router := ?sr\<rparr>))"
    using hardware_info_installed [of os0 ?ss announced "[]"] announced_ok ideal_env_ok
    by (auto simp: announced_ifaces)
next
  let ?xs = "[Announce long_name (if_addr eth0) (if_ip eth0)]"
  let ?ss = "session0 (vns_msg VNSHWINFO (concat (map hw_bytes ?xs)))"
  have pre: "env_ok (base os0)" "Failed \<notin> set (sock_in ?ss)"
    "stream_data (sock_in ?ss) = vns_msg VNSHWINFO (concat (map hw_bytes ?xs)) @ []"
    by (simp_all add: ideal_env_ok del: hw_bytes.simps)
  have long: "\<not> (\<forall>i \<in> set (if_list (router ?ss) @ hw_ifaces os0 0 ?xs). length (if_name i) < 32)"
    using long_name_ok(3) unfolding printable_def sr_IFACE_NAMELEN_def set_append by blast
  show "sr_read_from_server os0 ?ss = None"
    using hardware_info_installed [OF pre long_name_ok(1,2)] unfolding if_not_P [OF long] .
qed

text \<open>
  C38 (roundtrip). A routing table survives being printed and loaded: a file of the lines that
  \<^verbatim>\<open>sr_print_routing_entry\<close> prints is read by \<^verbatim>\<open>sr_load_rt\<close> without fault and replaces the table
  by the printed one, addresses in dotted notation included, provided interface names are single
  words of less than 32 characters.
\<close>

theorem printed_table_loads:
  assumes "malloc_ok e sizeof_sr_rt" and "\<forall>rt \<in> set rts. route_ok rt" and "rts \<noteq> []" and "length bufs = 4"
    and "fs name = Some (map char_byte (concat (map sr_print_routing_entry rts)))"
  shows "sr_load_rt e bufs fs sr name = Some (0, sr\<lparr>routing_table := rts\<rparr>)"
proof -
  have "map char_byte (concat (map sr_print_routing_entry rts)) = concat (map file_line rts)"
    by (simp add: map_concat file_line_def [abs_def] comp_def)
  then show ?thesis
    using load_loop_printed [OF assms(1,2,4), of sr False] assms(3,5) by (simp add: sr_load_rt_def)
qed

theorem printed_table_loads_witness:
  "sr_load_rt ideal_env (replicate 4 []) [''rtable'' \<mapsto> map char_byte (concat (map sr_print_routing_entry routes))]
     (rtr0\<lparr>routing_table := []\<rparr>) ''rtable'' = Some (0, rtr0\<lparr>routing_table := routes\<rparr>)"
proof -
  have "sr_load_rt ideal_env (replicate 4 []) [''rtable'' \<mapsto> map char_byte (concat (map sr_print_routing_entry routes))]
     (rtr0\<lparr>routing_table := []\<rparr>) ''rtable'' = Some (0, rtr0\<lparr>routing_table := []\<rparr>\<lparr>routing_table := routes\<rparr>)"
    by (rule printed_table_loads) (use routes_ok in simp_all)
  then show ?thesis by simp
qed

text \<open>
  C39 (functional). Packets reach the router as they were sent: from a stream of packet messages, each naming
  a known interface, the main loop hands every frame, in order and byte for byte, to
  \<^verbatim>\<open>sr_handlepacket\<close> with the interface's name, except ARP requests for an address that is not
  the interface's. It goes on without a fault, and the router keeps its invariants. The messages
  are those \<^verbatim>\<open>sr_send_packet\<close> writes.
\<close>

theorem packets_reach_router:
  assumes "Failed \<notin> set (sock_in ss)"
    and "stream_data (sock_in ss) = concat (map (\<lambda>(v, name, fr). vns_packet name fr) ps) @ rest"
    and "\<forall>p \<in> set ps. packet_ok (router ss) p" and "running (router ss)"
  shows "\<exists>es sr. main_loop (map fst ps) ss = Some (Still_running (ss\<lparr>sock_in := es, router := sr\<rparr>)) \<and>
    stream_data es = rest \<and> deliver_all ps (router ss) = Some sr \<and> same_config (router ss) sr \<and> running sr"
proof -
  have "packet_msg = (\<lambda>(v, name, fr). vns_packet name fr)"
    by (simp add: packet_msg_def vns_packet_msg)
  with assms(2) show ?thesis by (intro main_loop_packets [OF assms(1) _ assms(3,4)]) simp
qed

theorem packets_reach_router_witness:
  "\<exists>es sr. main_loop [os0] ((session0 (vns_packet ''eth0'' (ip_frame 64 17 dst_b)))\<lparr>router := rtr1\<rparr>) =
      Some (Still_running ((session0 (vns_packet ''eth0'' (ip_frame 64 17 dst_b)))\<lparr>sock_in := es, router := sr\<rparr>)) \<and>
    stream_data es = [] \<and> deliver_all packets0 rtr1 = Some sr \<and> running sr"
proof -
  let ?ss = "(session0 (vns_packet ''eth0'' (ip_frame 64 17 dst_b)))\<lparr>router := rtr1\<rparr>"
  have "sr_get_interface rtr1 ''eth0'' = Some eth0" by code_simp
  then have "packet_ok rtr1 (os0, ''eth0'', ip_frame 64 17 dst_b)"
    by (simp add: packet_ok_def ideal_env_ok c_str_def)
  then have "\<exists>es sr. main_loop (map fst packets0) ?ss = Some (Still_running (?ss\<lparr>sock_in := es, router := sr\<rparr>)) \<and>
    stream_data es = [] \<and> deliver_all packets0 (router ?ss) = Some sr \<and> same_config (router ?ss) sr \<and> running sr"
    by (intro packets_reach_router) (simp_all add: packets0_def rtr1_running)
  then show ?thesis by (auto simp: packets0_def)
qed

text \<open>
  C40 (liveness). From the command line to the first packets: started with a topology template, a user and
  the name of the table file, with a server that authenticates the client, sends the table's
  text, announces the interfaces the table uses, under names of less than 32 characters, and then relays
  packets, in any portions. The
  program connects, saves and loads the table, installs the interfaces, and its main loop serves
  every packet without a fault and is still running, while the timer thread that \<^verbatim>\<open>sr_init\<close> has
  started sleeps. What happens when it wakes up in between is said in the section on the two threads.
\<close>

theorem session_from_command_line:
  assumes v: "os_ok v" "host_found v" "0 \<le> socket_fd v" "0 \<le> connect_ret v" "can_write v (''rtable.'' @ vid)"
    and s: "Failed \<notin> set (sock_in ss)"
      "stream_data (sock_in ss) = handshake salt ok msg @
         vns_msg VNS_RTABLE (strncpy_field 32 vid @ concat (map file_line tbl)) @
         vns_msg VNSHWINFO (concat (map hw_bytes xs)) @ concat (map packet_msg ps) @ rest"
    and l: "ok \<noteq> 0" "length salt \<le> 9992" "length msg \<le> 9991"
    and f: "files ss ''auth_key'' = Some content" "content \<noteq> []"
    and o: "t \<noteq> []" "length t < 30" "length u < 32" "length bufs = 4" "c_str vid" "length vid < 32"
    and tbl: "\<forall>rt \<in> set tbl. route_ok rt" "tbl \<noteq> []" "length (concat (map file_line tbl)) \<le> 9960"
    and hw: "\<forall>x \<in> set xs. hw_ok x" "length (concat (map hw_bytes xs)) \<le> 9992"
      "hw_ifaces v 0 xs \<noteq> []" "verify_walk (hw_ifaces v 0 xs) tbl 0 = 0"
      "\<forall>i \<in> set (hw_ifaces v 0 xs). length (if_name i) < 32"
    and ps: "\<forall>(w, name, fr) \<in> set ps. env_ok (base w) \<and> c_str name \<and> length name < 16 \<and> length fr \<le> 9976 \<and>
      get_interface_walk (hw_ifaces v 0 xs) name \<noteq> None"
  shows "\<exists>ss1 ss2. sr_main_start v bufs log_ok (template_args t (''rtable.'' @ vid) u) ss = Some (Ready ss1) \<and>
    routing_table (router ss1) = tbl \<and>
    main_loop (v # map fst ps) ss1 = Some (Still_running ss2) \<and>
    deliver_all ps ((router ss1)\<lparr>if_list := hw_ifaces v 0 xs\<rparr>) = Some (router ss2) \<and> running (router ss2)"
proof -
  let ?r1 = "started v content salt t u tbl (router ss)" and ?ifs = "hw_ifaces v 0 xs"
  let ?r2 = "add_ifaces ?ifs ?r1"
  obtain es where es: "Failed \<notin> set es"
    "stream_data es = vns_msg VNSHWINFO (concat (map hw_bytes xs)) @ concat (map packet_msg ps) @ rest"
    "sr_main_start v bufs log_ok (template_args t (''rtable.'' @ vid) u) ss = Some (Ready (ss\<lparr>sock_in := es,
      router := ?r1, files := (files ss)(''rtable.'' @ vid \<mapsto> concat (map file_line tbl))\<rparr>))"
    using main_start_template [OF v(1-4) s l f o(1-6) v(5) tbl] unfolding started_def by blast
  let ?ss1 = "ss\<lparr>sock_in := es, router := ?r1, files := (files ss)(''rtable.'' @ vid \<mapsto> concat (map file_line tbl))\<rparr>"
  have r2: "?r2 = ?r1\<lparr>if_list := ?ifs\<rparr>" by (simp add: add_ifaces_def)
  have "sr_verify_routing_table ?r2 = 0" using hw(3,4) tbl(2) by (simp add: r2 sr_verify_routing_table_def)
  then obtain es' where es': "Failed \<notin> set es'" "stream_data es' = concat (map packet_msg ps) @ rest"
    "sr_read_from_server v ?ss1 = Some (Returned (1, ?ss1\<lparr>sock_in := es', router := ?r2\<rparr>))"
    using read_hwinfo [of v ?ss1 xs "concat (map packet_msg ps) @ rest"] v(1) es(1,2) hw(1,2,5)
    by (auto simp: os_ok_def printable_def sr_IFACE_NAMELEN_def)
  have "\<forall>p \<in> set ps. packet_ok ?r2 p"
    using ps by (auto simp: packet_ok_def sr_get_interface_def r2)
  then obtain es'' sr where "main_loop (map fst ps) (?ss1\<lparr>sock_in := es', router := ?r2\<rparr>) =
      Some (Still_running (?ss1\<lparr>sock_in := es'', router := sr\<rparr>))" "deliver_all ps ?r2 = Some sr" "running sr"
    using main_loop_packets [of "?ss1\<lparr>sock_in := es', router := ?r2\<rparr>" ps rest] es'(1,2)
      started_running [OF hw(1) tbl(1)] by auto
  with es(3) es'(3) show ?thesis by (auto simp: r2)
qed

theorem session_from_command_line_witness:
  "\<exists>ss1 ss2. sr_main_start os0 (replicate 4 []) True (template_args ''t'' (''rtable.'' @ ''vrhost'') ''u'')
      (session0 (handshake [1, 2, 3, 4] 1 [] @ vns_msg VNS_RTABLE (strncpy_field 32 ''vrhost'' @ concat (map file_line routes)) @
        vns_msg VNSHWINFO (concat (map hw_bytes announced)) @ concat (map packet_msg packets0) @ [])) = Some (Ready ss1) \<and>
    routing_table (router ss1) = routes \<and> main_loop (os0 # map fst packets0) ss1 = Some (Still_running ss2) \<and>
    deliver_all packets0 ((router ss1)\<lparr>if_list := hw_ifaces os0 0 announced\<rparr>) = Some (router ss2) \<and> running (router ss2)"
proof (rule session_from_command_line [where content = key0 and v = os0 and salt = "[1, 2, 3, 4]" and ok = 1
    and msg = "[]" and rest = "[]"])
  show "length (concat (map file_line routes)) \<le> 9960" by code_simp
  show "verify_walk (hw_ifaces os0 0 announced) routes 0 = 0" unfolding announced_ifaces by code_simp
  show "\<forall>i \<in> set (hw_ifaces os0 0 announced). length (if_name i) < 32"
    unfolding announced_ifaces by (simp add: eth0_def eth1_def)
  have "get_interface_walk [eth0, eth1] ''eth0'' \<noteq> None" by code_simp
  then show "\<forall>(w, name, fr) \<in> set packets0. env_ok (base w) \<and> c_str name \<and> length name < 16 \<and> length fr \<le> 9976 \<and>
      get_interface_walk (hw_ifaces os0 0 announced) name \<noteq> None"
    by (simp add: packets0_def announced_ifaces ideal_env_ok c_str_def)
qed (use routes_ok announced_ok in \<open>simp_all add: announced_ifaces key0_def c_str_def\<close>)

end
